(* ===== verification/Prelude.thy ===== *)
theory Prelude
  imports Complex_Main "HOL-Library.Word" "HOL-Library.Multiset"
begin

text \<open>
  Shared vocabulary of the development: the ways a C function of the repository can leave
  without a result (\<open>err\<close>), the result types \<open>res\<close> (a function that always returns or
  exits) and \<open>run\<close> (one whose loop may not end), checked array access, and the lemmas and
  rule collections the component theories share.
\<close>

named_theorems bounds_rules \<open>facts that put an index or a count into its range\<close>
named_theorems run_simps \<open>evaluation of the result combinators\<close>

type_synonym u8 = "8 word"
type_synonym u32 = "32 word"

section \<open>Results\<close>

text \<open>
  \<open>Fatal n\<close> is the \<open>FATAL(n, ...)\<close> macro of common.h (print a message and \<open>exit(n)\<close>),
  \<open>Exit n\<close> a bare \<open>exit(n)\<close>, \<open>Assert_Failed\<close> a failed \<open>ASSERT\<close>. The others are the
  undefined behaviours of C that the code can run into: an access outside an array or
  through a pointer that is no element, a division of integers by zero, an overflow of a signed
  counter, and a conversion of
  a floating-point number that the integer type cannot hold.
\<close>

datatype err =
    Fatal int
  | Exit int
  | Assert_Failed
  | Out_Of_Bounds
  | Div_By_Zero
  | Bad_Conversion
  | Bad_Pointer
  | Signed_Overflow

type_synonym 'a res = "err + 'a"
type_synonym 'a run = "(err + 'a) option"

text \<open>\<open>res_bind\<close> and \<open>run_bind\<close> sequence two statements; \<open>None\<close> is "never returns".\<close>

fun res_bind :: "'a res \<Rightarrow> ('a \<Rightarrow> 'b res) \<Rightarrow> 'b res" where
  "res_bind (Inl e) f = Inl e"
| "res_bind (Inr x) f = f x"

fun run_bind :: "'a run \<Rightarrow> ('a \<Rightarrow> 'b run) \<Rightarrow> 'b run" where
  "run_bind None f = None"
| "run_bind (Some (Inl e)) f = Some (Inl e)"
| "run_bind (Some (Inr x)) f = f x"

abbreviation (input) ret :: "'a \<Rightarrow> 'a run" where
  "ret x \<equiv> Some (Inr x)"

abbreviation (input) fail :: "err \<Rightarrow> 'a run" where
  "fail e \<equiv> Some (Inl e)"

declare res_bind.simps [run_simps] run_bind.simps [run_simps]

lemma res_bind_eq_Inr [simp]:
  "res_bind m f = Inr y \<longleftrightarrow> (\<exists>x. m = Inr x \<and> f x = Inr y)"
  by (cases m) auto

lemma res_bind_eq_Inl: "res_bind m f = Inl e \<longleftrightarrow> m = Inl e \<or> (\<exists>x. m = Inr x \<and> f x = Inl e)"
  by (cases m) auto

lemma res_bind_InrE: "res_bind m f = Inr y \<Longrightarrow> (\<And>x. m = Inr x \<Longrightarrow> f x = Inr y \<Longrightarrow> P) \<Longrightarrow> P"
  by (cases m) auto

lemma run_bind_eq_ret [simp]:
  "run_bind m f = Some (Inr y) \<longleftrightarrow> (\<exists>x. m = Some (Inr x) \<and> f x = Some (Inr y))"
  by (cases m; cases "the m") auto

lemma res_bind_cong [fundef_cong]:
  "m = m' \<Longrightarrow> (\<And>x. m' = Inr x \<Longrightarrow> f x = g x) \<Longrightarrow> res_bind m f = res_bind m' g"
  by (cases m') auto

lemma run_bind_cong [fundef_cong]:
  "m = m' \<Longrightarrow> (\<And>x. m' = Some (Inr x) \<Longrightarrow> f x = g x) \<Longrightarrow> run_bind m f = run_bind m' g"
  by (cases m'; cases "the m'") auto

lemma run_bind_as_bind:
  "run_bind m f = Option.bind m (\<lambda>r. case r of Inl e \<Rightarrow> Some (Inl e) | Inr x \<Rightarrow> f x)"
  by (cases m; cases "the m") auto

section \<open>Arrays\<close>

text \<open>
  A C array of fixed size is a list of that length. A read or a write outside it is
  undefined in C: here it is the error \<open>Out_Of_Bounds\<close>.
\<close>

definition arr_get :: "'a list \<Rightarrow> nat \<Rightarrow> 'a res" where
  "arr_get xs i = (if i < length xs then Inr (xs ! i) else Inl Out_Of_Bounds)"

definition arr_set :: "'a list \<Rightarrow> nat \<Rightarrow> 'a \<Rightarrow> 'a list res" where
  "arr_set xs i v = (if i < length xs then Inr (xs[i := v]) else Inl Out_Of_Bounds)"

lemma arr_get_in [simp]: "i < length xs \<Longrightarrow> arr_get xs i = Inr (xs ! i)"
  by (simp add: arr_get_def)

lemma arr_set_in [simp]: "i < length xs \<Longrightarrow> arr_set xs i v = Inr (xs[i := v])"
  by (simp add: arr_set_def)

lemma arr_get_InrD: "arr_get xs i = Inr x \<Longrightarrow> i < length xs \<and> x = xs ! i"
  by (auto simp: arr_get_def split: if_splits)

lemma arr_set_InrD: "arr_set xs i v = Inr ys \<Longrightarrow> i < length xs \<and> ys = xs[i := v]"
  by (auto simp: arr_set_def split: if_splits)

text \<open>
  A global table \<open>static T tab[cap]; unsigned n;\<close> that is only appended to is the list of
  its first \<open>n\<close> entries. Static storage starts at zero, so a read at or past \<open>n\<close> but
  inside the array gives the zero entry.
\<close>

definition tab_get :: "'a \<Rightarrow> nat \<Rightarrow> 'a list \<Rightarrow> nat \<Rightarrow> 'a res" where
  "tab_get zero_entry cap xs i =
     (if cap \<le> i then Inl Out_Of_Bounds
      else if i < length xs then Inr (xs ! i) else Inr zero_entry)"

lemma tab_get_in [simp]: "i < length xs \<Longrightarrow> length xs \<le> cap \<Longrightarrow> tab_get z cap xs i = Inr (xs ! i)"
  by (simp add: tab_get_def)

text \<open>Inside the array a read is total: \<open>row\<close> is its value.\<close>

definition row :: "'a \<Rightarrow> 'a list \<Rightarrow> nat \<Rightarrow> 'a" where
  "row z xs i = (if i < length xs then xs ! i else z)"

lemma tab_get_row: "i < cap \<Longrightarrow> tab_get z cap xs i = Inr (row z xs i)"
  by (simp add: tab_get_def row_def)

section \<open>Counting loops\<close>

text \<open>\<open>for (i = lo; i < n; i++)\<close> with a body that updates a state or leaves with an error.\<close>

function for_upto :: "(nat \<Rightarrow> 's \<Rightarrow> 's res) \<Rightarrow> nat \<Rightarrow> nat \<Rightarrow> 's \<Rightarrow> 's res" where
  "for_upto f i n s = (if i < n then res_bind (f i s) (for_upto f (Suc i) n) else Inr s)"
  by pat_completeness auto
termination
  by (relation "measure (\<lambda>(f, i, n, s). n - i)") auto

declare for_upto.simps [simp del]

text \<open>Total correctness: an invariant the body keeps, and an initial state that satisfies it.\<close>

lemma for_upto_rule:
  assumes "P i s" and "i \<le> n"
    and "\<And>j s. i \<le> j \<Longrightarrow> j < n \<Longrightarrow> P j s \<Longrightarrow> \<exists>s'. f j s = Inr s' \<and> P (Suc j) s'"
  shows "\<exists>s'. for_upto f i n s = Inr s' \<and> P n s'"
  using assms
proof (induction "n - i" arbitrary: i s)
  case 0
  then show ?case by (simp add: for_upto.simps)
next
  case (Suc k)
  then have lt: "i < n" by simp
  from Suc.prems(3) [OF order_refl lt Suc.prems(1)]
  obtain s1 where s1: "f i s = Inr s1" "P (Suc i) s1" by blast
  have "\<exists>s'. for_upto f (Suc i) n s1 = Inr s' \<and> P n s'"
    using Suc.hyps(2) s1(2) lt Suc.prems(3) by (intro Suc.hyps(1)) auto
  with s1(1) lt show ?case by (simp add: for_upto.simps [of f i])
qed

lemma all_from_Suc:
  "i < n \<Longrightarrow> (\<forall>j. i \<le> j \<longrightarrow> j < n \<longrightarrow> P j) \<longleftrightarrow> P i \<and> (\<forall>j. Suc i \<le> j \<longrightarrow> j < n \<longrightarrow> P j)"
  by (metis Suc_leD Suc_leI le_neq_implies_less order_refl)

text \<open>A body that fails with \<open>e\<close> exactly at the iterations that are not \<open>ok\<close>.\<close>

lemma for_upto_either:
  assumes "P i s" and "i \<le> n"
    and "\<And>j s. i \<le> j \<Longrightarrow> j < n \<Longrightarrow> P j s \<Longrightarrow>
           (if ok j then \<exists>s'. f j s = Inr s' \<and> P (Suc j) s' else f j s = Inl e)"
  shows "if \<forall>j. i \<le> j \<longrightarrow> j < n \<longrightarrow> ok j
         then \<exists>s'. for_upto f i n s = Inr s' \<and> P n s' else for_upto f i n s = Inl e"
  using assms
proof (induction "n - i" arbitrary: i s)
  case 0
  then show ?case by (simp add: for_upto.simps)
next
  case (Suc k)
  then have lt: "i < n" by simp
  from Suc.prems(3) [OF order_refl lt Suc.prems(1)]
  have here: "if ok i then \<exists>s'. f i s = Inr s' \<and> P (Suc i) s' else f i s = Inl e" .
  show ?case
  proof (cases "ok i")
    case True
    with here obtain s1 where s1: "f i s = Inr s1" "P (Suc i) s1" by auto
    have "if \<forall>j. Suc i \<le> j \<longrightarrow> j < n \<longrightarrow> ok j
        then \<exists>s'. for_upto f (Suc i) n s1 = Inr s' \<and> P n s' else for_upto f (Suc i) n s1 = Inl e"
      using Suc.hyps(2) s1(2) lt Suc.prems(3) by (intro Suc.hyps(1)) auto
    moreover have "(\<forall>j. i \<le> j \<longrightarrow> j < n \<longrightarrow> ok j) \<longleftrightarrow> (\<forall>j. Suc i \<le> j \<longrightarrow> j < n \<longrightarrow> ok j)"
      using True all_from_Suc [OF lt] by simp
    ultimately show ?thesis using s1(1) lt by (simp add: for_upto.simps [of f i])
  next
    case False
    with here lt show ?thesis by (auto simp: for_upto.simps [of f i])
  qed
qed

text \<open>Partial correctness: what every normal end of the loop satisfies.\<close>

lemma for_upto_partial:
  assumes "for_upto f i n s = Inr s'" and "P i s" and "i \<le> n"
    and "\<And>j s s'. i \<le> j \<Longrightarrow> j < n \<Longrightarrow> P j s \<Longrightarrow> f j s = Inr s' \<Longrightarrow> P (Suc j) s'"
  shows "P n s'"
  using assms
proof (induction "n - i" arbitrary: i s)
  case 0
  then show ?case by (simp add: for_upto.simps)
next
  case (Suc k)
  then have lt: "i < n" by simp
  with Suc.prems(1) obtain s1 where s1: "f i s = Inr s1" "for_upto f (Suc i) n s1 = Inr s'"
    by (auto simp: for_upto.simps [of f i])
  show ?case
    using Suc.hyps(2) s1 lt Suc.prems(2-4) by (intro Suc.hyps(1) [of "Suc i" s1]) auto
qed

section \<open>Counting\<close>

lemma count_list_update:
  assumes "i < length xs"
  shows "count_list (xs[i := v]) t + (if xs ! i = t then 1 else 0)
       = count_list xs t + (if v = t then 1 else 0)"
  using assms
proof (induction xs arbitrary: i)
  case Nil
  then show ?case by simp
next
  case (Cons x xs)
  show ?case
  proof (cases i)
    case 0
    then show ?thesis by simp
  next
    case (Suc j)
    with Cons.prems Cons.IH [of j] show ?thesis by (cases "x = t") simp_all
  qed
qed

lemma count_list_le_length: "count_list xs t \<le> length xs"
  by (induction xs) auto

lemma count_list_snoc: "count_list (xs @ [x]) t = count_list xs t + (if x = t then 1 else 0)"
  by (induction xs) auto

lemma take_Suc_snoc: "i < length xs \<Longrightarrow> take (Suc i) xs = take i xs @ [xs ! i]"
  by (rule take_Suc_conv_app_nth)

lemma all_nth_update:
  "\<forall>j<n. P (xs ! j) \<Longrightarrow> P v \<Longrightarrow> n \<le> length xs \<Longrightarrow> \<forall>j<n. P (xs[i := v] ! j)"
  by (metis nth_list_update_eq nth_list_update_neq less_le_trans)

lemma all_less_4: "(\<forall>i<4. P i) \<longleftrightarrow> P 0 \<and> P 1 \<and> P 2 \<and> P (3 :: nat)"
  by (simp add: numeral_eq_Suc All_less_Suc conj_ac)

lemma all_less_5: "(\<forall>i<5. P i) \<longleftrightarrow> P 0 \<and> P 1 \<and> P 2 \<and> P 3 \<and> P (4 :: nat)"
  by (simp add: numeral_eq_Suc All_less_Suc conj_ac)

section \<open>Words\<close>

lemma uint_u32_of_int: "0 \<le> z \<Longrightarrow> z < 2 ^ 32 \<Longrightarrow> uint (word_of_int z :: u32) = z"
  by (simp add: uint_word_of_int_eq take_bit_int_eq_self)

lemma unat_inc: "unat (k :: u32) < 2 ^ 32 - 1 \<Longrightarrow> unat (k + 1) = unat k + 1"
  by (simp add: unat_word_ariths)

lemma unat_of_nat_u32: "n < 2 ^ 32 \<Longrightarrow> unat (of_nat n :: u32) = n"
  by (simp add: unsigned_of_nat take_bit_nat_eq_self)

lemma unat_dec32: "0 < unat (k :: u32) \<Longrightarrow> unat (k - 1) = unat k - 1"
  by (metis unat_gt_0 unat_minus_one)

lemma unat_dec8: "0 < (a :: u8) \<Longrightarrow> unat (a - 1) = unat a - 1"
  by (metis unat_minus_one word_greater_zero_iff)

end
