(* ===== verification/Binary64.thy ===== *)
theory Binary64
  imports Prelude
begin

text \<open>
  The C type \<open>double\<close> as the code uses it: IEEE 754 binary64 with round-to-nearest,
  ties-to-even, signed zeros, infinities and one NaN (its payload and sign are never
  observed). A finite value is a sign and a magnitude, a non-negative rational. Every
  operation computes the exact rational result and rounds once, as the SSE2 instructions of
  the target do (no extended precision, no fused multiply-add).

  The syntactic type classes give the operations their usual symbols, so the component
  theories read like the C expressions. None of the algebraic laws hold for them.
\<close>

section \<open>Rounding\<close>

text \<open>\<open>blen n\<close> is the number of bits of \<open>n\<close>; \<open>ilog2 x\<close> is the exponent of the leading bit of \<open>x > 0\<close>.\<close>

fun blen :: "int \<Rightarrow> int" where
  "blen n = (if n \<le> 0 then 0 else 1 + blen (n div 2))"

declare blen.simps [simp del]

definition ilog2 :: "rat \<Rightarrow> int" where
  "ilog2 x =
     (case quotient_of x of (a, b) \<Rightarrow>
        let d = blen a - blen b in if 2 powi d \<le> x then d else d - 1)"

definition round_even :: "rat \<Rightarrow> int" where
  "round_even q =
     (let n = \<lfloor>q\<rfloor>; r = q - of_int n
      in if r < 1 / 2 then n else if 1 / 2 < r then n + 1
         else if n mod 2 = 0 then n else n + 1)"

text \<open>The weight of the last of the 53 significand bits, never below \<open>2 ^ -1074\<close>.\<close>

definition ulp_exp :: "rat \<Rightarrow> int" where
  "ulp_exp x = max (ilog2 x - 52) (- 1074)"

definition rnd :: "rat \<Rightarrow> rat" where
  "rnd x =
     (if x = 0 then 0
      else let u = ulp_exp x in of_int (round_even (x / 2 powi u)) * 2 powi u)"

text \<open>The same on numerator and denominator, for evaluation.\<close>

definition tie_even :: "int \<Rightarrow> int \<Rightarrow> int \<Rightarrow> int" where
  "tie_even n r b = (if r < b then n else if b < r then n + 1 else if n mod 2 = 0 then n else n + 1)"

lemma round_even_code [code]:
  "round_even q = (case quotient_of q of (a, b) \<Rightarrow> tie_even (a div b) (2 * (a mod b)) b)"
proof -
  obtain a b where ab: "quotient_of q = (a, b)" by fastforce
  have b0: "0 < b" using ab by (rule quotient_of_denom_pos)
  have q: "q = of_int a / of_int b" using ab by (rule quotient_of_div)
  have fl: "\<lfloor>q\<rfloor> = a div b" by (simp add: q floor_divide_of_int_eq)
  have "(of_int a :: rat) = of_int b * of_int (a div b) + of_int (a mod b)"
    by (metis mult_div_mod_eq of_int_add of_int_mult)
  then have d: "q - of_int (a div b) = of_int (a mod b) / of_int b"
    using b0 by (simp add: q field_simps)
  have lt: "(of_int (a mod b) / of_int b < (1 / 2 :: rat)) = (2 * (a mod b) < b)"
    using b0 by (simp add: field_simps flip: of_int_mult) (metis mult.commute of_int_less_iff of_int_mult of_int_numeral)
  have gt: "((1 / 2 :: rat) < of_int (a mod b) / of_int b) = (b < 2 * (a mod b))"
    using b0 by (simp add: field_simps flip: of_int_mult) (metis mult.commute of_int_less_iff of_int_mult of_int_numeral)
  show ?thesis by (simp only: round_even_def Let_def ab prod.case tie_even_def fl d lt gt)
qed

subsection \<open>The leading exponent\<close>

lemma powi_two_pos [simp]: "(0::rat) < 2 powi e"
  by (simp add: zero_less_power_int)

lemma powi_two_le_iff: "(2::rat) powi a \<le> 2 powi b \<longleftrightarrow> a \<le> b"
  by (metis linorder_not_le numeral_One one_less_numeral_iff power_int_strict_increasing
      power_int_increasing semiring_norm(76) order_less_imp_le)

lemma powi_two_less_iff: "(2::rat) powi a < 2 powi b \<longleftrightarrow> a < b"
  using powi_two_le_iff [of b a] by linarith

lemma powi_two_nat: "0 \<le> e \<Longrightarrow> (2::rat) powi e = of_int (2 ^ nat e)"
  by (simp add: power_int_def)

lemma blen_bounds_int:
  assumes "0 < n"
  shows "1 \<le> blen n \<and> 2 ^ nat (blen n - 1) \<le> n \<and> n < 2 ^ nat (blen n)"
  using assms
proof (induction n rule: blen.induct)
  case (1 n)
  have e: "blen n = 1 + blen (n div 2)" using "1.prems" by (simp add: blen.simps)
  show ?case
  proof (cases "n div 2 = 0")
    case True
    with "1.prems" have "n = 1" by presburger
    then show ?thesis by (simp add: blen.simps)
  next
    case False
    with "1.prems" have "\<not> n \<le> 0" "0 < n div 2" by presburger+
    with "1.IH" have IH: "1 \<le> blen (n div 2)" "2 ^ nat (blen (n div 2) - 1) \<le> n div 2"
      "n div 2 < 2 ^ nat (blen (n div 2))" by auto
    define k where "k = nat (blen (n div 2) - 1)"
    from IH(1) e have "nat (blen (n div 2)) = Suc k" "nat (blen n - 1) = Suc k"
      "nat (blen n) = Suc (Suc k)" "1 \<le> blen n" by (simp_all add: k_def)
    with IH(2,3) show ?thesis unfolding k_def [symmetric] by auto
  qed
qed

lemma blen_bounds:
  assumes "0 < n"
  shows "2 powi (blen n - 1) \<le> (of_int n :: rat) \<and> (of_int n :: rat) < 2 powi blen n"
proof -
  note b = blen_bounds_int [OF assms]
  then have "(2::rat) powi (blen n - 1) = of_int (2 ^ nat (blen n - 1))"
    and "(2::rat) powi blen n = of_int (2 ^ nat (blen n))"
    by (simp_all add: powi_two_nat)
  with b show ?thesis by (metis of_int_le_iff of_int_less_iff)
qed

lemma ilog2_bounds:
  assumes "0 < x"
  shows "2 powi ilog2 x \<le> x \<and> x < 2 powi (ilog2 x + 1)"
proof -
  obtain a b where ab: "quotient_of x = (a, b)" by fastforce
  have b0: "0 < b" using ab by (rule quotient_of_denom_pos)
  have x: "x = of_int a / of_int b" using ab by (rule quotient_of_div)
  have a0: "0 < a" using assms b0 x by (simp add: zero_less_divide_iff)
  define d where "d = blen a - blen b"
  have A: "2 powi (blen a - 1) \<le> (of_int a :: rat)" "(of_int a :: rat) < 2 powi blen a"
    using blen_bounds [OF a0] by auto
  have B: "2 powi (blen b - 1) \<le> (of_int b :: rat)" "(of_int b :: rat) < 2 powi blen b"
    using blen_bounds [OF b0] by auto
  have "x < 2 powi blen a / 2 powi (blen b - 1)"
    unfolding x using A(2) B(1) a0 b0 by (intro frac_less) auto
  also have "\<dots> = 2 powi (d + 1)" unfolding d_def by (simp add: power_int_diff power_int_add)
  finally have up: "x < 2 powi (d + 1)" .
  have "2 powi (d - 1) = 2 powi (blen a - 1) / (2::rat) powi blen b"
    unfolding d_def by (simp add: power_int_diff)
  also have "\<dots> \<le> x"
    unfolding x using A(1) B(2) a0 b0 by (intro frac_le) auto
  finally have lo: "2 powi (d - 1) \<le> x" .
  have "ilog2 x = (if 2 powi d \<le> x then d else d - 1)"
    by (simp add: ilog2_def ab d_def Let_def)
  with up lo show ?thesis by auto
qed

lemma ilog2_less: "0 < x \<Longrightarrow> x < 2 powi e \<Longrightarrow> ilog2 x < e"
  using ilog2_bounds [of x] powi_two_less_iff [of "ilog2 x" e] by linarith

lemma ilog2_ge:
  assumes "2 powi e \<le> x"
  shows "e \<le> ilog2 x"
proof -
  have "0 < x" using assms powi_two_pos [of e] by linarith
  then have "2 powi e < (2::rat) powi (ilog2 x + 1)"
    using assms ilog2_bounds [of x] by linarith
  then show ?thesis by (simp add: powi_two_less_iff)
qed

lemma ilog2_mono: "0 < x \<Longrightarrow> x \<le> y \<Longrightarrow> ilog2 x \<le> ilog2 y"
  by (rule ilog2_ge) (use ilog2_bounds [of x] in linarith)

lemma ulp_exp_mono: "0 < x \<Longrightarrow> x \<le> y \<Longrightarrow> ulp_exp x \<le> ulp_exp y"
  using ilog2_mono [of x y] by (simp add: ulp_exp_def)

subsection \<open>Ties to even\<close>

lemma round_even_bounds: "\<lfloor>q\<rfloor> \<le> round_even q \<and> round_even q \<le> \<lfloor>q\<rfloor> + 1"
  by (simp add: round_even_def Let_def)

lemma round_even_of_int [simp]: "round_even (of_int n) = n"
  by (simp add: round_even_def Let_def)

lemma round_even_mono:
  assumes "q \<le> q'"
  shows "round_even q \<le> round_even q'"
proof (cases "\<lfloor>q\<rfloor> = \<lfloor>q'\<rfloor>")
  case True
  with assms show ?thesis by (auto simp: round_even_def Let_def)
next
  case False
  with assms have "\<lfloor>q\<rfloor> + 1 \<le> \<lfloor>q'\<rfloor>" using floor_mono [of q q'] by linarith
  with round_even_bounds [of q] round_even_bounds [of q'] show ?thesis by linarith
qed

lemma round_even_le: "q \<le> of_int n \<Longrightarrow> round_even q \<le> n"
  using round_even_mono [of q "of_int n"] by simp

lemma round_even_ge: "of_int n \<le> q \<Longrightarrow> n \<le> round_even q"
  using round_even_mono [of "of_int n" q] by simp

subsection \<open>Rounding is monotone, and exact on 53-bit values\<close>

lemma powi_split: "u \<le> w \<Longrightarrow> (of_int n * 2 powi w :: rat) = of_int (n * 2 ^ nat (w - u)) * 2 powi u"
  using powi_two_nat [of "w - u"] by (simp add: power_int_diff field_simps)

lemma rnd_le_grid:
  assumes "0 < x" and "x \<le> of_int n * 2 powi w" and "ulp_exp x \<le> w"
  shows "rnd x \<le> of_int n * 2 powi w"
proof -
  define u where "u = ulp_exp x"
  define m where "m = n * 2 ^ nat (w - u)"
  have g: "of_int n * 2 powi w = of_int m * (2 powi u :: rat)"
    unfolding m_def using assms(3) u_def by (intro powi_split) simp
  have "x / 2 powi u \<le> of_int m" using assms(2) unfolding g by (simp add: field_simps)
  then have "round_even (x / 2 powi u) \<le> m" by (rule round_even_le)
  then have "of_int (round_even (x / 2 powi u)) * 2 powi u \<le> of_int m * (2 powi u :: rat)"
    by (intro mult_right_mono) auto
  with assms(1) g show ?thesis by (simp add: rnd_def Let_def u_def)
qed

lemma rnd_ge_grid:
  assumes "0 < x" and "of_int n * 2 powi w \<le> x" and "ulp_exp x \<le> w"
  shows "of_int n * 2 powi w \<le> rnd x"
proof -
  define u where "u = ulp_exp x"
  define m where "m = n * 2 ^ nat (w - u)"
  have g: "of_int n * 2 powi w = of_int m * (2 powi u :: rat)"
    unfolding m_def using assms(3) u_def by (intro powi_split) simp
  have "of_int m \<le> x / 2 powi u" using assms(2) unfolding g by (simp add: field_simps)
  then have "m \<le> round_even (x / 2 powi u)" by (rule round_even_ge)
  then have "of_int m * (2 powi u :: rat) \<le> of_int (round_even (x / 2 powi u)) * 2 powi u"
    by (intro mult_right_mono) auto
  with assms(1) g show ?thesis by (simp add: rnd_def Let_def u_def)
qed

lemma rnd_0 [simp]: "rnd 0 = 0"
  by (simp add: rnd_def)

lemma rnd_nonneg: "0 \<le> x \<Longrightarrow> 0 \<le> rnd x"
  using rnd_ge_grid [of x 0 "ulp_exp x"] by (cases "x = 0") auto

lemma rnd_exact:
  assumes "0 \<le> n" and "n < 2 ^ 53" and "- 1074 \<le> w"
  shows "rnd (of_int n * 2 powi w) = of_int n * 2 powi w"
proof (cases "n = 0")
  case True
  then show ?thesis by simp
next
  case False
  define x :: rat where "x = of_int n * 2 powi w"
  from False assms(1) have x0: "0 < x" by (simp add: x_def)
  have "x < of_int (2 ^ 53) * 2 powi w"
    unfolding x_def using assms(2) by (intro mult_strict_right_mono) (simp_all only: of_int_less_iff powi_two_pos)
  also have "\<dots> = 2 powi (53 + w)" by (simp add: power_int_add)
  finally have "ilog2 x < 53 + w" using x0 by (intro ilog2_less)
  with assms(3) have "ulp_exp x \<le> w" by (simp add: ulp_exp_def)
  with x0 show ?thesis
    using rnd_le_grid [of x n w] rnd_ge_grid [of x n w] by (simp add: x_def)
qed

lemma rnd_mono:
  assumes "0 \<le> x" and "x \<le> y"
  shows "rnd x \<le> rnd y"
proof (cases "x = 0")
  case True
  with assms show ?thesis by (simp add: rnd_nonneg)
next
  case False
  with assms have pos: "0 < x" "0 < y" by auto
  show ?thesis
  proof (cases "ulp_exp x = ulp_exp y")
    case True
    have "round_even (x / 2 powi ulp_exp y) \<le> round_even (y / 2 powi ulp_exp y)"
      using assms(2) by (intro round_even_mono divide_right_mono) auto
    then have "of_int (round_even (x / 2 powi ulp_exp y)) * 2 powi ulp_exp y
        \<le> of_int (round_even (y / 2 powi ulp_exp y)) * (2 powi ulp_exp y :: rat)"
      by (intro mult_right_mono) auto
    with True pos show ?thesis by (simp add: rnd_def Let_def)
  next
    case False
    with ulp_exp_mono [OF pos(1) assms(2)] have lt: "ulp_exp x < ulp_exp y" by simp
    then have uy: "ulp_exp y = ilog2 y - 52" by (auto simp: ulp_exp_def)
    from lt uy have "ilog2 x < ilog2 y" by (auto simp: ulp_exp_def)
    then have "ilog2 x + 1 \<le> ilog2 y" by simp
    then have "x \<le> 2 powi ilog2 y"
      using ilog2_bounds [OF pos(1)] powi_two_le_iff [of "ilog2 x + 1" "ilog2 y"] by linarith
    then have "rnd x \<le> of_int 1 * 2 powi ilog2 y"
      using lt uy pos by (intro rnd_le_grid) auto
    also have "\<dots> \<le> rnd y"
      using ilog2_bounds [OF pos(2)] uy pos by (intro rnd_ge_grid) auto
    finally show ?thesis .
  qed
qed

lemma rnd_idem:
  assumes "0 \<le> x"
  shows "rnd (rnd x) = rnd x"
proof (cases "x = 0")
  case True
  then show ?thesis by simp
next
  case False
  with assms have x0: "0 < x" by simp
  define u where "u = ulp_exp x"
  define k where "k = round_even (x / 2 powi u)"
  have r: "rnd x = of_int k * 2 powi u" using False by (simp add: rnd_def Let_def u_def k_def)
  have u1: "- 1074 \<le> u" and u2: "ilog2 x + 1 \<le> 53 + u" by (simp_all add: u_def ulp_exp_def)
  have "x < 2 powi (53 + u)"
    using ilog2_bounds [OF x0] powi_two_le_iff [of "ilog2 x + 1" "53 + u"] u2 by linarith
  then have "x / 2 powi u \<le> of_int (2 ^ 53)" by (simp add: power_int_add field_simps)
  then have k1: "k \<le> 2 ^ 53" unfolding k_def by (rule round_even_le)
  have k0: "0 \<le> k" unfolding k_def using x0 by (intro round_even_ge) simp
  show ?thesis
  proof (cases "k = 2 ^ 53")
    case True
    then have "rnd x = of_int 1 * 2 powi (u + 53)" unfolding r by (simp add: power_int_add)
    also have "rnd \<dots> = \<dots>" using u1 by (intro rnd_exact) auto
    finally show ?thesis by (simp add: \<open>rnd x = of_int 1 * 2 powi (u + 53)\<close>)
  next
    case False
    with k0 k1 u1 show ?thesis unfolding r by (intro rnd_exact) auto
  qed
qed

section \<open>Values and operations\<close>

datatype f64 = NaN | Inf (inf_neg: bool) | Fin (fin_neg: bool) (magnitude: rat)

fun fval :: "f64 \<Rightarrow> rat" where
  "fval (Fin s m) = (if s then - m else m)"
| "fval (Inf s) = 0"
| "fval NaN = 0"

definition mk :: "bool \<Rightarrow> rat \<Rightarrow> f64" where
  "mk s m = (let r = rnd m in if r = 0 \<or> ilog2 r < 1024 then Fin s r else Inf s)"

text \<open>\<open>lit q\<close> is the constant the compiler (or \<open>strtod\<close>) makes of the decimal \<open>q\<close>.\<close>

definition lit :: "rat \<Rightarrow> f64" where
  "lit q = mk (q < 0) \<bar>q\<bar>"

fun fneg :: "f64 \<Rightarrow> f64" where
  "fneg NaN = NaN"
| "fneg (Inf s) = Inf (\<not> s)"
| "fneg (Fin s m) = Fin (\<not> s) m"

fun fadd :: "f64 \<Rightarrow> f64 \<Rightarrow> f64" where
  "fadd NaN y = NaN"
| "fadd x NaN = NaN"
| "fadd (Inf s) (Inf t) = (if s = t then Inf s else NaN)"
| "fadd (Inf s) (Fin t b) = Inf s"
| "fadd (Fin s a) (Inf t) = Inf t"
| "fadd (Fin s a) (Fin t b) =
     (if a = 0 \<and> b = 0 then Fin (s \<and> t) 0
      else lit (fval (Fin s a) + fval (Fin t b)))"

fun fmul :: "f64 \<Rightarrow> f64 \<Rightarrow> f64" where
  "fmul NaN y = NaN"
| "fmul x NaN = NaN"
| "fmul (Inf s) (Inf t) = Inf (s \<noteq> t)"
| "fmul (Inf s) (Fin t b) = (if b = 0 then NaN else Inf (s \<noteq> t))"
| "fmul (Fin s a) (Inf t) = (if a = 0 then NaN else Inf (s \<noteq> t))"
| "fmul (Fin s a) (Fin t b) = mk (s \<noteq> t) (a * b)"

fun fdiv :: "f64 \<Rightarrow> f64 \<Rightarrow> f64" where
  "fdiv NaN y = NaN"
| "fdiv x NaN = NaN"
| "fdiv (Inf s) (Inf t) = NaN"
| "fdiv (Inf s) (Fin t b) = Inf (s \<noteq> t)"
| "fdiv (Fin s a) (Inf t) = Fin (s \<noteq> t) 0"
| "fdiv (Fin s a) (Fin t b) =
     (if b = 0 then (if a = 0 then NaN else Inf (s \<noteq> t)) else mk (s \<noteq> t) (a / b))"

fun flt :: "f64 \<Rightarrow> f64 \<Rightarrow> bool" where
  "flt NaN y = False"
| "flt x NaN = False"
| "flt (Inf s) (Inf t) = (s \<and> \<not> t)"
| "flt (Inf s) (Fin t b) = s"
| "flt (Fin s a) (Inf t) = (\<not> t)"
| "flt (Fin s a) (Fin t b) = (fval (Fin s a) < fval (Fin t b))"

text \<open>The C operators \<open>==\<close> and \<open><=\<close>: both false when an operand is NaN.\<close>

fun feq :: "f64 \<Rightarrow> f64 \<Rightarrow> bool" where
  "feq (Inf s) (Inf t) = (s = t)"
| "feq (Fin s a) (Fin t b) = (fval (Fin s a) = fval (Fin t b))"
| "feq x y = False"

definition fle :: "f64 \<Rightarrow> f64 \<Rightarrow> bool" where
  "fle x y = (flt x y \<or> feq x y)"

instantiation f64 :: "{zero, one, plus, minus, uminus, times, inverse, ord}"
begin

definition zero_f64 :: f64 where "zero_f64 = Fin False 0"
definition one_f64 :: f64 where "one_f64 = Fin False 1"
definition plus_f64 :: "f64 \<Rightarrow> f64 \<Rightarrow> f64" where "plus_f64 = fadd"
definition uminus_f64 :: "f64 \<Rightarrow> f64" where "uminus_f64 = fneg"
definition minus_f64 :: "f64 \<Rightarrow> f64 \<Rightarrow> f64" where "minus_f64 x y = fadd x (fneg y)"
definition times_f64 :: "f64 \<Rightarrow> f64 \<Rightarrow> f64" where "times_f64 = fmul"
definition divide_f64 :: "f64 \<Rightarrow> f64 \<Rightarrow> f64" where "divide_f64 = fdiv"
definition inverse_f64 :: "f64 \<Rightarrow> f64" where "inverse_f64 = fdiv (Fin False 1)"
definition less_f64 :: "f64 \<Rightarrow> f64 \<Rightarrow> bool" where "less_f64 = flt"
definition less_eq_f64 :: "f64 \<Rightarrow> f64 \<Rightarrow> bool" where "less_eq_f64 = fle"

instance ..

end

lemmas f64_ops = plus_f64_def minus_f64_def uminus_f64_def times_f64_def divide_f64_def
  zero_f64_def one_f64_def less_f64_def less_eq_f64_def fle_def

text \<open>Conversions: from \<open>unsigned\<close> and \<open>int\<close> (exact), and to \<open>unsigned\<close> (truncation).\<close>

definition of_u32 :: "u32 \<Rightarrow> f64" where
  "of_u32 w = Fin False (of_int (uint w))"

definition of_i32 :: "int \<Rightarrow> f64" where
  "of_i32 i = Fin (i < 0) (of_int \<bar>i\<bar>)"

fun to_u32 :: "f64 \<Rightarrow> u32 res" where
  "to_u32 (Fin s m) =
     (let i = \<lfloor>m\<rfloor> in
      if (s \<longrightarrow> i = 0) \<and> i < 2 ^ 32 then Inr (word_of_int i) else Inl Bad_Conversion)"
| "to_u32 x = Inl Bad_Conversion"

section \<open>Square root\<close>

fun isqrt :: "int \<Rightarrow> int" where
  "isqrt n =
     (if n \<le> 0 then 0
      else let r = 2 * isqrt (n div 4) in if (r + 1)\<^sup>2 \<le> n then r + 1 else r)"

declare isqrt.simps [simp del]

text \<open>
  The root of \<open>m\<close> is scaled by \<open>2 ^ k\<close> so that its integer part \<open>s\<close> has 55 bits. Every
  value strictly between \<open>s\<close> and \<open>s + 1\<close> rounds the same way, so an inexact root is
  represented by \<open>s + 1/2\<close> before the final rounding.
\<close>

definition sqrt_shift :: "rat \<Rightarrow> int" where
  "sqrt_shift m = 54 - ilog2 m div 2"

definition sqrt_scaled :: "rat \<Rightarrow> rat" where
  "sqrt_scaled m =
     (let q = m * 4 powi sqrt_shift m; s = isqrt \<lfloor>q\<rfloor>
      in (if of_int (s * s) = q then of_int s else of_int s + 1 / 2))"

fun fsqrt :: "f64 \<Rightarrow> f64" where
  "fsqrt NaN = NaN"
| "fsqrt (Inf s) = (if s then NaN else Inf False)"
| "fsqrt (Fin s m) =
     (if m = 0 then Fin s 0 else if s then NaN
      else mk False (sqrt_scaled m / 2 powi sqrt_shift m))"

section \<open>Laws of the operations\<close>

named_theorems f64_special \<open>operations on zeros, infinities and NaN\<close>

lemma mk_0 [simp]: "mk s 0 = Fin s 0"
  by (simp add: mk_def)

lemma lit_0 [simp]: "lit 0 = Fin False 0"
  by (simp add: lit_def)

lemma f64_less_irrefl [simp]: "\<not> x < (x :: f64)"
  by (cases x) (auto simp: f64_ops)

lemma f64_less_trans: "x < y \<Longrightarrow> y < z \<Longrightarrow> x < (z :: f64)"
  by (cases x; cases y; cases z) (auto simp: f64_ops split: if_splits)

lemma f64_less_asym: "x < y \<Longrightarrow> \<not> y < (x :: f64)"
  using f64_less_trans f64_less_irrefl by blast

lemma f64_nan_arith [f64_special, simp]:
  "NaN + x = NaN" "x + NaN = NaN" "NaN - x = NaN" "x - NaN = NaN"
  "NaN * x = NaN" "x * NaN = NaN" "NaN / x = NaN" "x / NaN = NaN"
  by (cases x; simp add: f64_ops)+

lemma f64_nan_order [f64_special, simp]:
  "\<not> NaN < x" "\<not> x < NaN" "\<not> NaN \<le> x" "\<not> x \<le> NaN"
  by (cases x; simp add: f64_ops)+

text \<open>Multiplying by zero gives a zero or NaN, never a value above or below zero.\<close>

lemma f64_mult_zero: "x * 0 = NaN \<or> (\<exists>s. x * 0 = Fin s (0::rat))"
  by (cases x) (auto simp: f64_ops)

lemma f64_not_one_less_zero: "\<not> 1 < Fin s 0"
  by (cases s) (simp_all add: f64_ops)

lemma f64_le_iff_less_eq: "x \<le> y \<longleftrightarrow> x < y \<or> feq x (y :: f64)"
  by (simp add: f64_ops)

lemma f64_le_not_less: "x \<le> y \<Longrightarrow> \<not> y < (x :: f64)"
  by (cases x; cases y) (auto simp: f64_ops split: if_splits)

lemma f64_not_less_le: "x \<noteq> NaN \<Longrightarrow> y \<noteq> NaN \<Longrightarrow> \<not> y < x \<Longrightarrow> x \<le> (y :: f64)"
  by (cases x; cases y) (auto simp: f64_ops split: if_splits)

lemma f64_less_le: "x < y \<Longrightarrow> x \<le> (y :: f64)"
  by (simp add: f64_le_iff_less_eq)

lemma f64_le_refl: "x \<noteq> NaN \<Longrightarrow> x \<le> (x :: f64)"
  by (rule f64_not_less_le) simp_all

lemma f64_le_trans: "x \<le> y \<Longrightarrow> y \<le> z \<Longrightarrow> x \<le> (z :: f64)"
  by (cases x; cases y; cases z) (auto simp: f64_ops split: if_splits)

lemma f64_le_nan: "x \<le> y \<Longrightarrow> x \<noteq> NaN" "x \<le> y \<Longrightarrow> y \<noteq> (NaN :: f64)"
  by (cases x; cases y; simp add: f64_ops)+

lemma f64_le_less_trans: "x \<le> y \<Longrightarrow> y < z \<Longrightarrow> x < (z :: f64)"
  by (cases x; cases y; cases z) (auto simp: f64_ops split: if_splits)

lemma f64_less_le_trans: "x < y \<Longrightarrow> y \<le> z \<Longrightarrow> x < (z :: f64)"
  by (cases x; cases y; cases z) (auto simp: f64_ops split: if_splits)

subsection \<open>Small values do not overflow\<close>

lemma rnd_le_int:
  assumes "0 \<le> m" and "m \<le> of_int n * 2 powi w" and "0 \<le> n" and "n < 2 ^ 53" and "- 1074 \<le> w"
  shows "rnd m \<le> of_int n * 2 powi w"
  using rnd_mono [OF assms(1,2)] rnd_exact [OF assms(3,4,5)] by simp

lemma rnd_ge_int:
  assumes "of_int n * 2 powi w \<le> m" and "0 \<le> n" and "n < 2 ^ 53" and "- 1074 \<le> w"
  shows "of_int n * 2 powi w \<le> rnd m"
proof -
  have "(0::rat) \<le> of_int n * 2 powi w" using assms(2) by simp
  from rnd_mono [OF this assms(1)] rnd_exact [OF assms(2,3,4)] show ?thesis by simp
qed

lemma mk_small:
  assumes "0 \<le> m" and "m \<le> 2 ^ 52"
  shows "mk s m = Fin s (rnd m)"
proof -
  have "rnd m \<le> of_int (2 ^ 52) * 2 powi 0"
    using assms by (intro rnd_le_int) auto
  then have "rnd m < 2 powi 1024"
    using powi_two_less_iff [of 52 1024] by (simp add: power_int_def)
  then have "rnd m = 0 \<or> ilog2 (rnd m) < 1024"
    using rnd_nonneg [OF assms(1)] ilog2_less [of "rnd m" 1024] by force
  then show ?thesis by (auto simp: mk_def Let_def)
qed

lemma mk_exact:
  assumes "0 \<le> n" and "n < 2 ^ 53" and "- 1074 \<le> w" and "w \<le> 0"
  shows "mk s (of_int n * 2 powi w) = Fin s (of_int n * 2 powi w)"
proof -
  have r: "rnd (of_int n * 2 powi w) = of_int n * 2 powi w"
    using assms by (intro rnd_exact)
  have "(of_int n :: rat) * 2 powi w \<le> of_int (2 ^ 53) * 2 powi 0"
    using assms powi_two_le_iff [of w 0]
    by (intro mult_mono) simp_all
  also have "\<dots> < 2 powi 1024" using powi_two_less_iff [of 53 1024] by (simp add: power_int_def)
  finally have "(of_int n :: rat) * 2 powi w < 2 powi 1024" .
  moreover have "(0::rat) \<le> of_int n * 2 powi w" using assms(1) by simp
  ultimately have "(of_int n :: rat) * 2 powi w = 0 \<or> ilog2 (of_int n * 2 powi w) < 1024"
    using ilog2_less [of "of_int n * 2 powi w" 1024] by force
  then show ?thesis unfolding mk_def r Let_def by simp
qed

lemma mk_int: "0 \<le> n \<Longrightarrow> n < 2 ^ 53 \<Longrightarrow> mk s (of_int n) = Fin s (of_int n)"
  using mk_exact [of n 0 s] by simp

text \<open>\<open>small k x\<close>: a finite value without sign, at most \<open>2 ^ k\<close>.\<close>

fun small :: "nat \<Rightarrow> f64 \<Rightarrow> bool" where
  "small k (Fin s m) = (\<not> s \<and> 0 \<le> m \<and> m \<le> 2 ^ k)"
| "small k x = False"

lemma small_mk:
  assumes "0 \<le> q" and "q \<le> 2 ^ k" and "k \<le> 52"
  shows "small k (mk False q)"
proof -
  have "(2::rat) ^ k \<le> 2 ^ 52" by (rule power_increasing [OF assms(3)]) simp
  moreover have k: "(2::int) ^ k < 2 ^ 53" by (rule power_strict_increasing) (use assms(3) in simp_all)
  ultimately have "mk False q = Fin False (rnd q)" using assms(1,2) by (intro mk_small) auto
  moreover have "rnd q \<le> of_int (2 ^ k) * 2 powi 0" using assms k by (intro rnd_le_int) auto
  ultimately show ?thesis using rnd_nonneg [OF assms(1)] by simp
qed

lemma small_lit: "0 \<le> q \<Longrightarrow> q \<le> 2 ^ k \<Longrightarrow> k \<le> 52 \<Longrightarrow> small k (lit q)"
  by (simp add: lit_def small_mk)

lemma small_mult:
  assumes "small j x" and "small k y" and "j + k \<le> 52"
  shows "small (j + k) (x * y)"
proof -
  obtain a b where ab: "x = Fin False a" "y = Fin False b" "0 \<le> a" "a \<le> 2 ^ j" "0 \<le> b" "b \<le> 2 ^ k"
    using assms(1,2) by (cases x; cases y) auto
  then have "a * b \<le> 2 ^ (j + k)" by (simp add: power_add mult_mono)
  with ab assms(3) show ?thesis by (simp add: times_f64_def small_mk)
qed

lemma small_fin: "small k x \<Longrightarrow> \<exists>m. x = Fin False m"
  by (cases x) auto

subsection \<open>Values that are not negative\<close>

text \<open>\<open>nnan x\<close>: \<open>x\<close> is NaN or has no sign. Sums, products and quotients keep this.\<close>

fun nnan :: "f64 \<Rightarrow> bool" where
  "nnan NaN = True"
| "nnan (Inf s) = (\<not> s)"
| "nnan (Fin s m) = (\<not> s \<and> 0 \<le> m)"

lemma nnan_mk: "0 \<le> m \<Longrightarrow> nnan (mk False m)"
  by (auto simp: mk_def Let_def rnd_nonneg)

lemma nnan_lit: "0 \<le> q \<Longrightarrow> nnan (lit q)"
  by (simp add: lit_def nnan_mk)

lemma unsigned_rat_nonneg [simp]: "0 \<le> (unsigned (w :: u32) :: rat)"
  by (metis of_nat_unat of_nat_0_le_iff)

lemma nnan_of_u32 [simp]: "nnan (of_u32 w)"
  by (simp add: of_u32_def)

lemma nnan_zero [simp]: "nnan 0" and nnan_one [simp]: "nnan 1"
  by (simp_all add: f64_ops)

lemma nnan_add: "nnan x \<Longrightarrow> nnan y \<Longrightarrow> nnan (x + y)"
  by (cases x; cases y) (auto simp: f64_ops intro: nnan_lit)

lemma nnan_mult: "nnan x \<Longrightarrow> nnan y \<Longrightarrow> nnan (x * y)"
  by (cases x; cases y) (auto simp: f64_ops intro: nnan_mk)

lemma nnan_divide: "nnan x \<Longrightarrow> nnan y \<Longrightarrow> nnan (x / y)"
  by (cases x; cases y) (auto simp: f64_ops intro: nnan_mk)

lemmas nnan_intros = nnan_add nnan_mult nnan_divide nnan_lit nnan_of_u32 nnan_zero nnan_one

lemma nnan_not_less_zero: "nnan x \<Longrightarrow> \<not> x < 0"
  by (cases x) (auto simp: f64_ops)

subsection \<open>The square root\<close>

lemma isqrt_correct:
  assumes "0 \<le> n"
  shows "0 \<le> isqrt n \<and> (isqrt n)\<^sup>2 \<le> n \<and> n < (isqrt n + 1)\<^sup>2"
  using assms
proof (induction n rule: isqrt.induct)
  case (1 n)
  show ?case
  proof (cases "n = 0")
    case True
    then show ?thesis by (simp add: isqrt.simps)
  next
    case False
    with "1.prems" have pos: "\<not> n \<le> 0" "0 \<le> n div 4" by auto
    define t where "t = isqrt (n div 4)"
    have IH: "0 \<le> t" "t\<^sup>2 \<le> n div 4" "n div 4 < (t + 1)\<^sup>2"
      using "1.IH" pos unfolding t_def by auto
    have eq: "isqrt n = (if (2 * t + 1)\<^sup>2 \<le> n then 2 * t + 1 else 2 * t)"
      using pos by (simp add: isqrt.simps [of n] t_def Let_def)
    have lo: "(2 * t)\<^sup>2 \<le> n" using IH(2) by (simp add: power2_eq_square)
    have hi: "n < (2 * t + 2)\<^sup>2" using IH(3) by (simp add: power2_eq_square algebra_simps)
    show ?thesis
    proof (cases "(2 * t + 1)\<^sup>2 \<le> n")
      case True
      with eq IH(1) hi show ?thesis by (simp add: add.commute)
    next
      case False
      with eq IH(1) lo show ?thesis by simp
    qed
  qed
qed

lemma four_powi: "(4::rat) powi k = (2 powi k)\<^sup>2"
  by (simp add: power2_eq_square flip: power_int_mult_distrib)

lemma sqrt_scaled_cases:
  assumes "0 \<le> m"
  obtains s :: int where "0 \<le> s" "of_int (s\<^sup>2) \<le> m * 4 powi sqrt_shift m"
    "m * 4 powi sqrt_shift m < of_int ((s + 1)\<^sup>2)"
    "sqrt_scaled m = (if of_int (s\<^sup>2) = m * 4 powi sqrt_shift m then of_int s else of_int s + 1 / 2)"
proof -
  define q where "q = m * 4 powi sqrt_shift m"
  have q0: "0 \<le> \<lfloor>q\<rfloor>" using assms by (simp add: q_def)
  note i = isqrt_correct [OF q0]
  then have "of_int ((isqrt \<lfloor>q\<rfloor>)\<^sup>2) \<le> q" by linarith
  moreover from i have "q < of_int ((isqrt \<lfloor>q\<rfloor> + 1)\<^sup>2)" by linarith
  moreover have "sqrt_scaled m =
      (if of_int ((isqrt \<lfloor>q\<rfloor>)\<^sup>2) = q then of_int (isqrt \<lfloor>q\<rfloor>) else of_int (isqrt \<lfloor>q\<rfloor>) + 1 / 2)"
    by (simp add: sqrt_scaled_def q_def Let_def power2_eq_square)
  ultimately show ?thesis using that i unfolding q_def by blast
qed

lemma sqrt_scaled_le:
  assumes "0 \<le> m" and "m \<le> c\<^sup>2" and "0 \<le> c" and j: "of_int j = c * 2 powi sqrt_shift m"
  shows "sqrt_scaled m / 2 powi sqrt_shift m \<le> c"
proof -
  define K where "K = (2::rat) powi sqrt_shift m"
  obtain s :: int where s: "0 \<le> s" "of_int (s\<^sup>2) \<le> m * K\<^sup>2"
    "sqrt_scaled m = (if of_int (s\<^sup>2) = m * K\<^sup>2 then of_int s else of_int s + 1 / 2)"
    using sqrt_scaled_cases [OF assms(1)] unfolding K_def four_powi by metis
  have K0: "0 < K" by (simp add: K_def)
  have j0: "0 \<le> j" using j assms(3) K0 K_def
    by (metis of_int_0_le_iff mult_nonneg_nonneg less_imp_le)
  have "m * K\<^sup>2 \<le> (of_int j)\<^sup>2"
    using assms(2) unfolding j K_def [symmetric] by (simp add: power_mult_distrib mult_right_mono)
  then have q: "m * K\<^sup>2 \<le> of_int (j\<^sup>2)" by simp
  have "sqrt_scaled m \<le> of_int j"
  proof (cases "of_int (s\<^sup>2) = m * K\<^sup>2")
    case True
    with q have "s\<^sup>2 \<le> j\<^sup>2" by (metis of_int_le_iff)
    then have "s \<le> j" using j0 by (rule power2_le_imp_le)
    with True s(3) show ?thesis by simp
  next
    case False
    with q s(2) have "(of_int (s\<^sup>2) :: rat) < of_int (j\<^sup>2)" by linarith
    then have "s\<^sup>2 < j\<^sup>2" by (simp only: of_int_less_iff)
    then have "s < j" using j0 by (rule power_less_imp_less_base)
    then have "(of_int s :: rat) + 1 \<le> of_int j" by linarith
    with False s(3) show ?thesis by simp
  qed
  then have "sqrt_scaled m \<le> c * K" by (simp add: j K_def)
  then show ?thesis unfolding K_def [symmetric] using K0 by (simp add: divide_le_eq)
qed

lemma sqrt_scaled_ge:
  assumes "0 \<le> m" and "c\<^sup>2 \<le> m" and "0 \<le> c" and j: "of_int j = c * 2 powi sqrt_shift m"
  shows "c \<le> sqrt_scaled m / 2 powi sqrt_shift m"
proof -
  define K where "K = (2::rat) powi sqrt_shift m"
  obtain s :: int where s: "0 \<le> s" "m * K\<^sup>2 < of_int ((s + 1)\<^sup>2)"
    "sqrt_scaled m = (if of_int (s\<^sup>2) = m * K\<^sup>2 then of_int s else of_int s + 1 / 2)"
    using sqrt_scaled_cases [OF assms(1)] unfolding K_def four_powi by metis
  have K0: "0 < K" by (simp add: K_def)
  have "of_int (j\<^sup>2) \<le> m * K\<^sup>2"
    using assms(2) j unfolding K_def [symmetric]
    by (simp add: power_mult_distrib mult_right_mono)
  with s(2) have "(of_int (j\<^sup>2) :: rat) < of_int ((s + 1)\<^sup>2)" by linarith
  then have "j\<^sup>2 < (s + 1)\<^sup>2" by (simp only: of_int_less_iff)
  then have "j < s + 1" using s(1) by (intro power_less_imp_less_base [of j 2 "s + 1"]) auto
  then have "(of_int j :: rat) \<le> of_int s" by simp
  then have "of_int j \<le> sqrt_scaled m" using s(3) by auto
  then have "c * K \<le> sqrt_scaled m" by (simp add: j K_def)
  then show ?thesis unfolding K_def [symmetric] using K0 by (simp add: le_divide_eq)
qed

subsection \<open>Representable values\<close>

text \<open>Every result of an operation on representable values is representable again.\<close>

fun wf64 :: "f64 \<Rightarrow> bool" where
  "wf64 (Fin s m) = (0 \<le> m \<and> rnd m = m \<and> (m = 0 \<or> ilog2 m < 1024))"
| "wf64 x = True"

lemma wf64_mk: "0 \<le> m \<Longrightarrow> wf64 (mk s m)"
  by (auto simp: mk_def Let_def rnd_nonneg rnd_idem)

lemma wf64_lit: "wf64 (lit q)"
  by (simp add: lit_def wf64_mk)

lemma wf64_of_u32: "wf64 (of_u32 w)"
proof -
  have "uint w < 2 ^ 53" using uint_lt2p [of w] by simp
  then have "mk False (of_int (uint w)) = of_u32 w" unfolding of_u32_def by (intro mk_int) auto
  then show ?thesis by (metis wf64_mk of_int_0_le_iff uint_nonnegative)
qed

lemma wf64_zero: "wf64 0" and wf64_one: "wf64 1"
  using mk_int [of 0 False] mk_int [of 1 False] wf64_mk [of 0 False] wf64_mk [of 1 False]
  by (simp_all add: f64_ops)

lemma wf64_uminus: "wf64 x \<Longrightarrow> wf64 (- x)"
  by (cases x) (auto simp: f64_ops)

lemma wf64_add: "wf64 x \<Longrightarrow> wf64 y \<Longrightarrow> wf64 (x + y)"
  by (cases x; cases y) (auto simp: f64_ops wf64_lit)

lemma wf64_diff: "wf64 x \<Longrightarrow> wf64 y \<Longrightarrow> wf64 (x - y)"
  using wf64_add [OF _ wf64_uminus] by (simp add: f64_ops)

lemma wf64_mult: "wf64 x \<Longrightarrow> wf64 y \<Longrightarrow> wf64 (x * y)"
  by (cases x; cases y) (auto simp: f64_ops wf64_mk)

lemma wf64_divide: "wf64 x \<Longrightarrow> wf64 y \<Longrightarrow> wf64 (x / y)"
  by (cases x; cases y) (auto simp: f64_ops wf64_mk)

lemmas wf64_intros = wf64_add wf64_diff wf64_mult wf64_divide wf64_lit wf64_of_u32 wf64_zero wf64_one

lemma wf64_mk_self: "wf64 (Fin s m) \<Longrightarrow> mk t m = Fin t m"
  by (auto simp: mk_def Let_def)

lemma f64_mult_one: "wf64 x \<Longrightarrow> x * 1 = x"
  by (cases x) (auto simp: f64_ops wf64_mk_self)

lemma f64_add_zero: "wf64 x \<Longrightarrow> nnan x \<Longrightarrow> x + Fin s 0 = x"
  by (cases x) (auto simp: f64_ops lit_def wf64_mk_self)

lemma f64_diff_zero: "wf64 x \<Longrightarrow> nnan x \<Longrightarrow> x - 0 = x"
  using f64_add_zero [of x True] by (simp add: f64_ops)

text \<open>A quotient of a smaller by a larger value is at most 1.\<close>

lemma f64_divide_le_one:
  assumes "nnan x" and "nnan y" and "x < y"
  shows "\<not> 1 < x / (y :: f64)"
proof (cases "x = Inf False \<or> y = Inf False")
  case True
  with assms show ?thesis by (cases x; cases y) (auto simp: f64_ops)
next
  case False
  with assms obtain a b where ab: "x = Fin False a" "y = Fin False b" "0 \<le> a" "a < b"
    by (cases x; cases y) (auto simp: f64_ops)
  then have "a / b \<le> of_int 1 * 2 powi 0" and p: "0 \<le> a / b" by (simp_all add: field_simps)
  then have r: "rnd (a / b) \<le> 1" using rnd_le_int [of "a / b" 1 0] by simp
  have "a / b \<le> 1" using ab by simp
  also have "(1::rat) \<le> 2 ^ 52" by simp
  finally have "a / b \<le> 2 ^ 52" .
  with p have "mk False (a / b) = Fin False (rnd (a / b))" by (rule mk_small)
  then have "x / y = Fin False (rnd (a / b))" using ab by (simp add: f64_ops)
  with r show ?thesis by (simp add: f64_ops)
qed

end
