(* ===== verification/Stdio.thy ===== *)
theory Stdio
  imports Binary64
begin

text \<open>
  The part of the C library that reads and writes the text files: \<open>fgets\<close> and \<open>fseek\<close> on a
  file that is a string with a position, \<open>sscanf\<close> for the conversions \<open>%u\<close>, \<open>%d\<close>, \<open>%lf\<close>
  and \<open>%s\<close>, and \<open>fprintf\<close> with \<open>%u\<close> and \<open>%lf\<close>. White space in the format strings of the program only stands
  before a conversion that skips white space by itself, so a format is its list of conversions.
\<close>

section \<open>Characters\<close>

definition newline :: char where "newline = CHR 0x0A"

definition isspace :: "char \<Rightarrow> bool" where
  "isspace x = (x \<in> {CHR '' '', CHR 0x09, CHR 0x0A, CHR 0x0B, CHR 0x0C, CHR 0x0D})"

definition isdigit :: "char \<Rightarrow> bool" where
  "isdigit x = (48 \<le> (of_char x :: nat) \<and> (of_char x :: nat) \<le> 57)"

definition tolower :: "char \<Rightarrow> char" where
  "tolower x = (if 65 \<le> (of_char x :: nat) \<and> (of_char x :: nat) \<le> 90
                then char_of ((of_char x :: nat) + 32) else x)"

definition isxdigit :: "char \<Rightarrow> bool" where
  "isxdigit x = (isdigit x \<or> tolower x \<in> set ''abcdef'')"

definition digit_value :: "char \<Rightarrow> int" where
  "digit_value x = (if isdigit x then int (of_char x) - 48 else int (of_char (tolower x)) - 87)"

definition value_of :: "int \<Rightarrow> string \<Rightarrow> int" where
  "value_of base ds = foldl (\<lambda>a d. a * base + digit_value d) 0 ds"

text \<open>The bytes of a buffer up to the terminating NUL.\<close>

definition c_string :: "string \<Rightarrow> string" where
  "c_string = takeWhile (\<lambda>x. x \<noteq> CHR 0x00)"

section \<open>Files\<close>

record FILE =
  fdata :: string
  fpos :: nat

text \<open>The characters up to and with the first newline, at most \<open>n\<close> of them.\<close>

fun first_line :: "nat \<Rightarrow> string \<Rightarrow> string" where
  "first_line 0 xs = []"
| "first_line (Suc n) [] = []"
| "first_line (Suc n) (x # xs) = (if x = newline then [x] else x # first_line n xs)"

text \<open>\<open>fgets(buf, n, fp)\<close>: the C string it leaves in the buffer, or \<open>None\<close> at the end of the file.\<close>

definition fgets :: "nat \<Rightarrow> FILE \<Rightarrow> (string \<times> FILE) option" where
  "fgets n f =
     (let l = first_line (n - 1) (drop (fpos f) (fdata f))
      in if l = [] then None else Some (c_string l, f\<lparr>fpos := fpos f + length l\<rparr>))"

text \<open>\<open>fseek(fp, -1 * strlen(buf), SEEK_CUR)\<close>\<close>

definition seek_back :: "string \<Rightarrow> FILE \<Rightarrow> FILE" where
  "seek_back buf f = f\<lparr>fpos := fpos f - length buf\<rparr>"

text \<open>\<open>buf[0] == x\<close>, for a character other than NUL.\<close>

definition starts :: "char \<Rightarrow> string \<Rightarrow> bool" where
  "starts x buf = (case buf of [] \<Rightarrow> False | y # _ \<Rightarrow> y = x)"

section \<open>Conversions\<close>

datatype conv = CU | CD | CF | CS
datatype arg = AU u32 | AD int | AF f64 | AS string

definition scan_sign :: "string \<Rightarrow> bool \<times> string" where
  "scan_sign s =
     (case s of [] \<Rightarrow> (False, [])
      | x # r \<Rightarrow> if x = CHR ''-'' then (True, r) else if x = CHR ''+'' then (False, r) else (False, s))"

text \<open>
  \<open>%u\<close>: an optionally signed decimal number; a minus sign negates in the unsigned type. A number
  that does not fit is undefined behaviour. \<open>None\<close> is a matching failure.
\<close>

definition scan_uint :: "string \<Rightarrow> (u32 \<times> string) option res" where
  "scan_uint s =
     (let (neg, t) = scan_sign s;
          ds = takeWhile isdigit t;
          v = value_of 10 ds
      in if ds = [] then Inr None
         else if 2 ^ 32 \<le> v then Inl Bad_Conversion
         else Inr (Some (if neg then - word_of_int v else word_of_int v, dropWhile isdigit t)))"

definition scan_int :: "string \<Rightarrow> (int \<times> string) option res" where
  "scan_int s =
     (let (neg, t) = scan_sign s;
          ds = takeWhile isdigit t;
          v = (if neg then - value_of 10 ds else value_of 10 ds)
      in if ds = [] then Inr None
         else if v < - (2 ^ 31) \<or> 2 ^ 31 \<le> v then Inl Bad_Conversion
         else Inr (Some (v, dropWhile isdigit t)))"

text \<open>
  The number that \<open>strtod\<close> reads: digits with an optional point, then an optional exponent. A
  marker without exponent digits is a matching failure, as the characters are already consumed.
\<close>

definition scan_exp :: "char \<Rightarrow> string \<Rightarrow> (int \<times> string) option" where
  "scan_exp mark s =
     (case s of [] \<Rightarrow> Some (0, [])
      | x # r \<Rightarrow>
          if tolower x \<noteq> mark then Some (0, s)
          else
            let (neg, t) = scan_sign r; ds = takeWhile isdigit t; v = value_of 10 ds
            in if ds = [] then None
               else Some (if neg then - v else v, dropWhile isdigit t))"

definition scan_mantissa :: "(char \<Rightarrow> bool) \<Rightarrow> string \<Rightarrow> (string \<times> string \<times> string) option" where
  "scan_mantissa dig s =
     (let ip = takeWhile dig s;
          r = dropWhile dig s;
          (fp, r) = (if starts (CHR ''.'') r then (takeWhile dig (tl r), dropWhile dig (tl r)) else ([], r))
      in if ip = [] \<and> fp = [] then None else Some (ip, fp, r))"

text \<open>Base 10 with exponent \<open>e\<close>, base 16 with exponent \<open>p\<close>; the exact value, rounded once.\<close>

definition scan_number :: "bool \<Rightarrow> string \<Rightarrow> (f64 \<times> string) option" where
  "scan_number neg s =
     (if take 1 s = ''0'' \<and> map tolower (take 1 (drop 1 s)) = ''x'' then
        case scan_mantissa isxdigit (drop 2 s) of None \<Rightarrow> None
        | Some (ip, fp, r) \<Rightarrow>
            (case scan_exp (CHR ''p'') r of None \<Rightarrow> None
             | Some (e, r) \<Rightarrow>
                 Some (mk neg (of_int (value_of 16 (ip @ fp)) / 16 ^ length fp * 2 powi e), r))
      else
        case scan_mantissa isdigit s of None \<Rightarrow> None
        | Some (ip, fp, r) \<Rightarrow>
            (case scan_exp (CHR ''e'') r of None \<Rightarrow> None
             | Some (e, r) \<Rightarrow>
                 Some (mk neg (of_int (value_of 10 (ip @ fp)) / 10 ^ length fp * 10 powi e), r)))"

definition scan_inf :: "bool \<Rightarrow> string \<Rightarrow> (f64 \<times> string) option" where
  "scan_inf neg s =
     (if map tolower (take 1 s) = ''i'' then
        (if map tolower (take 5 s) = ''inity'' then Some (Inf neg, drop 5 s) else None)
      else Some (Inf neg, s))"

definition scan_nan :: "string \<Rightarrow> (f64 \<times> string) option" where
  "scan_nan s =
     (if starts (CHR ''('') s then
        let r = dropWhile (\<lambda>x. isdigit x \<or> tolower x \<in> set ''abcdefghijklmnopqrstuvwxyz_'') (tl s)
        in if starts (CHR '')'') r then Some (NaN, tl r) else None
      else Some (NaN, s))"

definition scan_double :: "string \<Rightarrow> (f64 \<times> string) option" where
  "scan_double s =
     (let (neg, t) = scan_sign s in
      if map tolower (take 3 t) = ''inf'' then scan_inf neg (drop 3 t)
      else if map tolower (take 3 t) = ''nan'' then scan_nan (drop 3 t)
      else scan_number neg t)"

definition scan_word :: "string \<Rightarrow> (string \<times> string) option" where
  "scan_word s =
     (let w = takeWhile (\<lambda>x. \<not> isspace x) s
      in if w = [] then None else Some (w, dropWhile (\<lambda>x. \<not> isspace x) s))"

fun scan_conv :: "conv \<Rightarrow> string \<Rightarrow> (arg \<times> string) option res" where
  "scan_conv CU s = res_bind (scan_uint (dropWhile isspace s)) (\<lambda>r. Inr (map_option (apfst AU) r))"
| "scan_conv CD s = res_bind (scan_int (dropWhile isspace s)) (\<lambda>r. Inr (map_option (apfst AD) r))"
| "scan_conv CF s = Inr (map_option (apfst AF) (scan_double (dropWhile isspace s)))"
| "scan_conv CS s = Inr (map_option (apfst AS) (scan_word (dropWhile isspace s)))"

text \<open>\<open>sscanf\<close>: the arguments that are assigned; their number is the value it returns.\<close>

fun sscanf :: "conv list \<Rightarrow> string \<Rightarrow> arg list res" where
  "sscanf [] s = Inr []"
| "sscanf (k # ks) s =
     res_bind (scan_conv k s) (\<lambda>r.
     case r of None \<Rightarrow> Inr []
     | Some (v, t) \<Rightarrow> res_bind (sscanf ks t) (\<lambda>vs. Inr (v # vs)))"

declare sscanf.simps [simp del]

section \<open>Printing numbers\<close>

definition digit_char :: "int \<Rightarrow> char" where
  "digit_char d = char_of (nat (48 + d))"

function show_num :: "int \<Rightarrow> string" where
  "show_num n = (if n < 10 then [digit_char n] else show_num (n div 10) @ [digit_char (n mod 10)])"
  by pat_completeness auto
termination
  by (relation "measure nat") auto

declare show_num.simps [simp del]

definition print_u32 :: "u32 \<Rightarrow> string" where
  "print_u32 w = show_num (uint w)"

text \<open>\<open>%lf\<close> prints the exact value rounded to six decimals.\<close>

fun show_fixed :: "nat \<Rightarrow> int \<Rightarrow> string" where
  "show_fixed 0 n = []"
| "show_fixed (Suc k) n = show_fixed k (n div 10) @ [digit_char (n mod 10)]"

fun print_f64 :: "f64 \<Rightarrow> string" where
  "print_f64 NaN = ''nan''"
| "print_f64 (Inf s) = (if s then ''-inf'' else ''inf'')"
| "print_f64 (Fin s m) =
     (let n = round_even (m * 10 ^ 6)
      in (if s then ''-'' else []) @ show_num (n div 10 ^ 6) @ ''.'' @ show_fixed 6 (n mod 10 ^ 6))"

section \<open>Reading back what was printed\<close>

lemma of_char_digit: "0 \<le> d \<Longrightarrow> d < 10 \<Longrightarrow> (of_char (digit_char d) :: nat) = nat (48 + d)"
  by (simp add: digit_char_def nat_less_iff)

lemma digit_char_ok:
  "0 \<le> d \<Longrightarrow> d < 10 \<Longrightarrow> isdigit (digit_char d)"
  "0 \<le> d \<Longrightarrow> d < 10 \<Longrightarrow> digit_value (digit_char d) = d"
  by (auto simp: isdigit_def digit_value_def of_char_digit nat_le_iff le_nat_iff)

lemma show_num_digits: "0 \<le> n \<Longrightarrow> \<forall>x\<in>set (show_num n). isdigit x"
proof (induction n rule: show_num.induct)
  case (1 n)
  then show ?case by (cases "n < 10") (auto simp: show_num.simps [of n] digit_char_ok)
qed

lemma show_num_Nil [simp]: "show_num n \<noteq> []"
  by (simp add: show_num.simps [of n])

lemma value_of_snoc: "value_of b (ds @ [d]) = value_of b ds * b + digit_value d"
  by (simp add: value_of_def)

lemma value_of_show_num: "0 \<le> n \<Longrightarrow> value_of 10 (show_num n) = n"
proof (induction n rule: show_num.induct)
  case (1 n)
  show ?case
  proof (cases "n < 10")
    case True
    then have "show_num n = [digit_char n]" by (simp add: show_num.simps [of n])
    with True 1(2) show ?thesis by (simp add: value_of_def digit_char_ok)
  next
    case False
    then have "show_num n = show_num (n div 10) @ [digit_char (n mod 10)]"
      by (subst show_num.simps) simp
    moreover have "n div 10 * 10 + n mod 10 = n" by presburger
    ultimately show ?thesis using 1(1) [OF False] 1(2) by (simp add: value_of_snoc digit_char_ok)
  qed
qed

lemma show_num_length: "n < 10 ^ k \<Longrightarrow> 0 < k \<Longrightarrow> length (show_num n) \<le> k"
proof (induction n arbitrary: k rule: show_num.induct)
  case (1 n)
  show ?case
  proof (cases "n < 10")
    case True
    with 1 show ?thesis by (simp add: show_num.simps [of n])
  next
    case False
    with "1.prems" obtain j where k: "k = Suc (Suc j)"
      by (metis One_nat_def not0_implies_Suc not_gr_zero power_one_right)
    then have "n div 10 < 10 ^ Suc j" using "1.prems"(1) by simp
    then have "length (show_num (n div 10)) \<le> Suc j" using "1.IH" [OF False, of "Suc j"] by simp
    moreover have "show_num n = show_num (n div 10) @ [digit_char (n mod 10)]"
      using False by (subst show_num.simps) simp
    ultimately show ?thesis using k by simp
  qed
qed

lemma digit_not:
  assumes "isdigit x"
  shows "x \<noteq> CHR ''-''" "x \<noteq> CHR ''+''" "\<not> isspace x" "x \<noteq> CHR 0x00" "x \<noteq> newline"
    "x \<noteq> CHR ''#''" "x \<noteq> CHR ''*''"
  using assms by (auto simp: isdigit_def isspace_def newline_def)

text \<open>A run of digits followed by something else is read as a whole.\<close>

definition stops :: "(char \<Rightarrow> bool) \<Rightarrow> string \<Rightarrow> bool" where
  "stops P r = (case r of [] \<Rightarrow> True | x # _ \<Rightarrow> \<not> P x)"

lemma run_of:
  assumes "\<forall>x\<in>set ds. P x" and "stops P r"
  shows "takeWhile P (ds @ r) = ds" and "dropWhile P (ds @ r) = r"
proof -
  have "takeWhile P r = [] \<and> dropWhile P r = r"
    using assms(2) by (cases r) (auto simp: stops_def)
  then show "takeWhile P (ds @ r) = ds" "dropWhile P (ds @ r) = r"
    using assms(1) by (simp_all add: takeWhile_append2 dropWhile_append2)
qed

lemma scan_sign_digits:
  assumes "ds \<noteq> []" and "\<forall>x\<in>set ds. isdigit x"
  shows "scan_sign (ds @ r) = (False, ds @ r)"
  using assms digit_not(1,2) by (cases ds) (auto simp: scan_sign_def)

lemma skip_space_digits:
  assumes "ds \<noteq> []" and "\<forall>x\<in>set ds. isdigit x"
  shows "dropWhile isspace (ds @ r) = ds @ r"
  using assms digit_not(3) by (cases ds) auto

lemma scan_print_u32:
  assumes "stops isdigit r"
  shows "scan_uint (print_u32 w @ r) = Inr (Some (w, r))"
proof -
  note ds = show_num_digits [of "uint w", simplified]
  have "uint w < 2 ^ 32" using uint_lt2p [of w] by simp
  then show ?thesis
    unfolding scan_uint_def print_u32_def scan_sign_digits [OF show_num_Nil ds] Let_def
      prod.case run_of [OF ds assms] value_of_show_num [OF uint_nonnegative]
    by simp
qed

lemma sscanf_u32:
  assumes "stops isdigit r"
  shows "sscanf (CU # ks) (print_u32 w @ r) = res_bind (sscanf ks r) (\<lambda>vs. Inr (AU w # vs))"
proof -
  have "dropWhile isspace (print_u32 w @ r) = print_u32 w @ r"
    unfolding print_u32_def by (intro skip_space_digits show_num_digits) simp_all
  with scan_print_u32 [OF assms, of w] show ?thesis by (simp add: sscanf.simps)
qed

lemma sscanf_space: "sscanf (k # ks) (CHR '' '' # r) = sscanf (k # ks) r"
  by (cases k) (simp_all add: sscanf.simps isspace_def)

lemma sscanf_Nil: "sscanf [] r = Inr []"
  by (simp add: sscanf.simps)

lemma stops_simps [simp]:
  "stops isdigit (CHR '' '' # r)" "stops isdigit [newline]" "stops isdigit (newline # r)"
  by (simp_all add: stops_def isdigit_def newline_def)

text \<open>A line that fits into the buffer is read as it is.\<close>

definition text_line :: "string \<Rightarrow> bool" where
  "text_line l = (newline \<notin> set l \<and> CHR 0x00 \<notin> set l \<and> length l < 1023)"

lemma first_line_all:
  "newline \<notin> set l \<Longrightarrow> length l < n \<Longrightarrow> first_line n (l @ newline # r) = l @ [newline]"
proof (induction l arbitrary: n)
  case Nil
  then show ?case by (cases n) auto
next
  case (Cons x l)
  then show ?case by (cases n) auto
qed

lemma first_line_cut:
  "newline \<notin> set l \<Longrightarrow> first_line (length l) (l @ r) = l"
  by (induction l) auto

lemma c_string_id: "CHR 0x00 \<notin> set l \<Longrightarrow> c_string l = l"
  unfolding c_string_def takeWhile_eq_all_conv by blast

lemma fgets_line:
  assumes "text_line l"
  shows "fgets 1024 \<lparr>fdata = pre @ l @ newline # r, fpos = length pre\<rparr>
    = Some (l @ [newline], \<lparr>fdata = pre @ l @ newline # r, fpos = length pre + length l + 1\<rparr>)"
proof -
  have "CHR 0x00 \<notin> set (l @ [newline])" using assms by (simp add: text_line_def newline_def)
  then show ?thesis
    using assms first_line_all [of l 1023 r] c_string_id [of "l @ [newline]"]
    by (simp add: fgets_def text_line_def Let_def)
qed

lemma fgets_end: "length (fdata f) \<le> fpos f \<Longrightarrow> fgets n f = None"
  by (cases "n - 1") (simp_all add: fgets_def)

text \<open>Doubles: what is read back is the value rounded to six decimals.\<close>

fun reread :: "f64 \<Rightarrow> f64" where
  "reread NaN = NaN"
| "reread (Inf s) = Inf s"
| "reread (Fin s m) = mk s (of_int (round_even (m * 10 ^ 6)) / 10 ^ 6)"

lemma show_fixed_digits: "\<forall>x\<in>set (show_fixed k n). isdigit x"
  by (induction k arbitrary: n) (auto simp: digit_char_ok)

lemma show_fixed_length [simp]: "length (show_fixed k n) = k"
  by (induction k arbitrary: n) auto

lemma value_of_append: "value_of b (xs @ ys) = value_of b xs * b ^ length ys + value_of b ys"
proof (induction ys rule: rev_induct)
  case Nil
  then show ?case by (simp add: value_of_def)
next
  case (snoc y ys)
  then show ?case by (simp add: value_of_snoc algebra_simps flip: append_assoc)
qed

lemma value_of_show_fixed: "value_of 10 (show_fixed k n) = n mod 10 ^ k"
proof (induction k arbitrary: n)
  case 0
  then show ?case by (simp add: value_of_def)
next
  case (Suc k)
  have "n mod 10 ^ Suc k = (n div 10) mod 10 ^ k * 10 + n mod 10"
    using zmod_zmult2_eq [of "10 ^ k" n 10] by simp
  then show ?case by (simp add: value_of_snoc Suc digit_char_ok)
qed

lemma digit_lower: "isdigit x \<Longrightarrow> tolower x = x"
  by (auto simp: isdigit_def tolower_def)

lemma digit_no_letter:
  assumes "isdigit x"
  shows "x \<noteq> CHR ''i''" "x \<noteq> CHR ''n''" "x \<noteq> CHR ''x''" "x \<noteq> CHR ''.''" "x \<noteq> CHR ''e''"
  using assms by (auto simp: isdigit_def)

lemma scan_number_fixed:
  assumes "0 \<le> a" and "y \<in> {CHR '' '', newline}"
  shows "scan_number neg (show_num a @ CHR ''.'' # show_fixed k b @ y # r)
    = Some (mk neg (of_int (a * 10 ^ k + b mod 10 ^ k) / 10 ^ k), y # r)"
proof -
  note ds = show_num_digits [OF assms(1)]
  obtain d ds' where d: "show_num a = d # ds'" using show_num_Nil by (cases "show_num a") auto
  have hex: "\<not> (map tolower (take 1 (drop 1 (show_num a @ CHR ''.'' # t))) = ''x'')" for t
  proof (cases ds')
    case Nil
    then show ?thesis using d by (simp add: tolower_def)
  next
    case (Cons e es)
    then have "isdigit e" using ds d by simp
    then show ?thesis using d Cons digit_lower digit_no_letter(3) by simp
  qed
  have st: "stops isdigit (CHR ''.'' # t)" for t by (simp add: stops_def isdigit_def)
  have "stops isdigit (y # r)" using assms(2) by auto
  note six = run_of [OF show_fixed_digits this, of k b]
  have m: "scan_mantissa isdigit (show_num a @ CHR ''.'' # show_fixed k b @ y # r)
      = Some (show_num a, show_fixed k b, y # r)"
    unfolding scan_mantissa_def run_of [OF ds st] by (simp add: starts_def six)
  have e: "scan_exp (CHR ''e'') (y # r) = Some (0, y # r)"
    using assms(2) by (auto simp: scan_exp_def tolower_def newline_def)
  show ?thesis
    unfolding scan_number_def using hex [of "show_fixed k b @ y # r"]
    by (simp add: m e value_of_append value_of_show_num [OF assms(1)] value_of_show_fixed)
qed

text \<open>The digits that are printed of a representable value.\<close>

lemma wf64_round: "wf64 (Fin s m) \<Longrightarrow> 0 \<le> round_even (m * 10 ^ 6)"
  by (rule round_even_ge) simp

lemma wf64_digits:
  assumes "wf64 (Fin s m)"
  shows "\<forall>x\<in>set (show_num (round_even (m * 10 ^ 6) div 10 ^ 6)). isdigit x"
  using wf64_round [OF assms] by (intro show_num_digits) (simp add: pos_imp_zdiv_nonneg_iff)

lemma scan_print_f64:
  assumes "wf64 x" and y: "y \<in> {CHR '' '', newline}"
  shows "scan_double (print_f64 x @ y # r) = Some (reread x, y # r)"
proof (cases x)
  case NaN
  with y show ?thesis by (auto simp: scan_double_def scan_sign_def scan_nan_def starts_def tolower_def newline_def)
next
  case (Inf s)
  with y show ?thesis
    by (cases s) (auto simp: scan_double_def scan_sign_def scan_inf_def starts_def tolower_def newline_def)
next
  case (Fin s m)
  define n where "n = round_even (m * 10 ^ 6)"
  define t where "t = show_num (n div 10 ^ 6) @ CHR ''.'' # show_fixed 6 (n mod 10 ^ 6) @ y # r"
  have n0: "0 \<le> n div 10 ^ 6"
    using wf64_round [OF assms(1) [unfolded Fin]] by (simp add: n_def pos_imp_zdiv_nonneg_iff)
  have p: "print_f64 x @ y # r = (if s then ''-'' else []) @ t"
    unfolding Fin print_f64.simps Let_def n_def t_def by simp
  note ds = wf64_digits [OF assms(1) [unfolded Fin], folded n_def]
  then have sg: "scan_sign t = (False, t)" unfolding t_def by (intro scan_sign_digits) simp_all
  obtain d u where d: "t = d # u" "isdigit d"
    using show_num_Nil [of "n div 10 ^ 6"] ds
    unfolding t_def by (cases "show_num (n div 10 ^ 6)") auto
  have word: "map tolower (take 3 t) \<noteq> ''inf''" "map tolower (take 3 t) \<noteq> ''nan''"
    using d digit_lower digit_no_letter(1,2) by auto
  have "scan_sign ((if s then ''-'' else []) @ t) = (s, t)"
    using sg by (cases s) (simp_all add: scan_sign_def)
  then have "scan_double (print_f64 x @ y # r) = scan_number s t"
    unfolding p scan_double_def Let_def using word by simp
  also have "\<dots> = Some (mk s (of_int (n div 10 ^ 6 * 10 ^ 6 + n mod 10 ^ 6 mod 10 ^ 6) / 10 ^ 6), y # r)"
    unfolding t_def by (rule scan_number_fixed [OF n0 y])
  also have "n div 10 ^ 6 * 10 ^ 6 + n mod 10 ^ 6 mod 10 ^ 6 = n" by simp
  finally show ?thesis by (simp add: Fin n_def)
qed

lemma print_f64_start:
  assumes "wf64 x"
  shows "dropWhile isspace (print_f64 x @ r) = print_f64 x @ r"
proof (cases x)
  case (Fin s m)
  then show ?thesis
    using skip_space_digits [OF show_num_Nil wf64_digits] assms
    by (cases s) (simp_all add: Let_def isspace_def)
qed (simp_all add: isspace_def)

lemma sscanf_f64_before:
  assumes "wf64 x" and "y \<in> {CHR '' '', newline}"
  shows "sscanf (CF # ks) (print_f64 x @ y # r) = res_bind (sscanf ks (y # r)) (\<lambda>vs. Inr (AF (reread x) # vs))"
  using assms by (simp add: sscanf.simps print_f64_start scan_print_f64)

lemmas sscanf_f64 = sscanf_f64_before [where y = "CHR '' ''", simplified]

lemma print_f64_set:
  assumes "wf64 x"
  shows "set (print_f64 x) \<subseteq> {y. isdigit y} \<union> set ''-.naif''"
proof (cases x)
  case (Fin s m)
  then show ?thesis
    using wf64_digits assms show_fixed_digits by (fastforce simp: Let_def)
qed auto

lemma print_f64_clean:
  assumes "wf64 x"
  shows "newline \<notin> set (print_f64 x)" and "CHR 0x00 \<notin> set (print_f64 x)"
  using print_f64_set [OF assms] digit_not(4) [of "CHR 0x00"] digit_not(5) [of newline]
  by (auto simp: newline_def)

lemma print_f64_length:
  assumes "wf64 x"
  shows "length (print_f64 x) \<le> 318"
proof (cases x)
  case (Fin s m)
  have m: "0 \<le> m" "m \<le> 2 ^ 1024"
  proof -
    show "0 \<le> m" using assms Fin by simp
    show "m \<le> 2 ^ 1024"
    proof (cases "m = 0")
      case False
      then have "ilog2 m < 1024" "0 < m" using assms Fin by auto
      then have "m < 2 powi 1024" using ilog2_ge [of 1024 m] by (metis linorder_not_le)
      then show ?thesis by (simp add: power_int_def)
    qed simp
  qed
  define top :: int where "top = 2 ^ 1024"
  define r where "r = round_even (m * 10 ^ 6)"
  have "m \<le> of_int top" using m(2) by (simp add: top_def)
  then have "m * 10 ^ 6 \<le> of_int (top * 10 ^ 6)" by simp
  then have "r \<le> top * 10 ^ 6" unfolding r_def by (rule round_even_le)
  then have "r div 10 ^ 6 \<le> top * 10 ^ 6 div 10 ^ 6" by (rule zdiv_mono1) simp
  also have "\<dots> = top" by simp
  also have "top < 10 ^ 310" by (simp add: top_def)
  finally have "length (show_num (r div 10 ^ 6)) \<le> 310" by (intro show_num_length) simp_all
  then show ?thesis unfolding r_def by (simp add: Fin Let_def)
qed (simp_all)

end
