(* ===== verification/Tables.thy ===== *)
theory Tables
  imports Binary64
begin

text \<open>
  The structures of gastask.h and the global tables that the configuration fills: mem.c,
  cpu.c, cloud.c, network.c, net_commander.c, offloadingratio.c and the \<open>add_task\<close> part of
  task.c. A table is the list of the entries added so far; its length is the counter of the
  code (\<open>n_tasks\<close> and so on), its capacity the size of the static array.
\<close>

section \<open>Structures\<close>

definition MAX_TASKS :: nat where "MAX_TASKS = 200"
definition MAX_NETWORKS :: nat where "MAX_NETWORKS = 200"
definition MAX_CPU_FREQS :: nat where "MAX_CPU_FREQS = 5"
definition MAX_MEMS :: nat where "MAX_MEMS = 5"
definition MAX_NETCOMMANDERS :: nat where "MAX_NETCOMMANDERS = 200"
definition MAX_OFFLOADING_RATIOS :: nat where "MAX_OFFLOADING_RATIOS = 5"
definition MAX_CLOUDS :: nat where "MAX_CLOUDS = 5"
definition MAX_ATTRTYPES :: nat where "MAX_ATTRTYPES = 5"

lemmas caps = MAX_TASKS_def MAX_NETWORKS_def MAX_CPU_FREQS_def MAX_MEMS_def
  MAX_NETCOMMANDERS_def MAX_OFFLOADING_RATIOS_def MAX_CLOUDS_def MAX_ATTRTYPES_def

record task_t =
  t_no :: u32
  t_wcet :: u32
  t_period :: u32
  t_memreq :: u32
  t_mem_active_ratio :: f64
  t_task_size :: u32
  t_input_size :: u32
  t_output_size :: u32
  t_offloading_bool :: u32

record cpufreq_t =
  cf_wcet_scale :: f64
  cf_power_active :: f64
  cf_power_idle :: f64

record mem_t =
  m_typestr :: "string option"
  m_max_capacity :: u32
  m_wcet_scale :: f64
  m_power_active :: f64
  m_power_idle :: f64

record cloud_t =
  cl_typestr :: "string option"
  cl_computation_power :: f64
  cl_power_active :: f64
  cl_power_idle :: f64
  cl_max_capacity :: u32
  cl_offloading_limit :: f64

record network_t =
  nw_uplink :: u32
  nw_downlink :: u32
  nw_no :: u32

record net_commander_t =
  nc_intercept_out :: u32
  nc_intercept_in :: u32
  nc_no :: u32

text \<open>Entries of static storage that were never written: all bits zero.\<close>

definition zero_task :: task_t where
  "zero_task = \<lparr>t_no = 0, t_wcet = 0, t_period = 0, t_memreq = 0, t_mem_active_ratio = 0,
     t_task_size = 0, t_input_size = 0, t_output_size = 0, t_offloading_bool = 0\<rparr>"

definition zero_cpufreq :: cpufreq_t where
  "zero_cpufreq = \<lparr>cf_wcet_scale = 0, cf_power_active = 0, cf_power_idle = 0\<rparr>"

definition zero_mem :: mem_t where
  "zero_mem = \<lparr>m_typestr = None, m_max_capacity = 0, m_wcet_scale = 0, m_power_active = 0,
     m_power_idle = 0\<rparr>"

definition zero_cloud :: cloud_t where
  "zero_cloud = \<lparr>cl_typestr = None, cl_computation_power = 0, cl_power_active = 0,
     cl_power_idle = 0, cl_max_capacity = 0, cl_offloading_limit = 0\<rparr>"

definition zero_network :: network_t where
  "zero_network = \<lparr>nw_uplink = 0, nw_downlink = 0, nw_no = 0\<rparr>"

definition zero_net_commander :: net_commander_t where
  "zero_net_commander = \<lparr>nc_intercept_out = 0, nc_intercept_in = 0, nc_no = 0\<rparr>"

text \<open>The parameters of the genetic algorithm and the tables, with their initial values.\<close>

record conf =
  max_gen :: u32
  n_pops :: u32
  cutoff :: f64
  penalty :: f64
  tasks :: "task_t list"
  mems :: "mem_t list"
  cpufreqs :: "cpufreq_t list"
  offloadingratios :: "f64 list"
  clouds :: "cloud_t list"
  networks :: "network_t list"
  net_commanders :: "net_commander_t list"

definition init_conf :: conf where
  "init_conf = \<lparr>max_gen = 100000, n_pops = 100, cutoff = 0, penalty = 0, tasks = [],
     mems = [], cpufreqs = [], offloadingratios = [], clouds = [], networks = [],
     net_commanders = []\<rparr>"

abbreviation n_tasks :: "conf \<Rightarrow> nat" where "n_tasks c \<equiv> length (tasks c)"
abbreviation n_mems :: "conf \<Rightarrow> nat" where "n_mems c \<equiv> length (mems c)"
abbreviation n_cpufreqs :: "conf \<Rightarrow> nat" where "n_cpufreqs c \<equiv> length (cpufreqs c)"
abbreviation n_offloadingratios :: "conf \<Rightarrow> nat" where
  "n_offloadingratios c \<equiv> length (offloadingratios c)"
abbreviation n_clouds :: "conf \<Rightarrow> nat" where "n_clouds c \<equiv> length (clouds c)"

definition get_task :: "conf \<Rightarrow> nat \<Rightarrow> task_t res" where
  "get_task c = tab_get zero_task MAX_TASKS (tasks c)"

definition get_mem :: "conf \<Rightarrow> nat \<Rightarrow> mem_t res" where
  "get_mem c = tab_get zero_mem MAX_MEMS (mems c)"

definition get_cpufreq :: "conf \<Rightarrow> nat \<Rightarrow> cpufreq_t res" where
  "get_cpufreq c = tab_get zero_cpufreq MAX_CPU_FREQS (cpufreqs c)"

definition get_offloadingratio :: "conf \<Rightarrow> nat \<Rightarrow> f64 res" where
  "get_offloadingratio c = tab_get 0 MAX_OFFLOADING_RATIOS (offloadingratios c)"

definition get_cloud :: "conf \<Rightarrow> nat \<Rightarrow> cloud_t res" where
  "get_cloud c = tab_get zero_cloud MAX_CLOUDS (clouds c)"

definition get_network :: "conf \<Rightarrow> nat \<Rightarrow> network_t res" where
  "get_network c = tab_get zero_network MAX_NETWORKS (networks c)"

definition get_net_commander :: "conf \<Rightarrow> nat \<Rightarrow> net_commander_t res" where
  "get_net_commander c = tab_get zero_net_commander MAX_NETCOMMANDERS (net_commanders c)"

lemmas table_reads = get_task_def get_mem_def get_cpufreq_def get_offloadingratio_def
  get_cloud_def get_network_def get_net_commander_def

section \<open>Adding entries\<close>

definition add_mem :: "string \<Rightarrow> u32 \<Rightarrow> f64 \<Rightarrow> f64 \<Rightarrow> f64 \<Rightarrow> conf \<Rightarrow> conf res" where
  "add_mem typestr cap scale active idle c =
     (if n_mems c \<ge> MAX_MEMS then Inl (Fatal 2)
      else Inr (c\<lparr>mems := mems c @ [\<lparr>m_typestr = Some typestr, m_max_capacity = cap,
             m_wcet_scale = scale, m_power_active = active, m_power_idle = idle\<rparr>]\<rparr>))"

definition add_cpufreq :: "f64 \<Rightarrow> f64 \<Rightarrow> f64 \<Rightarrow> conf \<Rightarrow> conf res" where
  "add_cpufreq scale active idle c =
     (if n_cpufreqs c \<ge> MAX_CPU_FREQS then Inl (Fatal 2)
      else if n_cpufreqs c > 0 \<and> cf_wcet_scale (cpufreqs c ! (n_cpufreqs c - 1)) < scale
      then Inl (Fatal 2)
      else Inr (c\<lparr>cpufreqs := cpufreqs c @ [\<lparr>cf_wcet_scale = scale, cf_power_active = active,
             cf_power_idle = idle\<rparr>]\<rparr>))"

definition add_offloadingratio :: "f64 \<Rightarrow> conf \<Rightarrow> conf res" where
  "add_offloadingratio r c =
     (if n_offloadingratios c \<ge> MAX_OFFLOADING_RATIOS then Inl (Fatal 2)
      else if n_offloadingratios c > 0
              \<and> r < offloadingratios c ! (n_offloadingratios c - 1)
      then Inl (Fatal 2)
      else Inr (c\<lparr>offloadingratios := offloadingratios c @ [r]\<rparr>))"

definition add_cloud :: "string \<Rightarrow> f64 \<Rightarrow> f64 \<Rightarrow> f64 \<Rightarrow> u32 \<Rightarrow> f64 \<Rightarrow> conf \<Rightarrow> conf res" where
  "add_cloud typestr cpower active idle cap limit c =
     (if n_clouds c \<ge> MAX_CLOUDS then Inl (Fatal 2)
      else Inr (c\<lparr>clouds := clouds c @ [\<lparr>cl_typestr = Some typestr,
             cl_computation_power = cpower, cl_power_active = active, cl_power_idle = idle,
             cl_max_capacity = cap, cl_offloading_limit = limit\<rparr>]\<rparr>))"

text \<open>
  The next three write to \<open>tasks + n_tasks\<close> (and so on) without comparing the counter with
  the size of the array: past the end this is an access out of bounds.
\<close>

definition add_task ::
  "u32 \<Rightarrow> u32 \<Rightarrow> u32 \<Rightarrow> f64 \<Rightarrow> u32 \<Rightarrow> u32 \<Rightarrow> u32 \<Rightarrow> u32 \<Rightarrow> conf \<Rightarrow> conf res" where
  "add_task wcet period memreq ratio task_size input_size output_size offloading_bool c =
     (if n_tasks c \<ge> MAX_TASKS then Inl Out_Of_Bounds
      else Inr (c\<lparr>tasks := tasks c @ [\<lparr>t_no = of_nat (n_tasks c + 1), t_wcet = wcet,
             t_period = period, t_memreq = memreq, t_mem_active_ratio = ratio,
             t_task_size = task_size, t_input_size = input_size, t_output_size = output_size,
             t_offloading_bool = offloading_bool\<rparr>]\<rparr>))"

definition add_network :: "u32 \<Rightarrow> u32 \<Rightarrow> conf \<Rightarrow> conf res" where
  "add_network uplink downlink c =
     (if length (networks c) \<ge> MAX_NETWORKS then Inl Out_Of_Bounds
      else Inr (c\<lparr>networks := networks c @ [\<lparr>nw_uplink = uplink, nw_downlink = downlink,
             nw_no = of_nat (length (networks c) + 1)\<rparr>]\<rparr>))"

definition add_net_commander :: "u32 \<Rightarrow> u32 \<Rightarrow> conf \<Rightarrow> conf res" where
  "add_net_commander intercept_out intercept_in c =
     (if length (net_commanders c) \<ge> MAX_NETCOMMANDERS then Inl Out_Of_Bounds
      else Inr (c\<lparr>net_commanders := net_commanders c @ [\<lparr>nc_intercept_out = intercept_out,
             nc_intercept_in = intercept_in, nc_no = of_nat (length (net_commanders c) + 1)\<rparr>]\<rparr>))"

lemmas add_defs = add_mem_def add_cpufreq_def add_offloadingratio_def add_cloud_def
  add_task_def add_network_def add_net_commander_def

section \<open>The invariant of the tables\<close>

definition falling :: "f64 list \<Rightarrow> bool" where
  "falling xs = (\<forall>i. Suc i < length xs \<longrightarrow> \<not> xs ! i < xs ! Suc i)"

definition rising :: "f64 list \<Rightarrow> bool" where
  "rising xs = (\<forall>i. Suc i < length xs \<longrightarrow> \<not> xs ! Suc i < xs ! i)"

definition numbered :: "('e \<Rightarrow> u32) \<Rightarrow> 'e list \<Rightarrow> bool" where
  "numbered no xs = (\<forall>i < length xs. no (xs ! i) = of_nat (i + 1))"

definition conf_ok :: "conf \<Rightarrow> bool" where
  "conf_ok c =
     (n_tasks c \<le> MAX_TASKS \<and> n_mems c \<le> MAX_MEMS \<and> n_cpufreqs c \<le> MAX_CPU_FREQS
      \<and> n_offloadingratios c \<le> MAX_OFFLOADING_RATIOS \<and> n_clouds c \<le> MAX_CLOUDS
      \<and> length (networks c) \<le> MAX_NETWORKS \<and> length (net_commanders c) \<le> MAX_NETCOMMANDERS
      \<and> falling (map cf_wcet_scale (cpufreqs c)) \<and> rising (offloadingratios c)
      \<and> numbered t_no (tasks c) \<and> numbered nw_no (networks c) \<and> numbered nc_no (net_commanders c))"

lemma falling_single [simp]: "falling [x]" and rising_single [simp]: "rising [x]"
  by (simp_all add: falling_def rising_def)

lemma falling_snoc:
  "falling (xs @ [x]) = (falling xs \<and> (xs \<noteq> [] \<longrightarrow> \<not> last xs < x))"
  by (cases xs rule: rev_cases) (auto simp: falling_def nth_append less_Suc_eq)

lemma rising_snoc:
  "rising (xs @ [x]) = (rising xs \<and> (xs \<noteq> [] \<longrightarrow> \<not> x < last xs))"
  by (cases xs rule: rev_cases) (auto simp: rising_def nth_append less_Suc_eq)

lemma numbered_snoc:
  "numbered no (xs @ [x]) = (numbered no xs \<and> no x = of_nat (length xs + 1))"
  by (auto simp: numbered_def nth_append less_Suc_eq)

lemma init_conf_ok: "conf_ok init_conf"
  by (simp add: conf_ok_def init_conf_def falling_def rising_def numbered_def)

lemma conf_ok_add:
  assumes "conf_ok c"
  shows conf_ok_add_mem: "add_mem ty cap sc a i c = Inr c' \<Longrightarrow> conf_ok c'"
    and conf_ok_add_cpufreq: "add_cpufreq sc a i c = Inr c' \<Longrightarrow> conf_ok c'"
    and conf_ok_add_offloadingratio: "add_offloadingratio r c = Inr c' \<Longrightarrow> conf_ok c'"
    and conf_ok_add_cloud: "add_cloud ty cp a i cap li c = Inr c' \<Longrightarrow> conf_ok c'"
    and conf_ok_add_task: "add_task w p m ra ts is os ob c = Inr c' \<Longrightarrow> conf_ok c'"
    and conf_ok_add_network: "add_network u d c = Inr c' \<Longrightarrow> conf_ok c'"
    and conf_ok_add_net_commander: "add_net_commander io ii c = Inr c' \<Longrightarrow> conf_ok c'"
  using assms
  by (auto simp: conf_ok_def add_defs falling_snoc rising_snoc numbered_snoc last_conv_nth
      last_map split: if_splits)

section \<open>The contract of the \<open>add\<close> functions\<close>

text \<open>
  Each \<open>add\<close> function appends one entry to its own table, or refuses: always when the table
  is full, and otherwise when the entry is out of order. The configuration parsers call them
  once per line.
\<close>

fun load_all :: "('x \<Rightarrow> 's \<Rightarrow> 's res) \<Rightarrow> 'x list \<Rightarrow> 's \<Rightarrow> 's res" where
  "load_all add [] c = Inr c"
| "load_all add (x # xs) c = res_bind (add x c) (load_all add xs)"

locale table =
  fixes entries :: "conf \<Rightarrow> 'e list"
    and cap :: nat
    and full :: err
    and accepts :: "'x \<Rightarrow> conf \<Rightarrow> bool"
    and entry :: "'x \<Rightarrow> conf \<Rightarrow> 'e"
    and add :: "'x \<Rightarrow> conf \<Rightarrow> conf res"
  assumes add_accepts: "length (entries c) < cap \<Longrightarrow> accepts x c \<Longrightarrow>
           \<exists>c'. add x c = Inr c' \<and> entries c' = entries c @ [entry x c]"
    and add_full: "cap \<le> length (entries c) \<Longrightarrow> add x c = Inl full"
    and add_rejects: "length (entries c) < cap \<Longrightarrow> \<not> accepts x c \<Longrightarrow> \<exists>e. add x c = Inl e"
    and add_keeps_ok: "conf_ok c \<Longrightarrow> add x c = Inr c' \<Longrightarrow> conf_ok c'"
begin

lemma add_grows:
  assumes "add x c = Inr c'"
  shows "entries c' = entries c @ [entry x c] \<and> length (entries c) < cap \<and> accepts x c"
proof -
  have lt: "length (entries c) < cap" using assms add_full [of c x] by fastforce
  moreover have acc: "accepts x c" using lt assms add_rejects [of c x] by fastforce
  ultimately show ?thesis using add_accepts [of c x] assms by auto
qed

lemma load_all_length:
  "load_all add xs c = Inr c' \<Longrightarrow>
     length (entries c') = length (entries c) + length xs \<and> (xs \<noteq> [] \<longrightarrow> length (entries c') \<le> cap)"
proof (induction xs arbitrary: c)
  case Nil
  then show ?case by simp
next
  case (Cons x xs)
  then obtain c1 where c1: "add x c = Inr c1" "load_all add xs c1 = Inr c'" by auto
  from add_grows [OF c1(1)] Cons.IH [OF c1(2)] c1(2) show ?case by (cases xs) auto
qed

lemma load_all_ok: "conf_ok c \<Longrightarrow> load_all add xs c = Inr c' \<Longrightarrow> conf_ok c'"
  by (induction xs arbitrary: c) (auto dest: add_keeps_ok)

lemma load_all_too_many:
  assumes "cap < length (entries c) + length xs" and "length (entries c) \<le> cap"
  shows "\<exists>e. load_all add xs c = Inl e"
proof (rule ccontr)
  assume "\<not> ?thesis"
  then obtain c' where "load_all add xs c = Inr c'" by (cases "load_all add xs c") auto
  with load_all_length [of xs c c'] assms show False by (cases xs) auto
qed

text \<open>A table that accepts every entry takes what fits, in order.\<close>

lemma load_all_view:
  assumes "\<And>x c. accepts x c" and "\<And>x c. view (entry x c) = v x"
    and "length (entries c) + length xs \<le> cap"
  shows "\<exists>c'. load_all add xs c = Inr c' \<and> map view (entries c') = map view (entries c) @ map v xs"
  using assms(3)
proof (induction xs arbitrary: c)
  case Nil
  then show ?case by simp
next
  case (Cons x xs)
  then have "length (entries c) < cap" by simp
  from add_accepts [OF this assms(1)] obtain c1 where
    c1: "add x c = Inr c1" "entries c1 = entries c @ [entry x c]" by blast
  with Cons.IH [of c1] Cons.prems assms(2) show ?case by auto
qed

text \<open>A table that accepts every entry: the overflow error is the only one.\<close>

lemma load_all_overflow:
  assumes "\<And>x c. accepts x c" and "cap < length (entries c) + length xs" and "length (entries c) \<le> cap"
  shows "load_all add xs c = Inl full"
  using assms(2,3)
proof (induction xs arbitrary: c)
  case Nil
  then show ?case by simp
next
  case (Cons x xs)
  show ?case
  proof (cases "length (entries c) < cap")
    case True
    from add_accepts [OF this assms(1)] obtain c' where
      "add x c = Inr c'" "entries c' = entries c @ [entry x c]" by blast
    with Cons.IH [of c'] Cons.prems True show ?thesis by simp
  next
    case False
    then show ?thesis using add_full [of c x] by simp
  qed
qed

end

interpretation mem_table: table mems MAX_MEMS "Fatal 2" "\<lambda>_ _. True"
  "\<lambda>(ty, cap, sc, a, i) c. \<lparr>m_typestr = Some ty, m_max_capacity = cap, m_wcet_scale = sc,
     m_power_active = a, m_power_idle = i\<rparr>"
  "\<lambda>(ty, cap, sc, a, i). add_mem ty cap sc a i"
  by unfold_locales (auto simp: add_mem_def intro: conf_ok_add_mem)

interpretation cpufreq_table: table cpufreqs MAX_CPU_FREQS "Fatal 2"
  "\<lambda>(sc, a, i) c. cpufreqs c \<noteq> [] \<longrightarrow> \<not> cf_wcet_scale (last (cpufreqs c)) < sc"
  "\<lambda>(sc, a, i) c. \<lparr>cf_wcet_scale = sc, cf_power_active = a, cf_power_idle = i\<rparr>"
  "\<lambda>(sc, a, i). add_cpufreq sc a i"
  by unfold_locales
    (auto simp: add_cpufreq_def last_conv_nth intro: conf_ok_add_cpufreq split: if_splits)

interpretation ratio_table: table offloadingratios MAX_OFFLOADING_RATIOS "Fatal 2"
  "\<lambda>r c. offloadingratios c \<noteq> [] \<longrightarrow> \<not> r < last (offloadingratios c)"
  "\<lambda>r c. r" add_offloadingratio
  by unfold_locales
    (auto simp: add_offloadingratio_def last_conv_nth intro: conf_ok_add_offloadingratio split: if_splits)

interpretation cloud_table: table clouds MAX_CLOUDS "Fatal 2" "\<lambda>_ _. True"
  "\<lambda>(ty, cp, a, i, cap, li) c. \<lparr>cl_typestr = Some ty, cl_computation_power = cp,
     cl_power_active = a, cl_power_idle = i, cl_max_capacity = cap, cl_offloading_limit = li\<rparr>"
  "\<lambda>(ty, cp, a, i, cap, li). add_cloud ty cp a i cap li"
  by unfold_locales (auto simp: add_cloud_def intro: conf_ok_add_cloud)

interpretation task_table: table tasks MAX_TASKS Out_Of_Bounds "\<lambda>_ _. True"
  "\<lambda>(w, p, m, ra, ts, is, os, ob) c. \<lparr>t_no = of_nat (n_tasks c + 1), t_wcet = w, t_period = p,
     t_memreq = m, t_mem_active_ratio = ra, t_task_size = ts, t_input_size = is,
     t_output_size = os, t_offloading_bool = ob\<rparr>"
  "\<lambda>(w, p, m, ra, ts, is, os, ob). add_task w p m ra ts is os ob"
  by unfold_locales (auto simp: add_task_def intro: conf_ok_add_task)

interpretation network_table: table networks MAX_NETWORKS Out_Of_Bounds "\<lambda>_ _. True"
  "\<lambda>(u, d) c. \<lparr>nw_uplink = u, nw_downlink = d, nw_no = of_nat (length (networks c) + 1)\<rparr>"
  "\<lambda>(u, d). add_network u d"
  by unfold_locales (auto simp: add_network_def intro: conf_ok_add_network)

interpretation net_commander_table: table net_commanders MAX_NETCOMMANDERS Out_Of_Bounds
  "\<lambda>_ _. True"
  "\<lambda>(o1, i1) c. \<lparr>nc_intercept_out = o1, nc_intercept_in = i1,
     nc_no = of_nat (length (net_commanders c) + 1)\<rparr>"
  "\<lambda>(o1, i1). add_net_commander o1 i1"
  by unfold_locales (auto simp: add_net_commander_def intro: conf_ok_add_net_commander)

section \<open>Properties\<close>

text \<open>Frequencies that were loaded without an error leave a well-formed configuration: at
  most five, in the order of the rows, with scales that never rise.\<close>

theorem load_cpufreqs_falling:
  assumes "conf_ok c" and "load_all (\<lambda>(sc, a, i). add_cpufreq sc a i) rows c = Inr c'"
  shows "n_cpufreqs c' = n_cpufreqs c + length rows \<and> n_cpufreqs c' \<le> MAX_CPU_FREQS
    \<and> falling (map cf_wcet_scale (cpufreqs c')) \<and> conf_ok c'"
  using cpufreq_table.load_all_length [OF assms(2)] cpufreq_table.load_all_ok [OF assms]
  by (simp add: conf_ok_def)

theorem load_cpufreqs_falling_witness:
  "\<exists>c'. load_all (\<lambda>(sc, a, i). add_cpufreq sc a i) [(1, 0, 0), (0, 0, 0)] init_conf = Inr c'
    \<and> n_cpufreqs c' = n_cpufreqs init_conf + length [(1 :: f64, 0 :: f64, 0 :: f64), (0, 0, 0)]
    \<and> n_cpufreqs c' \<le> MAX_CPU_FREQS
    \<and> falling (map cf_wcet_scale (cpufreqs c')) \<and> conf_ok c'"
proof -
  have "\<not> (1 :: f64) < 0" by (simp add: f64_ops)
  then obtain c' where c: "load_all (\<lambda>(sc, a, i). add_cpufreq sc a i) [(1, 0, 0), (0, 0, 0)] init_conf = Inr c'"
    by (auto simp: add_cpufreq_def init_conf_def caps)
  from load_cpufreqs_falling [OF init_conf_ok c] c show ?thesis by blast
qed

text \<open>Loading more than 200 tasks writes past the end of the task array: the missing check
  of \<open>add_task\<close> is not made up for anywhere else in the table.\<close>

theorem load_tasks_overflow:
  assumes "n_tasks c \<le> MAX_TASKS" and "MAX_TASKS < n_tasks c + length rows"
  shows "load_all (\<lambda>(w, p, m, ra, ts, is, os, ob). add_task w p m ra ts is os ob) rows c = Inl Out_Of_Bounds"
  by (rule task_table.load_all_overflow) (use assms in simp_all)

theorem load_tasks_overflow_witness:
  "load_all (\<lambda>(w, p, m, ra, ts, is, os, ob). add_task w p m ra ts is os ob)
     (replicate 201 (1, 2, 3, 0, 0, 0, 0, 0)) init_conf = Inl Out_Of_Bounds"
  by (rule load_tasks_overflow) (simp_all add: init_conf_def caps)

end
