(* ===== verification/Conf.thy ===== *)
theory Conf
  imports Stdio Tables
begin

text \<open>
  conf.c and conf_gastask.c: the configuration file is read line by line. Each section parser is
  the same loop around its own treatment of a row (\<open>section_loop\<close>); the row functions check the
  values and call the \<open>add\<close> function of their table.
\<close>

section \<open>conf.c\<close>

definition blank :: "char \<Rightarrow> bool" where
  "blank x = (x \<in> {CHR '' '', CHR 0x09, CHR 0x0D, CHR 0x0A})"

text \<open>
  The loops of \<open>trim\<close> over the characters of a C string: \<open>p\<close> is an index, and the terminating NUL
  is at the index \<open>length s\<close>. The last one never leaves the string, as \<open>str\<close> is not blank.
\<close>

function skip_blanks :: "string \<Rightarrow> nat \<Rightarrow> nat" where
  "skip_blanks s p = (if p < length s \<and> blank (s ! p) then skip_blanks s (Suc p) else p)"
  by pat_completeness auto
termination
  by (relation "measure (\<lambda>(s, p). length s - p)") auto

function find_nul :: "string \<Rightarrow> nat \<Rightarrow> nat" where
  "find_nul s p = (if p < length s then find_nul s (Suc p) else p)"
  by pat_completeness auto
termination
  by (relation "measure (\<lambda>(s, p). length s - p)") auto

fun trim_back :: "string \<Rightarrow> nat \<Rightarrow> nat \<Rightarrow> nat" where
  "trim_back s str p = (if blank (s ! p) \<and> str < p then trim_back s str (p - 1) else p)"

declare skip_blanks.simps [simp del] find_nul.simps [simp del] trim_back.simps [simp del]

definition trim :: "string option \<Rightarrow> string option" where
  "trim st =
     (case st of None \<Rightarrow> None
      | Some s \<Rightarrow>
          let str = skip_blanks s 0 in
          if str < length s then
            let p = trim_back s str (find_nul s (str + 1) - 1)
            in Some (take (p + 1 - str) (drop str s))
          else Some (drop str s))"

datatype section_t =
    SECT_UNKNOWN | SECT_GENETIC | SECT_GENTASK | SECT_CPUFREQ | SECT_MEM | SECT_TASK
  | SECT_GENNETWORK | SECT_GENNETCOMMANDER | SECT_CLOUD | SECT_OFFLOADINGRATIO
  | SECT_NETWORK | SECT_NET_COMMANDER

text \<open>\<open>strncmp(s, w, strlen(w)) == 0\<close>\<close>

definition strn_eq :: "string \<Rightarrow> string \<Rightarrow> bool" where
  "strn_eq s w = (take (length w) s = w)"

definition check_section :: "string \<Rightarrow> section_t" where
  "check_section line =
     (if \<not> starts (CHR ''*'') line then SECT_UNKNOWN
      else let s = tl line in
        if strn_eq s ''genetic'' then SECT_GENETIC
        else if strn_eq s ''gentask'' then SECT_GENTASK
        else if strn_eq s ''cpufreq'' then SECT_CPUFREQ
        else if strn_eq s ''mem'' then SECT_MEM
        else if strn_eq s ''task'' then SECT_TASK
        else if strn_eq s ''gennetwork'' then SECT_GENNETWORK
        else if strn_eq s ''gennetcommander'' then SECT_GENNETCOMMANDER
        else if strn_eq s ''cloud'' then SECT_CLOUD
        else if strn_eq s ''offloadingratio'' then SECT_OFFLOADINGRATIO
        else if strn_eq s ''network'' then SECT_NETWORK
        else if strn_eq s ''netcommander'' then SECT_NET_COMMANDER
        else SECT_UNKNOWN)"

lemma first_line_length: "length (first_line n xs) \<le> length xs"
  by (induction n xs rule: first_line.induct) auto

lemma fgets_pos:
  assumes "fgets n f = Some (buf, f')"
  shows "fpos f < fpos f'" and "fpos f' \<le> length (fdata f)" and "fdata f' = fdata f"
    and "length buf \<le> fpos f' - fpos f"
proof -
  define l where "l = first_line (n - 1) (drop (fpos f) (fdata f))"
  have l: "l \<noteq> []" "buf = c_string l" "f' = f\<lparr>fpos := fpos f + length l\<rparr>"
    using assms by (auto simp: fgets_def l_def Let_def split: if_splits)
  have "length l \<le> length (fdata f) - fpos f"
    using first_line_length [of "n - 1" "drop (fpos f) (fdata f)"] by (simp add: l_def)
  moreover have "0 < length l" using l(1) by simp
  ultimately have "fpos f + length l \<le> length (fdata f)" by linarith
  then show "fpos f' \<le> length (fdata f)" using l(3) by simp
  show "fpos f < fpos f'" "fdata f' = fdata f" using l by simp_all
  show "length buf \<le> fpos f' - fpos f" using l by (simp add: c_string_def length_takeWhile_le)
qed

lemma fgets_shrinks:
  assumes "fgets n f = Some (buf, f')"
  shows "length (fdata f') - fpos f' < length (fdata f) - fpos f"
  using fgets_pos(1-3) [OF assms] by auto

text \<open>
  The common loop. A comment is skipped; an empty line or the next section ends it, and is given
  back to the caller; any other line is a row.
\<close>

function section_loop :: "(string \<Rightarrow> 's \<Rightarrow> 's res) \<Rightarrow> FILE \<Rightarrow> 's \<Rightarrow> (FILE \<times> 's) res" where
  "section_loop act f s =
     (case fgets 1024 f of None \<Rightarrow> Inr (f, s)
      | Some (buf, f') \<Rightarrow>
          if starts (CHR ''#'') buf then section_loop act f' s
          else if starts newline buf \<or> starts (CHR ''*'') buf then Inr (seek_back buf f', s)
          else res_bind (act buf s) (\<lambda>s. section_loop act f' s))"
  by pat_completeness auto
termination
  by (relation "measure (\<lambda>(act, f, s). length (fdata f) - fpos f)")
    (auto intro: fgets_shrinks)

declare section_loop.simps [simp del]

definition skip_section :: "FILE \<Rightarrow> 's \<Rightarrow> (FILE \<times> 's) res" where
  "skip_section = section_loop (\<lambda>buf s. Inr s)"

definition mem_row :: "string \<Rightarrow> conf \<Rightarrow> conf res" where
  "mem_row buf c =
     res_bind (sscanf [CS, CU, CF, CF, CF] buf) (\<lambda>vs.
     case vs of
       [AS ty, AU max_capacity, AF wcet_scale, AF power_active, AF power_idle] \<Rightarrow>
         if max_capacity = 0 then Inl (Fatal 2)
         else if wcet_scale < 0 \<or> 1 < wcet_scale then Inl (Fatal 2)
         else if power_active < 0 \<or> power_idle < 0 then Inl (Fatal 2)
         else add_mem ty max_capacity wcet_scale power_active power_idle c
     | _ \<Rightarrow> Inl (Fatal 2))"

definition parse_mem :: "FILE \<Rightarrow> conf \<Rightarrow> (FILE \<times> conf) res" where
  "parse_mem = section_loop mem_row"

section \<open>conf_gastask.c\<close>

definition genetic_row :: "string \<Rightarrow> conf \<Rightarrow> conf res" where
  "genetic_row buf c =
     res_bind (sscanf [CU, CU, CF, CF] buf) (\<lambda>vs.
     case vs of
       [AU gen, AU pops, AF v_cutoff, AF v_penalty] \<Rightarrow>
         Inr (c\<lparr>max_gen := gen, n_pops := pops, cutoff := v_cutoff, penalty := v_penalty\<rparr>)
     | _ \<Rightarrow> Inl (Fatal 2))"

definition parse_genetic :: "FILE \<Rightarrow> conf \<Rightarrow> (FILE \<times> conf) res" where
  "parse_genetic = section_loop genetic_row"

definition cpufreq_row :: "string \<Rightarrow> conf \<Rightarrow> conf res" where
  "cpufreq_row buf c =
     res_bind (sscanf [CF, CF, CF] buf) (\<lambda>vs.
     case vs of
       [AF wcet_scale, AF power_active, AF power_idle] \<Rightarrow>
         if wcet_scale < 0 \<or> 1 < wcet_scale then Inl (Fatal 2)
         else if power_active < 0 \<or> power_idle < 0 then Inl (Fatal 2)
         else add_cpufreq wcet_scale power_active power_idle c
     | _ \<Rightarrow> Inl (Fatal 2))"

definition parse_cpufreq :: "FILE \<Rightarrow> conf \<Rightarrow> (FILE \<times> conf) res" where
  "parse_cpufreq = section_loop cpufreq_row"

definition task_row :: "string \<Rightarrow> conf \<Rightarrow> conf res" where
  "task_row buf c =
     res_bind (sscanf [CU, CU, CU, CF, CU, CU, CU, CU] buf) (\<lambda>vs.
     case vs of
       [AU wcet, AU period, AU memreq, AF mem_active_ratio, AU task_size, AU input_size,
        AU output_size, AU offloading_bool] \<Rightarrow>
         if period \<le> wcet then Inl (Fatal 2)
         else add_task wcet period memreq mem_active_ratio task_size input_size output_size
                offloading_bool c
     | _ \<Rightarrow> Inl (Fatal 2))"

definition parse_task :: "FILE \<Rightarrow> conf \<Rightarrow> (FILE \<times> conf) res" where
  "parse_task = section_loop task_row"

definition network_row :: "string \<Rightarrow> conf \<Rightarrow> conf res" where
  "network_row buf c =
     res_bind (sscanf [CU, CU] buf) (\<lambda>vs.
     case vs of [AU uplink, AU downlink] \<Rightarrow> add_network uplink downlink c
     | _ \<Rightarrow> Inl (Fatal 2))"

definition parse_network :: "FILE \<Rightarrow> conf \<Rightarrow> (FILE \<times> conf) res" where
  "parse_network = section_loop network_row"

definition net_commander_row :: "string \<Rightarrow> conf \<Rightarrow> conf res" where
  "net_commander_row buf c =
     res_bind (sscanf [CU, CU] buf) (\<lambda>vs.
     case vs of [AU intercept_out, AU intercept_in] \<Rightarrow> add_net_commander intercept_out intercept_in c
     | _ \<Rightarrow> Inl (Fatal 2))"

definition parse_net_commander :: "FILE \<Rightarrow> conf \<Rightarrow> (FILE \<times> conf) res" where
  "parse_net_commander = section_loop net_commander_row"

definition cloud_row :: "string \<Rightarrow> conf \<Rightarrow> conf res" where
  "cloud_row buf c =
     res_bind (sscanf [CS, CF, CF, CF, CU, CF] buf) (\<lambda>vs.
     case vs of
       [AS ty, AF computation_power, AF power_active, AF power_idle, AU max_capacity,
        AF offloading_limit] \<Rightarrow>
         if max_capacity = 0 then Inl (Fatal 2)
         else if power_active < 0 \<or> power_idle < 0 then Inl (Fatal 2)
         else if 1 < offloading_limit then Inl (Fatal 2)
         else add_cloud ty computation_power power_active power_idle max_capacity offloading_limit c
     | _ \<Rightarrow> Inl (Fatal 2))"

definition parse_cloud :: "FILE \<Rightarrow> conf \<Rightarrow> (FILE \<times> conf) res" where
  "parse_cloud = section_loop cloud_row"

definition offloadingratio_row :: "string \<Rightarrow> conf \<Rightarrow> conf res" where
  "offloadingratio_row buf c =
     res_bind (sscanf [CF] buf) (\<lambda>vs.
     case vs of
       [AF r] \<Rightarrow> if r < 0 then Inl (Fatal 2)
                 else if 1 < r then Inl (Fatal 2)
                 else add_offloadingratio r c
     | _ \<Rightarrow> Inl (Fatal 2))"

definition parse_offloadingratio :: "FILE \<Rightarrow> conf \<Rightarrow> (FILE \<times> conf) res" where
  "parse_offloadingratio = section_loop offloadingratio_row"

text \<open>The \<open>switch\<close> of \<open>parse_conf\<close>.\<close>

fun parse_section :: "section_t \<Rightarrow> FILE \<Rightarrow> conf \<Rightarrow> (FILE \<times> conf) res" where
  "parse_section SECT_GENETIC f c = parse_genetic f c"
| "parse_section SECT_GENTASK f c = skip_section f c"
| "parse_section SECT_GENNETWORK f c = skip_section f c"
| "parse_section SECT_GENNETCOMMANDER f c = skip_section f c"
| "parse_section SECT_CPUFREQ f c = parse_cpufreq f c"
| "parse_section SECT_MEM f c = parse_mem f c"
| "parse_section SECT_TASK f c = (if n_cpufreqs c = 0 then Inl (Fatal 2) else parse_task f c)"
| "parse_section SECT_OFFLOADINGRATIO f c = parse_offloadingratio f c"
| "parse_section SECT_CLOUD f c = parse_cloud f c"
| "parse_section SECT_NETWORK f c = parse_network f c"
| "parse_section SECT_NET_COMMANDER f c = parse_net_commander f c"
| "parse_section SECT_UNKNOWN f c = Inl (Fatal 2)"

lemma section_loop_pos:
  "section_loop act f s = Inr (f', s') \<Longrightarrow> fpos f \<le> fpos f' \<and> fdata f' = fdata f"
proof (induction act f s rule: section_loop.induct)
  case (1 act f s)
  show ?case
  proof (cases "fgets 1024 f")
    case None
    then show ?thesis using "1.prems" by (simp add: section_loop.simps [of act f])
  next
    case (Some r)
    obtain buf f1 where r: "r = (buf, f1)" by fastforce
    note g = fgets_pos [OF Some [unfolded r]]
    show ?thesis
      using "1.prems" "1.IH"(1) [OF Some r [symmetric]] "1.IH"(2) [OF Some r [symmetric]] Some r g
      by (fastforce simp: section_loop.simps [of act f] seek_back_def split: if_splits)
  qed
qed

lemmas parsers = parse_genetic_def skip_section_def parse_cpufreq_def parse_mem_def parse_task_def
  parse_offloadingratio_def parse_cloud_def parse_network_def parse_net_commander_def

lemma parse_section_pos:
  "parse_section k f c = Inr (f', c') \<Longrightarrow> fpos f \<le> fpos f' \<and> fdata f' = fdata f"
  by (cases k) (auto simp: parsers dest: section_loop_pos split: if_splits)

function parse_conf :: "FILE \<Rightarrow> conf \<Rightarrow> conf res" where
  "parse_conf f c =
     (case fgets 1024 f of None \<Rightarrow> Inr c
      | Some (buf, f') \<Rightarrow>
          if starts newline buf \<or> starts (CHR ''#'') buf then parse_conf f' c
          else res_bind (parse_section (check_section buf) f' c) (\<lambda>fc. parse_conf (fst fc) (snd fc)))"
  by pat_completeness auto
termination
proof (relation "measure (\<lambda>(f, c). length (fdata f) - fpos f)", goal_cases)
  case (2 f c r buf f')
  then show ?case using fgets_shrinks [of 1024 f buf f'] by simp
next
  case (3 f c r buf f' fc)
  then have g: "fgets 1024 f = Some (buf, f')"
    and p: "parse_section (check_section buf) f' c = Inr (fst fc, snd fc)" by simp_all
  show ?case using fgets_shrinks [OF g] parse_section_pos [OF p] by (simp add: case_prod_beta) linarith
qed simp

declare parse_conf.simps [simp del]

text \<open>
  \<open>load_conf\<close>: \<open>disk\<close> gives the content of a file that can be opened. The tables are those of
  a program that has just started.
\<close>

definition load_conf :: "(string \<Rightarrow> string option) \<Rightarrow> string \<Rightarrow> conf res" where
  "load_conf disk fpath =
     (case disk fpath of None \<Rightarrow> Inl (Fatal 1)
      | Some text \<Rightarrow> parse_conf \<lparr>fdata = text, fpos = 0\<rparr> init_conf)"

section \<open>What \<open>trim\<close> computes\<close>

lemma skip_blanks_eq: "skip_blanks s p = p + length (takeWhile blank (drop p s))"
proof (induction s p rule: skip_blanks.induct)
  case (1 s p)
  show ?case
  proof (cases "p < length s")
    case True
    then have "drop p s = s ! p # drop (Suc p) s" by (simp add: Cons_nth_drop_Suc)
    with 1 True show ?thesis by (simp add: skip_blanks.simps [of s p])
  qed (simp add: skip_blanks.simps [of s p])
qed

lemma find_nul_eq: "p \<le> length s \<Longrightarrow> find_nul s p = length s"
  by (induction s p rule: find_nul.induct) (simp add: find_nul.simps)

lemma trim_back_eq:
  assumes "str \<le> p" and "p < length s" and "\<not> blank (s ! str)"
  shows "take (trim_back s str p + 1 - str) (drop str s)
    = rev (dropWhile blank (rev (take (p + 1 - str) (drop str s))))"
  using assms
proof (induction s str p rule: trim_back.induct)
  case (1 s str p)
  have snoc: "take (p + 1 - str) (drop str s) = take (p - str) (drop str s) @ [s ! p]"
    using 1(2,3) take_Suc_snoc [of "p - str" "drop str s"] by (simp add: Suc_diff_le)
  show ?case
  proof (cases "blank (s ! p) \<and> str < p")
    case True
    then have "p - 1 + 1 - str = p - str" "str \<le> p - 1" "p - 1 < length s" using 1(3) by auto
    then show ?thesis using 1 True snoc by (simp add: trim_back.simps [of s str p])
  next
    case False
    with 1(2,4) have "\<not> blank (s ! p)" by (cases "str = p") auto
    then show ?thesis using snoc by (simp add: trim_back.simps [of s str p])
  qed
qed

definition trimmed :: "string \<Rightarrow> string" where
  "trimmed s = rev (dropWhile blank (rev (dropWhile blank s)))"

lemma trim_Some: "trim (Some s) = Some (trimmed s)"
proof -
  define str where "str = length (takeWhile blank s)"
  have skip: "skip_blanks s 0 = str" by (simp add: skip_blanks_eq str_def)
  have d: "drop str s = dropWhile blank s" by (simp add: str_def dropWhile_eq_drop)
  show ?thesis
  proof (cases "str < length s")
    case True
    then have nb: "\<not> blank (s ! str)" unfolding str_def by (rule nth_length_takeWhile)
    have n: "find_nul s (str + 1) - 1 = length s - 1" using True by (simp add: find_nul_eq)
    have t: "take (length s - 1 + 1 - str) (drop str s) = dropWhile blank s"
      using True unfolding d [symmetric] by simp
    have "take (trim_back s str (length s - 1) + 1 - str) (drop str s) = trimmed s"
      unfolding trimmed_def t [symmetric] by (rule trim_back_eq) (use True nb in simp_all)
    then show ?thesis using True skip n by (simp add: trim_def Let_def)
  next
    case False
    then have "drop str s = []" by simp
    then show ?thesis using False skip d by (simp add: trim_def Let_def trimmed_def)
  qed
qed

section \<open>What a section loop keeps\<close>

text \<open>An invariant that every accepted row keeps is kept by the whole section.\<close>

locale section_rows =
  fixes act :: "string \<Rightarrow> 's \<Rightarrow> 's res" and inv :: "'s \<Rightarrow> bool"
  assumes act_keeps: "inv s \<Longrightarrow> act buf s = Inr s' \<Longrightarrow> inv s'"
begin

lemma loop_keeps: "inv s \<Longrightarrow> section_loop act f s = Inr (f', s') \<Longrightarrow> inv s'"
proof (induction "length (fdata f) - fpos f" arbitrary: f s rule: less_induct)
  case less
  show ?case
  proof (cases "fgets 1024 f")
    case None
    then show ?thesis using less.prems by (simp add: section_loop.simps [of act f])
  next
    case (Some r)
    obtain buf f1 where r: "r = (buf, f1)" by fastforce
    note shrink = fgets_shrinks [OF Some [unfolded r]]
    show ?thesis
      using less.prems less.hyps [OF shrink] Some r act_keeps [OF less.prems(1), of buf]
      by (auto simp: section_loop.simps [of act f] split: if_splits)
  qed
qed

end

text \<open>
  The values the parsers let through: execution times below the period, scales and ratios not
  below 0 and not above 1, no negative power, no empty memory, no task before the frequencies. A
  NaN passes every one of these comparisons.
\<close>

definition between_0_1 :: "f64 \<Rightarrow> bool" where
  "between_0_1 x = (\<not> x < 0 \<and> \<not> 1 < x)"

definition conf_valid :: "conf \<Rightarrow> bool" where
  "conf_valid c =
     (conf_ok c
      \<and> list_all (\<lambda>t. t_wcet t < t_period t) (tasks c)
      \<and> list_all (\<lambda>m. m_max_capacity m \<noteq> 0 \<and> between_0_1 (m_wcet_scale m)
                     \<and> \<not> m_power_active m < 0 \<and> \<not> m_power_idle m < 0) (mems c)
      \<and> list_all (\<lambda>f. between_0_1 (cf_wcet_scale f)
                     \<and> \<not> cf_power_active f < 0 \<and> \<not> cf_power_idle f < 0) (cpufreqs c)
      \<and> list_all between_0_1 (offloadingratios c)
      \<and> list_all (\<lambda>cl. cl_max_capacity cl \<noteq> 0 \<and> \<not> 1 < cl_offloading_limit cl
                     \<and> \<not> cl_power_active cl < 0 \<and> \<not> cl_power_idle cl < 0) (clouds c)
      \<and> (tasks c \<noteq> [] \<longrightarrow> cpufreqs c \<noteq> []))"

lemma init_conf_valid: "conf_valid init_conf"
  using init_conf_ok by (simp add: conf_valid_def init_conf_def)

lemmas row_defs = genetic_row_def mem_row_def cpufreq_row_def task_row_def network_row_def
  net_commander_row_def cloud_row_def offloadingratio_row_def

lemmas row_splits = list.split_asm arg.split_asm if_split_asm

interpretation genetic: section_rows genetic_row conf_valid
proof
  fix c buf c' assume v: "conf_valid c" and r: "genetic_row buf c = Inr c'"
  from r obtain gen pops v_cutoff v_penalty where
    "c' = c\<lparr>max_gen := gen, n_pops := pops, cutoff := v_cutoff, penalty := v_penalty\<rparr>"
    by (auto simp: genetic_row_def simp del: res_bind_eq_Inr elim!: res_bind_InrE split: row_splits)
  with v show "conf_valid c'" by (simp add: conf_valid_def conf_ok_def)
qed

interpretation mem: section_rows mem_row conf_valid
proof
  fix c buf c' assume v: "conf_valid c" and r: "mem_row buf c = Inr c'"
  from r obtain ty cap sc a i where add: "add_mem ty cap sc a i c = Inr c'"
    and ok: "cap \<noteq> 0" "between_0_1 sc" "\<not> a < 0" "\<not> i < 0"
    by (auto simp: mem_row_def between_0_1_def simp del: res_bind_eq_Inr elim!: res_bind_InrE split: row_splits)
  have "conf_ok c'" using v conf_ok_add_mem [OF _ add] by (simp add: conf_valid_def)
  with add ok v show "conf_valid c'" by (auto simp: add_mem_def conf_valid_def split: if_splits)
qed

interpretation cpufreq: section_rows cpufreq_row conf_valid
proof
  fix c buf c' assume v: "conf_valid c" and r: "cpufreq_row buf c = Inr c'"
  from r obtain sc a i where add: "add_cpufreq sc a i c = Inr c'"
    and ok: "between_0_1 sc" "\<not> a < 0" "\<not> i < 0"
    by (auto simp: cpufreq_row_def between_0_1_def simp del: res_bind_eq_Inr elim!: res_bind_InrE split: row_splits)
  have "conf_ok c'" using v conf_ok_add_cpufreq [OF _ add] by (simp add: conf_valid_def)
  with add ok v show "conf_valid c'" by (auto simp: add_cpufreq_def conf_valid_def split: if_splits)
qed

interpretation offloadingratio: section_rows offloadingratio_row conf_valid
proof
  fix c buf c' assume v: "conf_valid c" and r: "offloadingratio_row buf c = Inr c'"
  from r obtain x where add: "add_offloadingratio x c = Inr c'" and ok: "between_0_1 x"
    by (auto simp: offloadingratio_row_def between_0_1_def simp del: res_bind_eq_Inr elim!: res_bind_InrE split: row_splits)
  have "conf_ok c'" using v conf_ok_add_offloadingratio [OF _ add] by (simp add: conf_valid_def)
  with add ok v show "conf_valid c'"
    by (auto simp: add_offloadingratio_def conf_valid_def split: if_splits)
qed

interpretation cloud: section_rows cloud_row conf_valid
proof
  fix c buf c' assume v: "conf_valid c" and r: "cloud_row buf c = Inr c'"
  from r obtain ty cp a i cap li where add: "add_cloud ty cp a i cap li c = Inr c'"
    and ok: "cap \<noteq> 0" "\<not> 1 < li" "\<not> a < 0" "\<not> i < 0"
    by (auto simp: cloud_row_def simp del: res_bind_eq_Inr elim!: res_bind_InrE split: row_splits)
  have "conf_ok c'" using v conf_ok_add_cloud [OF _ add] by (simp add: conf_valid_def)
  with add ok v show "conf_valid c'" by (auto simp: add_cloud_def conf_valid_def split: if_splits)
qed

interpretation network: section_rows network_row conf_valid
proof
  fix c buf c' assume v: "conf_valid c" and r: "network_row buf c = Inr c'"
  from r obtain u d where add: "add_network u d c = Inr c'"
    by (auto simp: network_row_def simp del: res_bind_eq_Inr elim!: res_bind_InrE split: row_splits)
  have "conf_ok c'" using v conf_ok_add_network [OF _ add] by (simp add: conf_valid_def)
  with add v show "conf_valid c'" by (auto simp: add_network_def conf_valid_def split: if_splits)
qed

interpretation net_commander: section_rows net_commander_row conf_valid
proof
  fix c buf c' assume v: "conf_valid c" and r: "net_commander_row buf c = Inr c'"
  from r obtain u d where add: "add_net_commander u d c = Inr c'"
    by (auto simp: net_commander_row_def simp del: res_bind_eq_Inr elim!: res_bind_InrE split: row_splits)
  have "conf_ok c'" using v conf_ok_add_net_commander [OF _ add] by (simp add: conf_valid_def)
  with add v show "conf_valid c'"
    by (auto simp: add_net_commander_def conf_valid_def split: if_splits)
qed

interpretation task: section_rows task_row "\<lambda>c. conf_valid c \<and> cpufreqs c \<noteq> []"
proof
  fix c buf c' assume v: "conf_valid c \<and> cpufreqs c \<noteq> []" and r: "task_row buf c = Inr c'"
  from r obtain w p m ra ts i os ob where add: "add_task w p m ra ts i os ob c = Inr c'" and ok: "w < p"
    by (auto simp: task_row_def not_le simp del: res_bind_eq_Inr elim!: res_bind_InrE split: row_splits)
  have "conf_ok c'" using v conf_ok_add_task [OF _ add] by (simp add: conf_valid_def)
  with add ok v show "conf_valid c' \<and> cpufreqs c' \<noteq> []"
    by (auto simp: add_task_def conf_valid_def split: if_splits)
qed

interpretation skipped: section_rows "\<lambda>buf s. Inr s" conf_valid
  by unfold_locales simp

lemma parse_section_valid:
  assumes "parse_section k f c = Inr (f', c')" and v: "conf_valid c"
  shows "conf_valid c'"
  using assms(1) v
  by (cases k) (auto simp: parsers split: if_split_asm
      dest: genetic.loop_keeps [OF v] mem.loop_keeps [OF v] cpufreq.loop_keeps [OF v]
        offloadingratio.loop_keeps [OF v] cloud.loop_keeps [OF v] network.loop_keeps [OF v]
        net_commander.loop_keeps [OF v] skipped.loop_keeps [OF v] task.loop_keeps [OF conjI [OF v]])

lemma parse_conf_valid: "parse_conf f c = Inr c' \<Longrightarrow> conf_valid c \<Longrightarrow> conf_valid c'"
proof (induction "length (fdata f) - fpos f" arbitrary: f c rule: less_induct)
  case less
  show ?case
  proof (cases "fgets 1024 f")
    case None
    then show ?thesis using less.prems by (simp add: parse_conf.simps [of f])
  next
    case (Some r)
    obtain buf f1 where r: "r = (buf, f1)" by fastforce
    note g = Some [unfolded r]
    show ?thesis
    proof (cases "starts newline buf \<or> starts (CHR ''#'') buf")
      case True
      then show ?thesis
        using less.prems g less.hyps [OF fgets_shrinks [OF g]] by (auto simp: parse_conf.simps [of f])
    next
      case False
      with less.prems(1) g obtain f2 c2 where
        p: "parse_section (check_section buf) f1 c = Inr (f2, c2)" "parse_conf f2 c2 = Inr c'"
        by (auto simp: parse_conf.simps [of f])
      have "length (fdata f2) - fpos f2 < length (fdata f) - fpos f"
        using parse_section_pos [OF p(1)] fgets_shrinks [OF g] by (simp add: less_le_trans) linarith
      then show ?thesis
        using less.hyps p(2) parse_section_valid [OF p(1) less.prems(2)] by blast
    qed
  qed
qed

section \<open>Sections that were printed\<close>

definition row_line :: "string \<Rightarrow> bool" where
  "row_line l = (text_line l \<and> l \<noteq> [] \<and> \<not> starts (CHR ''#'') l \<and> \<not> starts (CHR ''*'') l)"

definition text_of :: "string list \<Rightarrow> string" where
  "text_of ls = concat (map (\<lambda>l. l @ [newline]) ls)"

lemma text_of_simps [simp]: "text_of [] = []" "text_of (l # ls) = l @ newline # text_of ls"
  by (simp_all add: text_of_def)

lemma section_loop_lines:
  assumes "\<forall>l\<in>set ls. row_line l"
  shows "section_loop act \<lparr>fdata = pre @ text_of ls @ rest, fpos = length pre\<rparr> s
    = res_bind (load_all (\<lambda>l. act (l @ [newline])) ls s)
        (section_loop act \<lparr>fdata = pre @ text_of ls @ rest, fpos = length pre + length (text_of ls)\<rparr>)"
  using assms
proof (induction ls arbitrary: pre s)
  case Nil
  then show ?case by simp
next
  case (Cons l ls)
  then have l: "text_line l" "l \<noteq> []" "\<not> starts (CHR ''#'') l" "\<not> starts (CHR ''*'') l"
    by (simp_all add: row_line_def)
  then have "\<not> starts newline l" by (cases l) (auto simp: starts_def text_line_def)
  with l have no: "\<not> starts (CHR ''#'') (l @ [newline])" "\<not> starts (CHR ''*'') (l @ [newline])"
    "\<not> starts newline (l @ [newline])"
    by (cases l; simp add: starts_def)+
  show ?case
    using Cons.IH [of "pre @ l @ [newline]"] Cons.prems fgets_line [OF l(1), of pre "text_of ls @ rest"] no
    by (cases "act (l @ [newline]) s") (simp_all add: section_loop.simps [of act _ s] add.assoc)
qed

lemma section_loop_all:
  assumes "\<forall>l\<in>set ls. row_line l"
  shows "section_loop act \<lparr>fdata = text_of ls, fpos = 0\<rparr> s
    = res_bind (load_all (\<lambda>l. act (l @ [newline])) ls s)
        (\<lambda>s. Inr (\<lparr>fdata = text_of ls, fpos = length (text_of ls)\<rparr>, s))"
proof -
  let ?f = "\<lparr>fdata = text_of ls, fpos = length (text_of ls)\<rparr>"
  have "section_loop act ?f = (\<lambda>s. Inr (?f, s))"
    by (rule ext) (simp add: section_loop.simps [of act ?f] fgets_end)
  with section_loop_lines [OF assms, of act "[]" "[]" s] show ?thesis by simp
qed

lemma load_all_map: "load_all f (map g xs) = load_all (\<lambda>x. f (g x)) xs"
  by (rule ext) (induction xs, auto intro: arg_cong2 [of _ _ _ _ res_bind])

text \<open>Two numbers in a row, as in the sections of the network and of the commander.\<close>

definition pair_line :: "u32 \<times> u32 \<Rightarrow> string" where
  "pair_line p = print_u32 (fst p) @ CHR '' '' # print_u32 (snd p)"

lemma print_u32_props:
  "\<forall>x\<in>set (print_u32 w). isdigit x" "print_u32 w \<noteq> []" "length (print_u32 w) \<le> 10"
proof -
  have "uint w < 2 ^ 32" using uint_lt2p [of w] by simp
  then have "uint w < 10 ^ 10" by simp
  then show "length (print_u32 w) \<le> 10" unfolding print_u32_def by (intro show_num_length) simp_all
  show "\<forall>x\<in>set (print_u32 w). isdigit x" unfolding print_u32_def by (rule show_num_digits) simp
qed (simp add: print_u32_def)

lemma print_u32_clean: "newline \<notin> set (print_u32 w)" "CHR 0x00 \<notin> set (print_u32 w)"
  using print_u32_props(1) [of w] digit_not(4,5) by blast+

lemma newline_not: "newline \<noteq> CHR '' ''" "newline \<noteq> CHR 0x00" "newline \<noteq> CHR ''.''" "newline \<noteq> CHR ''-''"
  by (simp_all add: newline_def)

lemma row_line_starting:
  assumes "ds \<noteq> []" and "\<forall>x\<in>set ds. isdigit x" and "text_line (ds @ r)"
  shows "row_line (ds @ r)"
  using assms digit_not(6,7) by (cases ds) (auto simp: row_line_def starts_def)

lemma pair_row_line: "row_line (pair_line p)"
  unfolding pair_line_def
proof (rule row_line_starting)
  show "text_line (print_u32 (fst p) @ CHR '' '' # print_u32 (snd p))"
    using print_u32_props(3) [of "fst p"] print_u32_props(3) [of "snd p"]
    by (simp add: text_line_def print_u32_clean newline_not)
qed (simp_all add: print_u32_props)

lemma sscanf_pair:
  "sscanf [CU, CU] (pair_line p @ [newline]) = Inr [AU (fst p), AU (snd p)]"
  by (simp add: pair_line_def sscanf_u32 sscanf_space sscanf_Nil)

lemma pair_rows:
  "network_row (pair_line p @ [newline]) = add_network (fst p) (snd p)"
  "net_commander_row (pair_line p @ [newline]) = add_net_commander (fst p) (snd p)"
  by (simp_all add: fun_eq_iff network_row_def net_commander_row_def sscanf_pair)

lemma parse_pairs:
  "parse_network \<lparr>fdata = text_of (map pair_line ps), fpos = 0\<rparr> c
    = res_bind (load_all (\<lambda>p. add_network (fst p) (snd p)) ps c)
        (\<lambda>c. Inr (\<lparr>fdata = text_of (map pair_line ps), fpos = length (text_of (map pair_line ps))\<rparr>, c))"
  "parse_net_commander \<lparr>fdata = text_of (map pair_line ps), fpos = 0\<rparr> c
    = res_bind (load_all (\<lambda>p. add_net_commander (fst p) (snd p)) ps c)
        (\<lambda>c. Inr (\<lparr>fdata = text_of (map pair_line ps), fpos = length (text_of (map pair_line ps))\<rparr>, c))"
  using pair_row_line
  by (simp_all add: parse_network_def parse_net_commander_def section_loop_all load_all_map pair_rows)

section \<open>Properties\<close>

text \<open>\<open>trim\<close> takes the blanks off both ends of the string, and gives NULL for NULL.\<close>

theorem trim_both_ends: "trim st = map_option trimmed st"
  by (cases st) (simp_all add: trim_Some trim_def [of None])

text \<open>C14. Whatever the file holds, \<open>load_conf\<close> ends, and a configuration that it accepts is
  well-formed: no table is over its capacity, frequencies and ratios are in order, every execution
  time is below its period, no scale or ratio is below 0 or above 1, no memory is empty, and there
  are frequencies if there are tasks.\<close>

theorem load_conf_valid:
  assumes "load_conf disk fpath = Inr c"
  shows "conf_valid c"
  using assms parse_conf_valid [OF _ init_conf_valid] by (auto simp: load_conf_def split: option.splits)

text \<open>A small configuration file.\<close>

definition small_text :: string where
  "small_text = text_of [''*cpufreq'', ''1 100 1'', [], ''*task'', ''10 30 200 0.5 1 1 1 0'']"

lemma small_text_loads:
  "(case load_conf (\<lambda>_. Some small_text) ''conf'' of Inl _ \<Rightarrow> False | Inr c \<Rightarrow> n_tasks c = 1)"
  by code_simp

theorem load_conf_valid_witness:
  "\<exists>c. load_conf (\<lambda>_. Some small_text) ''conf'' = Inr c \<and> n_tasks c = 1 \<and> conf_valid c"
proof -
  obtain c where c: "load_conf (\<lambda>_. Some small_text) ''conf'' = Inr c" "n_tasks c = 1"
    using small_text_loads by (auto split: sum.splits)
  with load_conf_valid [OF c(1)] show ?thesis by blast
qed

text \<open>A comment that does not fit into the buffer of 1024 bytes is not skipped as a whole: the
  part from its 1024th character on is taken for the next line, and the program stops.\<close>

theorem long_comment_is_fatal:
  assumes "newline \<notin> set l" and "length l = 1022" and "x \<notin> {newline, CHR ''#'', CHR ''*''}"
  shows "parse_conf \<lparr>fdata = CHR ''#'' # l @ x # r, fpos = 0\<rparr> c = Inl (Fatal 2)"
proof -
  let ?d = "CHR ''#'' # l @ x # r"
  have "newline \<notin> set (CHR ''#'' # l)" using assms(1) by (simp add: newline_def)
  from first_line_cut [OF this, of "x # r"] assms(2)
  have "first_line 1023 ?d = CHR ''#'' # l" by simp
  then have one: "fgets 1024 \<lparr>fdata = ?d, fpos = 0\<rparr>
      = Some (c_string (CHR ''#'' # l), \<lparr>fdata = ?d, fpos = 1023\<rparr>)"
    using assms(2) by (simp add: fgets_def Let_def)
  have comment: "starts (CHR ''#'') (c_string (CHR ''#'' # l))" by (simp add: starts_def c_string_def)
  have "drop 1023 ?d = x # r" using assms(2) by simp
  then obtain t where "first_line 1023 (drop 1023 ?d) = x # t"
    using assms(3) by (cases "first_line 1023 (x # r)") (auto simp: numeral_eq_Suc)
  then have two: "fgets 1024 \<lparr>fdata = ?d, fpos = 1023\<rparr>
      = Some (c_string (x # t), \<lparr>fdata = ?d, fpos = 1023 + length (x # t)\<rparr>)"
    by (simp add: fgets_def Let_def)
  have no: "\<not> starts y (c_string (x # t))" if "y \<in> {newline, CHR ''#'', CHR ''*''}" for y
    using that assms(3) by (auto simp: starts_def c_string_def)
  then have "check_section (c_string (x # t)) = SECT_UNKNOWN" by (simp add: check_section_def)
  with no have "parse_conf \<lparr>fdata = ?d, fpos = 1023\<rparr> c = Inl (Fatal 2)"
    by (simp add: parse_conf.simps [of _ c] two)
  with comment show ?thesis by (simp add: parse_conf.simps [of "\<lparr>fdata = ?d, fpos = 0\<rparr>"] one)
qed

theorem long_comment_is_fatal_witness:
  "parse_conf \<lparr>fdata = CHR ''#'' # replicate 1022 (CHR ''-'') @ CHR ''-'' # [newline], fpos = 0\<rparr> init_conf
    = Inl (Fatal 2)"
  by (rule long_comment_is_fatal) (simp_all add: newline_def)

text \<open>The rows of the task section in gastask.conf.tmpl have four columns; the parser wants
  eight, so the template is rejected.\<close>

theorem template_task_rejected: "task_row (''10 30   200 0.1'' @ [newline]) c = Inl (Fatal 2)"
proof -
  have "(case sscanf [CU, CU, CU, CF, CU, CU, CU, CU] (''10 30   200 0.1'' @ [newline]) of
      Inl _ \<Rightarrow> False | Inr vs \<Rightarrow> length vs = 4)" by code_simp
  then obtain a1 a2 a3 a4 where
    "sscanf [CU, CU, CU, CF, CU, CU, CU, CU] (''10 30   200 0.1'' @ [newline]) = Inr [a1, a2, a3, a4]"
    by (auto simp: numeral_eq_Suc length_Suc_conv split: sum.splits)
  then show ?thesis by (simp add: task_row_def split: arg.splits)
qed

end
