(* ===== verification/Task_Util.thy ===== *)
theory Task_Util
  imports Tables
begin

text \<open>
  The per-task models: \<open>get_task_utilpower\<close> and \<open>get_task_memreq\<close> of task.c, and the two
  cost functions of GA.c. Mixed integer and floating-point expressions follow C: an
  \<open>unsigned\<close> operand is converted where it meets a \<open>double\<close>, and what is computed between
  \<open>unsigned\<close> operands (sums, products by 1024, divisions by 1000) is computed in 32 bits.
\<close>

section \<open>Utilization, power and response time\<close>

record utilpower =
  up_util :: f64
  up_power_cpu :: f64
  up_power_mem :: f64
  up_power_net_com :: f64
  up_deadline :: f64

definition wcet_scaled_of :: "task_t \<Rightarrow> cpufreq_t \<Rightarrow> mem_t \<Rightarrow> f64" where
  "wcet_scaled_of task cpufreq mem =
     of_u32 (t_wcet task) * (1 / cf_wcet_scale cpufreq) * (1 / m_wcet_scale mem)"

text \<open>The local-only build: \<open>double real_offloading = 0.0\<close>.\<close>

definition real_offloading :: f64 where "real_offloading = 0"

text \<open>The five results, from the entries the gene selects (lines 36 to 46 of task.c).\<close>

definition utilpower_of ::
  "task_t \<Rightarrow> mem_t \<Rightarrow> cloud_t \<Rightarrow> cpufreq_t \<Rightarrow> network_t \<Rightarrow> net_commander_t \<Rightarrow> utilpower" where
  "utilpower_of task mem cloud cpufreq network net_commander =
     (let wcet_scaled_cpu = 1 / cf_wcet_scale cpufreq;
          wcet_scaled_mem = 1 / m_wcet_scale mem;
          wcet_scaled_cloud = 1 / cl_computation_power cloud;
          net_com_power_unit = lit 75;
          period = of_u32 (t_period task);
          wcet_scaled = wcet_scaled_of task cpufreq mem;
          transtime = of_u32 (t_task_size task + t_input_size task) / of_u32 (nw_uplink network)
                      + of_u32 (t_output_size task) / of_u32 (nw_downlink network);
          netcomtime = of_u32 (nc_intercept_out net_commander + nc_intercept_in net_commander);
          cpu_power_unit = (cf_power_active cpufreq * wcet_scaled_cpu
                            + cf_power_idle cpufreq * wcet_scaled_mem)
                           / (wcet_scaled_cpu + wcet_scaled_mem);
          ratio = t_mem_active_ratio task;
          memreq = of_u32 (t_memreq task)
      in \<lparr>
        up_util = (wcet_scaled * (1 - real_offloading)
                   + wcet_scaled_cpu * netcomtime * real_offloading) / period,
        up_power_cpu = cpu_power_unit * (wcet_scaled / period) * (1 - real_offloading)
                       + cpu_power_unit * (netcomtime / period) * real_offloading,
        up_power_mem =
          (if feq real_offloading 1 then 0
           else memreq * (ratio * m_power_active mem + (1 - ratio) * m_power_idle mem)
                  * wcet_scaled / period
                + memreq * m_power_idle mem * (1 - wcet_scaled / period)),
        up_power_net_com = net_com_power_unit * ((transtime + netcomtime) / period) * real_offloading,
        up_deadline = (wcet_scaled_cloud * of_u32 (t_wcet task) + wcet_scaled_cpu * netcomtime
                       + transtime) / period * real_offloading
      \<rparr>)"

definition get_task_utilpower :: "conf \<Rightarrow> nat \<Rightarrow> u8 \<Rightarrow> u8 \<Rightarrow> u8 \<Rightarrow> u8 \<Rightarrow> utilpower res" where
  "get_task_utilpower c no_task mem_type cloud_type cpufreq_type offloadingratio =
     res_bind (get_task c no_task) (\<lambda>task.
     res_bind (get_mem c (unat mem_type)) (\<lambda>mem.
     res_bind (get_cloud c (unat cloud_type)) (\<lambda>cloud.
     res_bind (get_cpufreq c (unat cpufreq_type)) (\<lambda>cpufreq.
     res_bind (get_network c no_task) (\<lambda>network.
     res_bind (get_net_commander c no_task) (\<lambda>net_commander.
     if of_u32 (t_period task) \<le> wcet_scaled_of task cpufreq mem then Inl (Fatal 3)
     else Inr (utilpower_of task mem cloud cpufreq network net_commander)))))))"

definition get_task_memreq :: "conf \<Rightarrow> nat \<Rightarrow> u32 res" where
  "get_task_memreq c no_task = res_bind (get_task c no_task) (\<lambda>task. Inr (t_memreq task))"

text \<open>
  A task without a row in the network section has the zero row: the transmission time divides by
  zero, and infinity times \<open>real_offloading\<close> is not 0 but NaN.
\<close>

lemma missing_network_nan:
  "up_power_net_com (utilpower_of task mem cloud cpufreq zero_network net_commander) = NaN"
proof -
  let ?big = "\<lambda>x. x = NaN \<or> x = Inf False"
  have over_0: "?big (of_u32 a / of_u32 0)" for a by (auto simp: of_u32_def f64_ops)
  have sum: "?big (x + of_u32 a)" and quot: "?big (x / of_u32 a)" and prod: "?big (lit 75 * x)"
    and none: "x * real_offloading = NaN" if "?big x" for x a
    using that mk_int [of 75 False] by (auto simp: of_u32_def lit_def real_offloading_def f64_ops)
  have plus: "?big (x + y)" if "?big x" "?big y" for x y using that by (auto simp: f64_ops)
  show ?thesis
    unfolding utilpower_of_def Let_def zero_network_def
    by simp (intro none prod quot sum plus over_0)
qed

section \<open>Costs\<close>

definition P_ELEC :: f64 where "P_ELEC = lit (8 / 100)"
definition C_SW :: f64 where "C_SW = lit (18 / 10 ^ 10)"
definition V_TAB :: "f64 list" where
  "V_TAB = map lit [5 / 10, 65 / 100, 8 / 10, 95 / 100, 11 / 10]"
definition F_TAB :: "f64 list" where
  "F_TAB = map lit [400000000, 700000000, 1200000000, 1600000000, 2200000000]"
definition S_TAB :: "f64 list" where
  "S_TAB = map lit [55 / 10, 31 / 10, 18 / 10, 1375 / 1000, 1]"
definition P_BASELINE :: f64 where "P_BASELINE = lit (35 / 10)"
definition K_DYN :: f64 where "K_DYN = lit (2 / 1000)"
definition K_STAT :: f64 where "K_STAT = lit (5 / 10000)"
definition HW_COST :: f64 where "HW_COST = lit 2000"
definition DEP_PERIOD_SEC :: f64 where "DEP_PERIOD_SEC = lit 94608000"
definition ALL_Period :: f64 where "ALL_Period = lit 2592000"
definition MU :: f64 where "MU = lit 1"

definition compute_local_cost_per_sec :: "task_t \<Rightarrow> nat \<Rightarrow> f64 res" where
  "compute_local_cost_per_sec task cpufreq_idx =
     (let wcet = of_u32 (t_wcet task div 1000);
          period = of_u32 (t_period task div 1000)
      in res_bind (arr_get V_TAB cpufreq_idx) (\<lambda>v.
         res_bind (arr_get F_TAB cpufreq_idx) (\<lambda>f.
         res_bind (arr_get S_TAB cpufreq_idx) (\<lambda>s.
         let e_cpu = C_SW * v * v * f * wcet * s / period;
             size_mb = of_u32 (t_memreq task div 1000);
             gamma = t_mem_active_ratio task;
             e_mem = size_mb * (gamma * K_DYN + K_STAT);
             total_energy = (e_cpu + e_mem) * ALL_Period
         in Inr (total_energy / lit 3600000 * P_ELEC)))))"

definition compute_offloading_cost_per_sec :: "task_t \<Rightarrow> cloud_t \<Rightarrow> f64 \<Rightarrow> f64 \<Rightarrow> f64" where
  "compute_offloading_cost_per_sec task cloud uplink downlink =
     (let period = of_u32 (t_period task div 1000);
          t_upload = of_u32 (t_input_size task * 1024) * lit 8 / (uplink * lit (10 ^ 6));
          t_download = of_u32 (t_output_size task * 1024) * lit 8 / (downlink * lit (10 ^ 6));
          t_net = t_upload + t_download;
          e_net = lit (12 / 10) * t_net * (ALL_Period / period)
      in e_net / lit 3600000 * P_ELEC)"

section \<open>Facts about a single task\<close>

text \<open>What a result says about the entries that were read.\<close>

lemma get_task_utilpower_InrE:
  assumes "get_task_utilpower c i m cl f r = Inr u"
  obtains task mem cloud cpufreq network nc where
    "get_task c i = Inr task" "get_mem c (unat m) = Inr mem" "get_cloud c (unat cl) = Inr cloud"
    "get_cpufreq c (unat f) = Inr cpufreq" "get_network c i = Inr network"
    "get_net_commander c i = Inr nc"
    "\<not> of_u32 (t_period task) \<le> wcet_scaled_of task cpufreq mem"
    "u = utilpower_of task mem cloud cpufreq network nc"
  using assms unfolding get_task_utilpower_def by (auto split: if_splits)

lemma utilpower_of_sel:
  "up_util (utilpower_of task mem cloud cpufreq network nc) =
     (wcet_scaled_of task cpufreq mem * (1 - real_offloading)
        + 1 / cf_wcet_scale cpufreq * of_u32 (nc_intercept_out nc + nc_intercept_in nc) * real_offloading)
        / of_u32 (t_period task)"
  "\<exists>x. up_deadline (utilpower_of task mem cloud cpufreq network nc) = x * real_offloading"
  "\<exists>x. up_power_net_com (utilpower_of task mem cloud cpufreq network nc) = x * real_offloading"
  by (simp_all only: utilpower_of_def Let_def utilpower.select_convs) blast+

lemma up_deadline_not_above: "\<not> 1 < up_deadline (utilpower_of task mem cloud cpufreq network nc)"
proof -
  obtain x where "up_deadline (utilpower_of task mem cloud cpufreq network nc) = x * 0"
    using utilpower_of_sel(2) unfolding real_offloading_def by blast
  then show ?thesis using f64_mult_zero [of x] by (auto simp: f64_not_one_less_zero)
qed

lemma one_minus_real_offloading: "1 - real_offloading = 1"
  unfolding real_offloading_def by (rule f64_diff_zero [OF wf64_one nnan_one])




lemma one_over_one: "1 / (1 :: f64) = 1"
  using mk_int [of 1 False] by (simp add: divide_f64_def one_f64_def)

text \<open>A configuration with one task, one memory and one frequency.\<close>

definition demo_conf :: conf where
  "demo_conf = init_conf\<lparr>cutoff := 1,
     tasks := [zero_task\<lparr>t_no := 1, t_wcet := 100, t_period := 200, t_memreq := 10\<rparr>],
     mems := [zero_mem\<lparr>m_typestr := Some ''dram'', m_max_capacity := 1000, m_wcet_scale := 1\<rparr>],
     cpufreqs := [zero_cpufreq\<lparr>cf_wcet_scale := 1\<rparr>], offloadingratios := [0],
     clouds := [zero_cloud\<lparr>cl_typestr := Some ''mec'', cl_computation_power := 1\<rparr>]\<rparr>"

lemma demo_conf_ok: "conf_ok demo_conf"
  by (simp add: conf_ok_def demo_conf_def init_conf_def caps numbered_def zero_task_def)

lemma demo_conf_sizes [simp]:
  "n_tasks demo_conf = 1" "n_cpufreqs demo_conf = 1" "n_mems demo_conf = 1" "n_clouds demo_conf = 1"
  by (simp_all add: demo_conf_def init_conf_def)

definition demo_up :: utilpower where
  "demo_up = utilpower_of (tasks demo_conf ! 0) (mems demo_conf ! 0) (clouds demo_conf ! 0)
     (cpufreqs demo_conf ! 0) zero_network zero_net_commander"

lemma demo_reads:
  "get_task demo_conf 0 = Inr (tasks demo_conf ! 0)" "get_mem demo_conf 0 = Inr (mems demo_conf ! 0)"
  "get_cloud demo_conf 0 = Inr (clouds demo_conf ! 0)" "get_cpufreq demo_conf 0 = Inr (cpufreqs demo_conf ! 0)"
  "get_network demo_conf 0 = Inr zero_network" "get_net_commander demo_conf 0 = Inr zero_net_commander"
  by (simp_all add: table_reads tab_get_def demo_conf_def init_conf_def caps)

lemma demo_wcet: "wcet_scaled_of (tasks demo_conf ! 0) (cpufreqs demo_conf ! 0) (mems demo_conf ! 0) = of_u32 100"
  by (simp add: wcet_scaled_of_def demo_conf_def init_conf_def one_over_one f64_mult_one wf64_of_u32)

lemma demo_utilpower: "get_task_utilpower demo_conf 0 0 0 0 0 = Inr demo_up"
proof -
  have "\<not> of_u32 200 \<le> of_u32 100" by (simp add: of_u32_def less_eq_f64_def fle_def)
  moreover have "t_period (tasks demo_conf ! 0) = 200" by (simp add: demo_conf_def init_conf_def)
  ultimately show ?thesis by (simp add: get_task_utilpower_def demo_reads demo_wcet demo_up_def)
qed




text \<open>The response-time ratio of a task is never above 1.0: it is multiplied by the
  constant \<open>real_offloading = 0.0\<close>, so it is a zero or NaN for every configuration and gene.\<close>

theorem deadline_never_exceeded:
  assumes "get_task_utilpower c i m cl f r = Inr u"
  shows "\<not> 1 < up_deadline u"
  using assms up_deadline_not_above by (auto elim!: get_task_utilpower_InrE)

theorem deadline_never_exceeded_witness: "\<not> 1 < up_deadline demo_up"
  by (rule deadline_never_exceeded [OF demo_utilpower])

section \<open>Exact verdicts\<close>

text \<open>A scale of \<open>1 / 2 ^ a\<close> multiplies an execution time by \<open>2 ^ a\<close>, without rounding.\<close>

lemma inverse_dyadic:
  assumes "a \<le> 52"
  shows "1 / Fin False (1 / 2 ^ a) = Fin False (of_int (2 ^ a))"
proof -
  have "(2 :: int) ^ a \<le> 2 ^ 52" using assms by (intro power_increasing) simp_all
  then have "mk False (of_int (2 ^ a)) = Fin False (of_int (2 ^ a))" by (intro mk_int) simp_all
  then show ?thesis by (simp add: one_f64_def divide_f64_def)
qed

lemma times_int:
  assumes "0 \<le> m" and "0 \<le> n" and "m * n < 2 ^ 53"
  shows "Fin False (of_int m) * Fin False (of_int n) = Fin False (of_int (m * n))"
  using mk_int [of "m * n" False] assms by (simp add: times_f64_def)

lemma u32_shifted:
  assumes "k \<le> 20"
  shows "uint (x :: u32) * 2 ^ k < 2 ^ 53"
proof -
  have x: "0 \<le> uint x" "uint x < 2 ^ 32" using uint_lt2p [of x] by simp_all
  have "uint x * 2 ^ k \<le> uint x * 2 ^ 20" using assms by (intro mult_left_mono power_increasing) simp_all
  also have "\<dots> < 2 ^ 53" using x(2) by simp
  finally show ?thesis .
qed

lemma wcet_scaled_dyadic:
  assumes "cf_wcet_scale f = Fin False (1 / 2 ^ a)" and "m_wcet_scale m = Fin False (1 / 2 ^ b)" and "a + b \<le> 20"
  shows "wcet_scaled_of t f m = Fin False (of_int (uint (t_wcet t) * 2 ^ (a + b)))"
proof -
  let ?w = "uint (t_wcet t)"
  have inv: "1 / cf_wcet_scale f = Fin False (of_int (2 ^ a))" "1 / m_wcet_scale m = Fin False (of_int (2 ^ b))"
    unfolding assms(1,2) using assms(3) by (intro inverse_dyadic; simp)+
  have "of_u32 (t_wcet t) * Fin False (of_int (2 ^ a)) = Fin False (of_int (?w * 2 ^ a))"
    unfolding of_u32_def by (rule times_int) (use assms(3) u32_shifted [of a "t_wcet t"] in simp_all)
  moreover have "Fin False (of_int (?w * 2 ^ a)) * Fin False (of_int (2 ^ b)) = Fin False (of_int (?w * 2 ^ a * 2 ^ b))"
    by (rule times_int) (use assms(3) u32_shifted [of "a + b" "t_wcet t"] in \<open>simp_all add: power_add mult.assoc\<close>)
  ultimately show ?thesis unfolding wcet_scaled_of_def inv by (simp only: power_add mult.assoc)
qed

lemma offloaded_part_is_zero:
  assumes "a \<le> 20"
  shows "1 / Fin False (1 / 2 ^ a) * of_u32 n * real_offloading = Fin False 0"
proof -
  have n: "0 \<le> uint n" "uint n < 2 ^ 32" using uint_lt2p [of n] by simp_all
  have "(2 :: int) ^ a \<le> 2 ^ 20" using assms by (intro power_increasing) simp_all
  then have "2 ^ a * uint n \<le> 2 ^ 20 * uint n" using n(1) by (intro mult_right_mono)
  also have "\<dots> < 2 ^ 53" using n(2) by simp
  finally have "1 / Fin False (1 / 2 ^ a) * of_u32 n = Fin False (of_int (2 ^ a * uint n))"
    unfolding of_u32_def using assms n(1) times_int [of "2 ^ a" "uint n"] by (subst inverse_dyadic) simp_all
  then show ?thesis by (simp add: real_offloading_def f64_ops)
qed

text \<open>C38. With scales that are powers of one half (\<open>1 / 2 ^ a\<close> for the frequency, \<open>1 / 2 ^ b\<close> for the
  memory), the floating-point verdict on a task is the one of integer arithmetic: the program is
  stopped with \<open>FATAL(3)\<close> exactly when \<open>wcet * 2 ^ (a + b)\<close> reaches the period, and otherwise the
  utilization is that product over the period, rounded once. The cloud and the offloading ratio
  of the gene do not matter.\<close>

theorem utilpower_dyadic:
  assumes "conf_ok c" and "i < n_tasks c" and "unat m < n_mems c" and "unat f < n_cpufreqs c" and "unat cl < MAX_CLOUDS"
    and "cf_wcet_scale (cpufreqs c ! unat f) = Fin False (1 / 2 ^ a)"
    and "m_wcet_scale (mems c ! unat m) = Fin False (1 / 2 ^ b)" and "a + b \<le> 20"
    and "wcet = uint (t_wcet (tasks c ! i))" and "period = uint (t_period (tasks c ! i))"
  shows "if period \<le> wcet * 2 ^ (a + b) then get_task_utilpower c i m cl f r = Inl (Fatal 3)
    else \<exists>u. get_task_utilpower c i m cl f r = Inr u
      \<and> up_util u = mk False (of_int (wcet * 2 ^ (a + b)) / of_int period)"
proof -
  let ?t = "tasks c ! i" and ?f = "cpufreqs c ! unat f" and ?m = "mems c ! unat m"
  have some: "\<exists>x. tab_get z n xs k = Inr x" if "k < n" for z n k and xs :: "'x list"
    using that by (simp add: tab_get_def)
  have caps': "n_tasks c \<le> MAX_TASKS" "n_mems c \<le> MAX_MEMS" "n_cpufreqs c \<le> MAX_CPU_FREQS"
    using assms(1) by (simp_all add: conf_ok_def)
  with assms(2-4) have reads: "get_task c i = Inr ?t" "get_mem c (unat m) = Inr ?m" "get_cpufreq c (unat f) = Inr ?f"
    by (simp_all add: table_reads tab_get_def)
  have "i < MAX_NETWORKS" "i < MAX_NETCOMMANDERS" using caps'(1) assms(2) by (simp_all add: caps)
  with assms(5) some obtain cloud nw nc where
    reads': "get_cloud c (unat cl) = Inr cloud" "get_network c i = Inr nw" "get_net_commander c i = Inr nc"
    unfolding table_reads by metis
  define w where "w = wcet * 2 ^ (a + b)"
  have ws: "wcet_scaled_of ?t ?f ?m = Fin False (of_int w)"
    using wcet_scaled_dyadic [OF assms(6-8)] assms(9) by (simp add: w_def)
  have period: "of_u32 (t_period ?t) = Fin False (of_int period)" by (simp add: of_u32_def assms(10))
  have "of_u32 (t_period ?t) \<le> wcet_scaled_of ?t ?f ?m \<longleftrightarrow> period \<le> w"
    unfolding ws period by (auto simp: less_eq_f64_def fle_def)
  then have run: "get_task_utilpower c i m cl f r
      = (if period \<le> w then Inl (Fatal 3) else Inr (utilpower_of ?t ?m cloud ?f nw nc))"
    by (simp add: get_task_utilpower_def reads reads')
  have "up_util (utilpower_of ?t ?m cloud ?f nw nc) = mk False (of_int w / of_int period)" if "w < period"
  proof -
    have "0 \<le> w" unfolding w_def using assms(9) by simp
    have "w < 2 ^ 53" unfolding w_def assms(9) by (rule u32_shifted) (rule assms(8))
    with \<open>0 \<le> w\<close> have "wf64 (Fin False (of_int w))"
      using mk_int [of w False] wf64_mk [of "of_int w" False] by simp
    then have "wcet_scaled_of ?t ?f ?m * 1 = Fin False (of_int w)" "Fin False (of_int w) + Fin False 0 = Fin False (of_int w)"
      using f64_mult_one f64_add_zero [of "Fin False (of_int w)" False] \<open>0 \<le> w\<close> unfolding ws by simp_all
    moreover have "1 / cf_wcet_scale ?f * of_u32 (nc_intercept_out nc + nc_intercept_in nc) * real_offloading = Fin False 0"
      unfolding assms(6) by (rule offloaded_part_is_zero) (use assms(8) in simp)
    ultimately have "up_util (utilpower_of ?t ?m cloud ?f nw nc) = Fin False (of_int w) / Fin False (of_int period)"
      unfolding utilpower_of_sel(1) one_minus_real_offloading period by (simp only:)
    with that \<open>0 \<le> w\<close> show ?thesis by (simp add: divide_f64_def)
  qed
  with run show ?thesis by (simp add: w_def)
qed

theorem utilpower_dyadic_witness:
  "get_task_utilpower (demo_conf\<lparr>cpufreqs := [zero_cpufreq\<lparr>cf_wcet_scale := Fin False (1 / 2)\<rparr>]\<rparr>) 0 0 0 0 0 = Inl (Fatal 3)
   \<and> (\<exists>u. get_task_utilpower demo_conf 0 0 0 0 0 = Inr u \<and> up_util u = mk False (1 / 2))"
proof -
  let ?slow = "demo_conf\<lparr>cpufreqs := [zero_cpufreq\<lparr>cf_wcet_scale := Fin False (1 / 2)\<rparr>]\<rparr>"
  have ok: "conf_ok ?slow"
    by (simp add: conf_ok_def demo_conf_def init_conf_def caps numbered_def zero_task_def)
  from utilpower_dyadic [OF ok, of 0 0 0 0 1 0 100 200 0]
    utilpower_dyadic [OF demo_conf_ok, of 0 0 0 0 0 0 100 200 0]
  show ?thesis by (simp add: demo_conf_def init_conf_def caps one_f64_def)
qed

section \<open>Facts about the costs\<close>

lemma cpu_coefficient:
  assumes "i < 5"
  shows "\<exists>m. C_SW * V_TAB ! i * V_TAB ! i * F_TAB ! i = Fin False m" and "\<exists>m. S_TAB ! i = Fin False m"
proof -
  from assms have i: "i = 0 \<or> i = 1 \<or> i = 2 \<or> i = 3 \<or> i = 4" by auto
  have c: "small 0 C_SW" unfolding C_SW_def by (rule small_lit) simp_all
  have v: "small 1 (V_TAB ! i)" and f: "small 32 (F_TAB ! i)" and s: "small 3 (S_TAB ! i)"
    using i unfolding V_TAB_def F_TAB_def S_TAB_def
    by (elim disjE; simp; intro small_lit; simp)+
  from small_mult [OF small_mult [OF small_mult [OF c v] v] f]
  show "\<exists>m. C_SW * V_TAB ! i * V_TAB ! i * F_TAB ! i = Fin False m"
    by (intro small_fin) simp
  show "\<exists>m. S_TAB ! i = Fin False m" using s by (rule small_fin)
qed

lemma u32_div_1000_eq_0: "w < 1000 \<Longrightarrow> (w :: u32) div 1000 = 0"
  by (simp add: div_word_less)

lemma of_u32_0: "of_u32 0 = Fin False 0"
  by (simp add: of_u32_def)

lemma tab_lengths: "length V_TAB = 5" "length F_TAB = 5" "length S_TAB = 5"
  by (simp_all add: V_TAB_def F_TAB_def S_TAB_def)

lemma local_cost_unfold:
  assumes "i < 5"
  shows "compute_local_cost_per_sec task i = Inr
    (let e_cpu = C_SW * V_TAB ! i * V_TAB ! i * F_TAB ! i * of_u32 (t_wcet task div 1000) * S_TAB ! i
                 / of_u32 (t_period task div 1000);
         e_mem = of_u32 (t_memreq task div 1000) * (t_mem_active_ratio task * K_DYN + K_STAT)
     in (e_cpu + e_mem) * ALL_Period / lit 3600000 * P_ELEC)"
  using assms by (simp add: compute_local_cost_per_sec_def tab_lengths Let_def)

lemma short_wcet_cpu_energy:
  assumes "i < 5" and "t_wcet task < 1000"
  shows "C_SW * V_TAB ! i * V_TAB ! i * F_TAB ! i * of_u32 (t_wcet task div 1000) * S_TAB ! i
     = Fin False 0"
proof -
  obtain m where m: "C_SW * V_TAB ! i * V_TAB ! i * F_TAB ! i = Fin False m"
    using cpu_coefficient(1) [OF assms(1)] by blast
  obtain s where s: "S_TAB ! i = Fin False s" using cpu_coefficient(2) [OF assms(1)] by blast
  show ?thesis unfolding m s u32_div_1000_eq_0 [OF assms(2)] of_u32_0 by (simp add: times_f64_def)
qed

text \<open>For a task whose worst-case execution time is below 1000 ms the electricity cost of a
  local execution does not depend on the CPU frequency: the time is truncated to 0 seconds.\<close>

theorem local_cost_ignores_frequency:
  assumes "t_wcet task < 1000" and "i < 5" and "j < 5"
  shows "compute_local_cost_per_sec task i = compute_local_cost_per_sec task j"
  using assms by (simp add: local_cost_unfold short_wcet_cpu_energy)

theorem local_cost_ignores_frequency_witness:
  "compute_local_cost_per_sec (tasks demo_conf ! 0) 0 = compute_local_cost_per_sec (tasks demo_conf ! 0) 4"
  by (rule local_cost_ignores_frequency) (simp_all add: demo_conf_def init_conf_def)

text \<open>If the period is below 1000 ms as well, the cost is the quotient 0/0: NaN.\<close>

theorem local_cost_nan:
  assumes "t_wcet task < 1000" and "t_period task < 1000" and "i < 5"
  shows "compute_local_cost_per_sec task i = Inr NaN"
proof -
  have "Fin False 0 / of_u32 (t_period task div 1000) = NaN"
    by (simp add: u32_div_1000_eq_0 [OF assms(2)] of_u32_0 divide_f64_def)
  with assms show ?thesis by (simp add: local_cost_unfold short_wcet_cpu_energy)
qed

theorem local_cost_nan_witness: "compute_local_cost_per_sec (tasks demo_conf ! 0) 2 = Inr NaN"
  by (rule local_cost_nan) (simp_all add: demo_conf_def init_conf_def)

end
