(* ===== verification/Rand.thy ===== *)
theory Rand
  imports Prelude
begin

text \<open>
  util.c. The generator state is the sequence of values \<open>rand()\<close> is still to return, each in
  \<open>[0, RAND_MAX]\<close> with \<open>RAND_MAX = 2^31 - 1\<close> as in glibc. Nothing else is assumed of it: a
  theorem holds for every sequence, and where the code needs a lucky draw the theorem says so.
\<close>

type_synonym rng = "nat \<Rightarrow> 31 word"

definition rand_next :: "rng \<Rightarrow> int \<times> rng" where
  "rand_next g = (uint (g 0), \<lambda>i. g (Suc i))"

text \<open>\<open>abs(rand()) % max_value\<close>: the modulus is taken in \<open>unsigned\<close>, and traps on 0.\<close>

definition get_rand :: "u32 \<Rightarrow> rng \<Rightarrow> (u32 \<times> rng) res" where
  "get_rand max_value g =
     (case rand_next g of (v, g') \<Rightarrow>
        if max_value = 0 then Inl Div_By_Zero
        else Inr (word_of_int \<bar>v\<bar> mod max_value, g'))"

lemma mono_run_bind [partial_function_mono]:
  assumes "mono_option B" and "\<And>y. mono_option (\<lambda>f. C y f)"
  shows "mono_option (\<lambda>f. run_bind (B f) (\<lambda>y. C y f))"
  unfolding run_bind_as_bind
proof (rule bind_mono [OF assms(1)])
  show "mono_option (\<lambda>f. case r of Inl e \<Rightarrow> Some (Inl e) | Inr x \<Rightarrow> C x f)" for r
    using assms(2) by (cases r) (auto intro: option.const_mono)
qed

partial_function (option) get_rand_except :: "u32 \<Rightarrow> u32 \<Rightarrow> rng \<Rightarrow> (u32 \<times> rng) run" where
  "get_rand_except max_value ex_value g =
     run_bind (Some (get_rand max_value g)) (\<lambda>(v, g').
       if v \<noteq> ex_value then ret (v, g') else get_rand_except max_value ex_value g')"

section \<open>Range\<close>

lemma get_rand_eq:
  "max_value \<noteq> 0 \<Longrightarrow> get_rand max_value g = Inr (word_of_int (uint (g 0)) mod max_value, \<lambda>i. g (Suc i))"
  by (simp add: get_rand_def rand_next_def)

lemma u32_mod_less: "max_value \<noteq> 0 \<Longrightarrow> (v :: u32) mod max_value < max_value"
  by (rule word_mod_less_divisor) (simp add: word_greater_zero_iff)

lemma get_rand_less:
  assumes "get_rand max_value g = Inr (v, g')"
  shows "v < max_value"
proof -
  have "max_value \<noteq> 0" using assms by (auto simp: get_rand_def rand_next_def)
  with assms show ?thesis using u32_mod_less by (auto simp: get_rand_eq)
qed

lemma get_rand_ok [bounds_rules]:
  assumes "max_value \<noteq> 0"
  obtains v g' where "get_rand max_value g = Inr (v, g')" "v < max_value"
  using assms u32_mod_less by (auto simp: get_rand_eq)

lemma get_rand_except_sound:
  assumes "get_rand_except max_value ex_value g = Some (Inr (v, g'))"
  shows "v < max_value \<and> v \<noteq> ex_value"
proof -
  have "case r of Inl e \<Rightarrow> True | Inr (v, g') \<Rightarrow> v < max_value \<and> v \<noteq> ex_value"
    if "get_rand_except max_value ex_value g = Some r" for r
  proof (rule get_rand_except.raw_induct [where P = "\<lambda>max_value ex_value g r.
        case r of Inl e \<Rightarrow> True | Inr (v, g') \<Rightarrow> v < max_value \<and> v \<noteq> ex_value", OF _ that])
    fix f and m e :: u32 and g :: rng and r
    assume IH: "\<And>m e g r. f m e g = Some r \<Longrightarrow>
        (case r of Inl _ \<Rightarrow> True | Inr (v, g') \<Rightarrow> v < m \<and> v \<noteq> e)"
      and eq: "run_bind (Some (get_rand m g)) (\<lambda>(v, g'). if v \<noteq> e then ret (v, g') else f m e g') = Some r"
    show "case r of Inl _ \<Rightarrow> True | Inr (v, g') \<Rightarrow> v < m \<and> v \<noteq> e"
    proof (cases "get_rand m g")
      case (Inl a)
      with eq show ?thesis by auto
    next
      case (Inr b)
      then obtain v g' where b: "get_rand m g = Inr (v, g')" by (cases b) auto
      have "(if v \<noteq> e then ret (v, g') else f m e g') = Some r" using eq unfolding b by simp
      then show ?thesis using get_rand_less [OF b] IH [of m e g' r]
        by (cases "v = e") auto
    qed
  qed
  from this [OF assms] show ?thesis by simp
qed

text \<open>The value drawn at the \<open>n\<close>-th call, and what the loop makes of the sequence.\<close>

definition drawn :: "u32 \<Rightarrow> rng \<Rightarrow> nat \<Rightarrow> u32" where
  "drawn max_value g n = word_of_int (uint (g n)) mod max_value"

lemma get_rand_except_step:
  assumes "max_value \<noteq> 0"
  shows "get_rand_except max_value ex_value g =
    (if drawn max_value g 0 \<noteq> ex_value then ret (drawn max_value g 0, \<lambda>i. g (Suc i))
     else get_rand_except max_value ex_value (\<lambda>i. g (Suc i)))"
  using assms by (subst get_rand_except.simps) (simp add: get_rand_eq drawn_def)

lemma get_rand_except_loops:
  assumes "max_value \<noteq> 0" and "\<And>n. drawn max_value g n = ex_value"
  shows "get_rand_except max_value ex_value g = None"
proof (rule ccontr)
  assume "get_rand_except max_value ex_value g \<noteq> None"
  then obtain r where r: "get_rand_except max_value ex_value g = Some r" by auto
  have "\<not> (max_value \<noteq> 0 \<and> (\<forall>n. drawn max_value g n = ex_value))"
  proof (rule get_rand_except.raw_induct [where P = "\<lambda>m e g r. \<not> (m \<noteq> 0 \<and> (\<forall>n. drawn m g n = e))", OF _ r])
    fix f and m e :: u32 and g :: rng and r
    assume IH: "\<And>m e g r. f m e g = Some r \<Longrightarrow> \<not> (m \<noteq> 0 \<and> (\<forall>n. drawn m g n = e))"
      and eq: "run_bind (Some (get_rand m g)) (\<lambda>(v, g'). if v \<noteq> e then ret (v, g') else f m e g') = Some r"
    show "\<not> (m \<noteq> 0 \<and> (\<forall>n. drawn m g n = e))"
    proof
      assume all: "m \<noteq> 0 \<and> (\<forall>n. drawn m g n = e)"
      then have "drawn m g 0 = e" by blast
      with all eq have "f m e (\<lambda>i. g (Suc i)) = Some r"
        by (simp add: get_rand_eq drawn_def)
      from IH [OF this] all show False by (simp add: drawn_def)
    qed
  qed
  with assms show False by blast
qed

section \<open>Fair sequences\<close>

text \<open>
  A sequence in which every value of \<open>rand()\<close> comes back again and again. The code has loops
  that wait for a lucky draw; fairness is what they need to end.
\<close>

definition fair :: "rng \<Rightarrow> bool" where
  "fair g = (\<forall>v n. \<exists>m\<ge>n. g m = v)"

lemma fair_tail [simp]: "fair (\<lambda>i. g (Suc i)) = fair g"
proof
  assume f: "fair (\<lambda>i. g (Suc i))"
  show "fair g"
    unfolding fair_def
  proof (intro allI)
    fix v n
    obtain m where "n \<le> m" "g (Suc m) = v" using f unfolding fair_def by blast
    then show "\<exists>m\<ge>n. g m = v" by (intro exI [of _ "Suc m"]) simp
  qed
next
  assume f: "fair g"
  show "fair (\<lambda>i. g (Suc i))"
    unfolding fair_def
  proof (intro allI)
    fix v n
    obtain m where "Suc n \<le> m" "g m = v" using f unfolding fair_def by blast
    then show "\<exists>m\<ge>n. g (Suc m) = v" by (intro exI [of _ "m - 1"]) auto
  qed
qed

lemma fair_tail2 [simp]: "fair (\<lambda>i. g (Suc (Suc i))) = fair g"
  using fair_tail [of "\<lambda>i. g (Suc i)"] by simp

lemma get_rand_fair: "get_rand w g = Inr (v, g') \<Longrightarrow> fair g' = fair g"
  by (auto simp: get_rand_def rand_next_def split: if_splits)

lemma get_rand_except_returns:
  assumes "max_value \<noteq> 0" and "drawn max_value g n \<noteq> ex_value"
  shows "\<exists>v g'. get_rand_except max_value ex_value g = Some (Inr (v, g')) \<and> fair g' = fair g"
  using assms(2)
proof (induction n arbitrary: g)
  case 0
  then show ?case using assms(1) by (simp add: get_rand_except_step)
next
  case (Suc n)
  then have "drawn max_value (\<lambda>i. g (Suc i)) n \<noteq> ex_value" by (simp add: drawn_def)
  from Suc.IH [OF this] assms(1) show ?case
    by (subst get_rand_except_step) auto
qed

text \<open>The sequence that counts through all values is fair.\<close>

definition counter :: rng where
  "counter n = of_nat n"

lemma unat_less_31: "unat (v :: 31 word) < 2 ^ 31"
  using unsigned_less [of v, where ?'a = nat] by simp

lemma fair_counter: "fair counter"
  unfolding fair_def counter_def
proof (intro allI)
  fix v :: "31 word" and n
  have "unat (of_nat (unat v + n * 2 ^ 31) :: 31 word) = (unat v + n * 2 ^ 31) mod 2 ^ 31"
    unfolding unsigned_of_nat take_bit_eq_mod by simp
  also have "\<dots> = unat v" using unat_less_31 [of v] by simp
  finally have "of_nat (unat v + n * 2 ^ 31) = v" by (rule word_unat_eq_iff [THEN iffD2])
  then show "\<exists>m\<ge>n. of_nat m = v" by (intro exI [of _ "unat v + n * 2 ^ 31"]) simp
qed

text \<open>Every residue of a modulus that \<open>rand()\<close> covers is drawn at some point.\<close>

lemma fair_draws:
  assumes "fair g" and "v < w" and "unat w \<le> 2 ^ 31"
  shows "\<exists>m\<ge>n. drawn w g m = v"
proof -
  have v: "unat v < 2 ^ 31" using assms(2,3) by (simp add: word_less_nat_alt)
  obtain m where m: "n \<le> m" "g m = (of_nat (unat v) :: 31 word)"
    using assms(1) unfolding fair_def by blast
  have "unat (g m) = unat v"
    using v by (simp add: m(2) unsigned_ucast_eq unsigned_take_bit_eq take_bit_nat_eq_self)
  then have "uint (g m) = uint v" by (metis uint_nat)
  then have "drawn w g m = v mod w" unfolding drawn_def by (simp only: word_of_int_uint)
  also have "\<dots> = v" using assms(2) by (simp add: word_arith_nat_mod word_less_nat_alt)
  finally show ?thesis using m(1) by blast
qed

section \<open>Properties\<close>

text \<open>With a fair generator and at least two values to choose from, \<open>get_rand_except\<close>
  returns, with a value in range other than the excepted one.\<close>

theorem get_rand_except_total:
  assumes "fair g" and "2 \<le> unat w" and "unat w \<le> 2 ^ 31"
  shows "\<exists>v g'. get_rand_except w x g = ret (v, g') \<and> v < w \<and> v \<noteq> x"
proof -
  define v :: u32 where "v = (if x = 0 then 1 else 0)"
  have v: "v < w" "v \<noteq> x" using assms(2) by (auto simp: v_def word_less_nat_alt)
  obtain m where "drawn w g m = v" using fair_draws [OF assms(1) v(1) assms(3)] by blast
  moreover have "w \<noteq> 0" using assms(2) by auto
  ultimately obtain u g' where "get_rand_except w x g = ret (u, g')"
    using get_rand_except_returns [of w g m x] v(2) by blast
  with get_rand_except_sound [OF this] show ?thesis by blast
qed

theorem get_rand_except_total_witness:
  "\<exists>v g'. get_rand_except 5 3 counter = ret (v, g') \<and> v < 5 \<and> v \<noteq> 3"
  by (rule get_rand_except_total [OF fair_counter]) simp_all

end
