(* ===== verification/Taskattrs.thy ===== *)
theory Taskattrs
  imports Tables Rand
begin

text \<open>
  The chromosomes of GA.c: \<open>taskattrs_t\<close> holds for every task the index of its memory,
  cloud, CPU frequency or offloading ratio, together with a histogram of these indices and
  the most used one. Here are the functions that build and change them; \<open>n\<close> is \<open>n_tasks\<close>.
\<close>

record taskattrs_t =
  attrs :: "u8 list"
  n_tasks_per_type :: "u32 list"
  max_type :: u32

definition zero_taskattrs :: taskattrs_t where
  "zero_taskattrs = \<lparr>attrs = replicate MAX_TASKS 0,
     n_tasks_per_type = replicate MAX_ATTRTYPES 0, max_type = 0\<rparr>"

text \<open>The conversions between \<open>unsigned char\<close> and \<open>unsigned\<close>.\<close>

abbreviation u32_of_u8 :: "u8 \<Rightarrow> u32" where "u32_of_u8 \<equiv> ucast"
abbreviation u8_of_u32 :: "u32 \<Rightarrow> u8" where "u8_of_u32 \<equiv> ucast"

section \<open>The functions\<close>

definition setup_step :: "nat \<Rightarrow> taskattrs_t \<Rightarrow> taskattrs_t res" where
  "setup_step i ta =
     res_bind (arr_get (attrs ta) i) (\<lambda>a.
     let attrtype = u32_of_u8 a in
     res_bind (arr_get (n_tasks_per_type ta) (unat attrtype)) (\<lambda>k.
     res_bind (arr_set (n_tasks_per_type ta) (unat attrtype) (k + 1)) (\<lambda>cnt.
     res_bind (arr_get cnt (unat (max_type ta))) (\<lambda>cmax.
     res_bind (arr_get cnt (unat attrtype)) (\<lambda>cnew.
     Inr (ta\<lparr>n_tasks_per_type := cnt,
             max_type := (if cmax < cnew then attrtype else max_type ta)\<rparr>))))))"

definition setup_taskattrs :: "nat \<Rightarrow> taskattrs_t \<Rightarrow> taskattrs_t res" where
  "setup_taskattrs n ta =
     for_upto setup_step 0 n
       (ta\<lparr>n_tasks_per_type := replicate MAX_ATTRTYPES 0, max_type := 0\<rparr>)"

definition assign_step :: "u32 \<Rightarrow> nat \<Rightarrow> taskattrs_t \<times> rng \<Rightarrow> (taskattrs_t \<times> rng) res" where
  "assign_step max_value i = (\<lambda>(ta, g).
     res_bind (get_rand max_value g) (\<lambda>(attrtype, g').
     res_bind (arr_set (attrs ta) i (u8_of_u32 attrtype)) (\<lambda>as.
     Inr (ta\<lparr>attrs := as\<rparr>, g'))))"

definition assign_taskattrs :: "nat \<Rightarrow> taskattrs_t \<Rightarrow> u32 \<Rightarrow> rng \<Rightarrow> (taskattrs_t \<times> rng) res" where
  "assign_taskattrs n ta max_value g =
     res_bind (for_upto (assign_step max_value) 0 n (ta, g)) (\<lambda>(ta, g).
     res_bind (setup_taskattrs n ta) (\<lambda>ta. Inr (ta, g)))"

text \<open>Moving one task from type \<open>t_old\<close> to \<open>t_new\<close> in the histogram, with the repair of
  \<open>max_type\<close> that both callers below do.\<close>

definition recount :: "u32 \<Rightarrow> u32 \<Rightarrow> taskattrs_t \<Rightarrow> taskattrs_t res" where
  "recount t_old t_new ta =
     res_bind (arr_get (n_tasks_per_type ta) (unat t_old)) (\<lambda>k.
     res_bind (arr_set (n_tasks_per_type ta) (unat t_old) (k - 1)) (\<lambda>cnt.
     res_bind (arr_get cnt (unat t_new)) (\<lambda>k'.
     res_bind (arr_set cnt (unat t_new) (k' + 1)) (\<lambda>cnt.
     res_bind (arr_get cnt (unat (max_type ta))) (\<lambda>cmax.
     res_bind (arr_get cnt (unat t_new)) (\<lambda>cnew.
     Inr (ta\<lparr>n_tasks_per_type := cnt,
             max_type := (if cmax < cnew then t_new else max_type ta)\<rparr>)))))))"

text \<open>The scan of \<open>balance_mem_types\<close>: the index at which it stops, \<open>n\<close> if it never does.\<close>

function find_typed :: "u8 list \<Rightarrow> u32 \<Rightarrow> nat \<Rightarrow> nat \<Rightarrow> u32 \<Rightarrow> nat res" where
  "find_typed as mt n i idx_changed =
     (if i < n then
        res_bind (arr_get as i) (\<lambda>a.
          if u32_of_u8 a = mt then
            if idx_changed = 0 then Inr i else find_typed as mt n (Suc i) (idx_changed - 1)
          else find_typed as mt n (Suc i) idx_changed)
      else Inr i)"
  by pat_completeness auto
termination
  by (relation "measure (\<lambda>(as, mt, n, i, k). n - i)") auto

declare find_typed.simps [simp del]

definition balance_mem_types :: "nat \<Rightarrow> u32 \<Rightarrow> taskattrs_t \<Rightarrow> rng \<Rightarrow> (taskattrs_t \<times> rng) run" where
  "balance_mem_types n n_mems_w ta g =
     run_bind (Some (arr_get (n_tasks_per_type ta) (unat (max_type ta)))) (\<lambda>n_tasks_type.
     if 0 < n_tasks_type then
       run_bind (Some (get_rand n_tasks_type g)) (\<lambda>(idx_changed, g).
       run_bind (Some (find_typed (attrs ta) (max_type ta) n 0 idx_changed)) (\<lambda>i.
       run_bind (get_rand_except n_mems_w (max_type ta) g) (\<lambda>(type_new, g).
       run_bind (Some (arr_set (attrs ta) i (u8_of_u32 type_new))) (\<lambda>as.
       run_bind (Some (recount (max_type ta) type_new (ta\<lparr>attrs := as\<rparr>))) (\<lambda>ta.
       ret (ta, g))))))
     else ret (ta, g))"

text \<open>The \<open>do ... while (idx != idx_org)\<close> loop of \<open>lower_utilization_by_attr\<close>.\<close>

partial_function (option) lower_loop ::
  "nat \<Rightarrow> nat \<Rightarrow> nat \<Rightarrow> taskattrs_t \<Rightarrow> (bool \<times> taskattrs_t) run" where
  "lower_loop n idx_org idx ta =
     run_bind (Some (arr_get (attrs ta) idx)) (\<lambda>a.
     if 0 < a then
       run_bind (Some (arr_set (attrs ta) idx (a - 1))) (\<lambda>as.
       run_bind (Some (recount (u32_of_u8 a) (u32_of_u8 a - 1) (ta\<lparr>attrs := as\<rparr>))) (\<lambda>ta.
       ret (True, ta)))
     else
       let idx' = (idx + 1) mod n in
       if idx' \<noteq> idx_org then lower_loop n idx_org idx' ta else ret (False, ta))"

definition lower_utilization_by_attr ::
  "nat \<Rightarrow> taskattrs_t \<Rightarrow> rng \<Rightarrow> (bool \<times> taskattrs_t \<times> rng) run" where
  "lower_utilization_by_attr n ta g =
     run_bind (Some (get_rand (of_nat n) g)) (\<lambda>(idx, g).
     run_bind (lower_loop n (unat idx) (unat idx) ta) (\<lambda>(b, ta).
     ret (b, ta, g)))"

text \<open>
  \<open>inherit_values\<close>: two \<open>memcpy\<close>s, of \<open>crosspt\<close> and of \<open>n_tasks - crosspt\<close> bytes. The
  second length is unsigned, so a crossing point past \<open>n_tasks\<close> copies out of bounds.
\<close>

definition inherit_values ::
  "nat \<Rightarrow> taskattrs_t \<Rightarrow> taskattrs_t \<Rightarrow> taskattrs_t \<Rightarrow> u32 \<Rightarrow> taskattrs_t res" where
  "inherit_values n newborn ta1 ta2 crosspt =
     (let k = unat crosspt in
      if n < k \<or> length (attrs newborn) < n \<or> length (attrs ta1) < k \<or> length (attrs ta2) < n
      then Inl Out_Of_Bounds
      else setup_taskattrs n
             (newborn\<lparr>attrs := take k (attrs ta1) @ take (n - k) (drop k (attrs ta2))
                               @ drop n (attrs newborn)\<rparr>))"

section \<open>The histogram\<close>

definition tally :: "u8 list \<Rightarrow> nat \<Rightarrow> nat \<Rightarrow> nat" where
  "tally as n t = count_list (map unat (take n as)) t"

text \<open>
  \<open>hist_ok\<close>: the counters are the histogram of the first \<open>n\<close> attributes. \<open>max_ok\<close>: the
  recorded type has a maximal count.
\<close>

definition hist_ok :: "nat \<Rightarrow> taskattrs_t \<Rightarrow> bool" where
  "hist_ok n ta =
     (length (attrs ta) = MAX_TASKS \<and> length (n_tasks_per_type ta) = MAX_ATTRTYPES
      \<and> (\<forall>i<n. unat (attrs ta ! i) < MAX_ATTRTYPES)
      \<and> (\<forall>t<MAX_ATTRTYPES. unat (n_tasks_per_type ta ! t) = tally (attrs ta) n t)
      \<and> unat (max_type ta) < MAX_ATTRTYPES)"

definition max_ok :: "taskattrs_t \<Rightarrow> bool" where
  "max_ok ta =
     (\<forall>t<MAX_ATTRTYPES. n_tasks_per_type ta ! t \<le> n_tasks_per_type ta ! unat (max_type ta))"

lemma unat_u32_of_u8 [simp]: "unat (u32_of_u8 a) = unat a"
  by (simp add: unsigned_ucast_eq unsigned_take_bit_eq take_bit_nat_eq_self
      order_less_trans [OF unsigned_less [of a]])

lemma tally_0 [simp]: "tally as 0 t = 0"
  by (simp add: tally_def)

lemma tally_Suc:
  "i < length as \<Longrightarrow> tally as (Suc i) t = tally as i t + (if unat (as ! i) = t then 1 else 0)"
  by (simp add: tally_def take_Suc_conv_app_nth count_list_snoc)

lemma tally_le: "tally as n t \<le> n"
  using count_list_le_length [of "map unat (take n as)" t] by (simp add: tally_def)

lemma tally_update:
  "i < n \<Longrightarrow> n \<le> length as \<Longrightarrow>
     tally (as[i := v]) n t + (if unat (as ! i) = t then 1 else 0)
     = tally as n t + (if unat v = t then 1 else 0)"
  using count_list_update [of i "map unat (take n as)" "unat v" t]
  by (simp add: tally_def take_update_swap map_update)

lemma tally_pos:
  assumes "i < n" and "n \<le> length as"
  shows "0 < tally as n (unat (as ! i))"
proof -
  have "as ! i \<in> set (take n as)" using assms by (auto simp: in_set_conv_nth intro!: exI [of _ i])
  then have "count_list (map unat (take n as)) (unat (as ! i)) \<noteq> 0"
    by (simp add: count_list_0_iff)
  then show ?thesis by (simp add: tally_def)
qed

text \<open>The chromosome of a single task of type \<open>v\<close>.\<close>

definition one_task :: "u8 \<Rightarrow> taskattrs_t" where
  "one_task v = \<lparr>attrs = v # replicate (MAX_TASKS - 1) 0,
     n_tasks_per_type = (replicate MAX_ATTRTYPES 0)[unat v := 1], max_type = u32_of_u8 v\<rparr>"

lemma one_task_ok:
  assumes "v < 5"
  shows "hist_ok 1 (one_task v)"
proof -
  have "unat v < 5" using assms by (simp add: word_less_nat_alt)
  then show ?thesis by (auto simp: hist_ok_def one_task_def caps tally_def nth_list_update)
qed

text \<open>A pair of counters after one task moved from type \<open>o\<close> to type \<open>t\<close>.\<close>

lemma nth_two_updates:
  "i < length xs \<Longrightarrow> j < length xs \<Longrightarrow> i \<noteq> j \<Longrightarrow>
     xs[i := u, j := v] ! k = (if k = j then v else if k = i then u else xs ! k)"
  by (simp add: nth_list_update)

section \<open>Building a chromosome\<close>

lemma setup_step_ok:
  assumes "length (attrs ta) = MAX_TASKS" and "i < MAX_TASKS" and "unat (attrs ta ! i) < MAX_ATTRTYPES"
    and "length (n_tasks_per_type ta) = MAX_ATTRTYPES" and "unat (max_type ta) < MAX_ATTRTYPES"
    and "\<And>t. t < MAX_ATTRTYPES \<Longrightarrow> unat (n_tasks_per_type ta ! t) = tally (attrs ta) i t"
    and "max_ok ta"
  shows "\<exists>ta'. setup_step i ta = Inr ta' \<and> attrs ta' = attrs ta
    \<and> length (n_tasks_per_type ta') = MAX_ATTRTYPES \<and> unat (max_type ta') < MAX_ATTRTYPES
    \<and> (\<forall>t<MAX_ATTRTYPES. unat (n_tasks_per_type ta' ! t) = tally (attrs ta) (Suc i) t)
    \<and> max_ok ta'"
proof -
  define t where "t = unat (attrs ta ! i)"
  define cnt where "cnt = n_tasks_per_type ta"
  define ta' where "ta' = ta\<lparr>n_tasks_per_type := cnt[t := cnt ! t + 1],
      max_type := (if cnt[t := cnt ! t + 1] ! unat (max_type ta) < cnt ! t + 1
                   then u32_of_u8 (attrs ta ! i) else max_type ta)\<rparr>"
  have t: "t < MAX_ATTRTYPES" using assms(3) by (simp add: t_def)
  have run: "setup_step i ta = Inr ta'"
    using assms by (simp add: setup_step_def ta'_def cnt_def t_def Let_def)
  have "tally (attrs ta) i t < 2 ^ 32 - 1"
    using tally_le [of "attrs ta" i t] assms(2) by (simp add: caps)
  then have inc: "unat (cnt ! t + 1) = tally (attrs ta) i t + 1"
    using assms(6) [OF t] by (simp add: unat_inc cnt_def)
  have counts: "unat (n_tasks_per_type ta' ! u) = tally (attrs ta) (Suc i) u"
    if "u < MAX_ATTRTYPES" for u
    using that assms(1,2,4,6) inc
    by (cases "u = t") (simp_all add: ta'_def tally_Suc t_def cnt_def)
  moreover have "max_ok ta'"
  proof -
    define M where "M = unat (max_type ta)"
    have M: "M < MAX_ATTRTYPES" "\<And>u. u < MAX_ATTRTYPES \<Longrightarrow> cnt ! u \<le> cnt ! M"
      using assms(5,7) by (simp_all add: max_ok_def cnt_def M_def)
    have up: "cnt ! t \<le> cnt ! t + 1"
      using inc assms(6) [OF t] by (simp add: word_le_nat_alt cnt_def)
    have len: "t < length cnt" using t assms(4) by (simp add: cnt_def)
    have "cnt[t := cnt ! t + 1] ! u
        \<le> (if cnt[t := cnt ! t + 1] ! M < cnt ! t + 1 then cnt ! t + 1 else cnt[t := cnt ! t + 1] ! M)"
      if u: "u < MAX_ATTRTYPES" for u
    proof -
      have "cnt ! M \<le> cnt[t := cnt ! t + 1] ! M" using up len by (cases "M = t") auto
      with M(2) [OF u] have "cnt ! u \<le> cnt[t := cnt ! t + 1] ! M" by (rule order_trans)
      then show ?thesis using len by (cases "u = t") auto
    qed
    note less = this
    have mt: "unat (max_type ta') = (if cnt[t := cnt ! t + 1] ! M < cnt ! t + 1 then t else M)"
      by (simp add: ta'_def M_def t_def)
    have all: "cnt[t := cnt ! t + 1] ! u \<le> cnt[t := cnt ! t + 1] ! unat (max_type ta')"
      if "u < MAX_ATTRTYPES" for u
      using less [OF that] len unfolding mt by (simp split: if_splits)
    then show ?thesis by (simp add: max_ok_def ta'_def)
  qed
  moreover have "attrs ta' = attrs ta" "length (n_tasks_per_type ta') = MAX_ATTRTYPES"
    "unat (max_type ta') < MAX_ATTRTYPES"
    using assms(3-5) by (simp_all add: ta'_def cnt_def)
  ultimately show ?thesis using run by blast
qed

lemma setup_taskattrs_ok:
  assumes "length (attrs ta) = MAX_TASKS" and "n \<le> MAX_TASKS"
    and "\<forall>i<n. unat (attrs ta ! i) < MAX_ATTRTYPES"
  shows "\<exists>ta'. setup_taskattrs n ta = Inr ta' \<and> attrs ta' = attrs ta \<and> hist_ok n ta' \<and> max_ok ta'"
proof -
  define P where "P = (\<lambda>i ta'. attrs ta' = attrs ta
      \<and> length (n_tasks_per_type ta') = MAX_ATTRTYPES \<and> unat (max_type ta') < MAX_ATTRTYPES
      \<and> (\<forall>t<MAX_ATTRTYPES. unat (n_tasks_per_type ta' ! t) = tally (attrs ta) i t) \<and> max_ok ta')"
  have "\<exists>ta'. setup_taskattrs n ta = Inr ta' \<and> P n ta'"
    unfolding setup_taskattrs_def
  proof (rule for_upto_rule [where P = P])
    show "P 0 (ta\<lparr>n_tasks_per_type := replicate MAX_ATTRTYPES 0, max_type := 0\<rparr>)"
      by (simp add: P_def max_ok_def caps)
    show "\<exists>s'. setup_step j s = Inr s' \<and> P (Suc j) s'" if "j < n" "P j s" for j s
      using that assms setup_step_ok [of s j] unfolding P_def by auto
  qed simp
  then show ?thesis using assms unfolding P_def hist_ok_def by auto
qed

lemma u8_of_u32_small: "v < w \<Longrightarrow> unat (w :: u32) \<le> 256 \<Longrightarrow> unat (u8_of_u32 v) = unat v"
  by (simp add: unsigned_ucast_eq unsigned_take_bit_eq take_bit_nat_eq_self word_less_nat_alt)

lemma assign_taskattrs_ok:
  assumes "length (attrs ta) = MAX_TASKS" and "n \<le> MAX_TASKS" and "max_value \<noteq> 0"
    and "unat max_value \<le> MAX_ATTRTYPES"
  shows "\<exists>ta' g'. assign_taskattrs n ta max_value g = Inr (ta', g') \<and> hist_ok n ta' \<and> max_ok ta'
    \<and> (\<forall>i<n. unat (attrs ta' ! i) < unat max_value) \<and> fair g' = fair g"
proof -
  define P where "P = (\<lambda>i (ta' :: taskattrs_t, g' :: rng). length (attrs ta') = MAX_TASKS
      \<and> fair g' = fair g
      \<and> (\<forall>j<i. unat (attrs ta' ! j) < unat max_value))"
  have "\<exists>s'. for_upto (assign_step max_value) 0 n (ta, g) = Inr s' \<and> P n s'"
  proof (rule for_upto_rule [where P = P])
    show "P 0 (ta, g)" using assms(1) by (simp add: P_def)
    fix j s assume j: "j < n" and P: "P j s"
    obtain ta1 g1 where s: "s = (ta1, g1)" by fastforce
    obtain v g2 where v: "get_rand max_value g1 = Inr (v, g2)" "v < max_value"
      by (rule get_rand_ok [OF assms(3)])
    then have "unat (u8_of_u32 v) < unat max_value"
      using assms(4) u8_of_u32_small [of v max_value] by (simp add: word_less_nat_alt caps)
    then show "\<exists>s'. assign_step max_value j s = Inr s' \<and> P (Suc j) s'"
      using P j assms(2) v(1) s get_rand_fair [OF v(1)]
      by (simp add: assign_step_def P_def nth_list_update less_Suc_eq)
  qed simp
  then obtain ta1 g1 where l: "for_upto (assign_step max_value) 0 n (ta, g) = Inr (ta1, g1)"
    "fair g1 = fair g"
    "length (attrs ta1) = MAX_TASKS" "\<forall>j<n. unat (attrs ta1 ! j) < unat max_value"
    unfolding P_def by auto
  have "\<forall>j<n. unat (attrs ta1 ! j) < MAX_ATTRTYPES" using l(4) assms(4) by fastforce
  from setup_taskattrs_ok [OF l(3) assms(2) this] obtain ta' where
    "setup_taskattrs n ta1 = Inr ta'" "attrs ta' = attrs ta1" "hist_ok n ta'" "max_ok ta'" by blast
  with l show ?thesis by (auto simp: assign_taskattrs_def)
qed

section \<open>Changing a chromosome\<close>

text \<open>A task moves from its type to \<open>v\<close>: the histogram follows.\<close>

lemma recount_ok:
  assumes "hist_ok n ta" and "i < n" and "n \<le> MAX_TASKS" and "unat v < MAX_ATTRTYPES"
    and "attrs ta ! i \<noteq> v"
  shows "\<exists>ta'. recount (u32_of_u8 (attrs ta ! i)) (u32_of_u8 v) (ta\<lparr>attrs := (attrs ta)[i := v]\<rparr>) = Inr ta'
    \<and> attrs ta' = (attrs ta)[i := v] \<and> hist_ok n ta'"
proof -
  define a where "a = unat (attrs ta ! i)"
  define w where "w = unat v"
  define cnt where "cnt = n_tasks_per_type ta"
  define cnt' where "cnt' = cnt[a := cnt ! a - 1, w := cnt ! w + 1]"
  define mt where "mt = (if cnt' ! unat (max_type ta) < cnt' ! w then u32_of_u8 v else max_type ta)"
  have h: "length (attrs ta) = MAX_TASKS" "length cnt = MAX_ATTRTYPES" "a < MAX_ATTRTYPES"
    "w < MAX_ATTRTYPES" "unat (max_type ta) < MAX_ATTRTYPES"
    "\<And>t. t < MAX_ATTRTYPES \<Longrightarrow> unat (cnt ! t) = tally (attrs ta) n t"
    using assms by (auto simp: hist_ok_def cnt_def a_def w_def)
  have ne: "a \<noteq> w" using assms(5) by (simp add: a_def w_def word_unat_eq_iff)
  have run: "recount (u32_of_u8 (attrs ta ! i)) (u32_of_u8 v) (ta\<lparr>attrs := (attrs ta)[i := v]\<rparr>)
      = Inr (ta\<lparr>attrs := (attrs ta)[i := v], n_tasks_per_type := cnt', max_type := mt\<rparr>)"
    using h ne unfolding recount_def cnt'_def mt_def cnt_def a_def w_def by simp
  have dec: "unat (cnt ! a - 1) = tally (attrs ta) n a - 1"
    using h(3,6) tally_pos [of i n "attrs ta"] assms(2,3) h(1) by (simp add: unat_dec32 a_def)
  have inc: "unat (cnt ! w + 1) = tally (attrs ta) n w + 1"
    using h(4,6) tally_le [of "attrs ta" n w] assms(3) by (subst unat_inc) (simp_all add: caps)
  have "unat (cnt' ! t) = tally ((attrs ta)[i := v]) n t" if t: "t < MAX_ATTRTYPES" for t
    using tally_update [of i n "attrs ta" v t] assms(2,3) h ne dec inc t
    unfolding cnt'_def a_def [symmetric] w_def [symmetric] by (auto simp: nth_two_updates)
  moreover have "unat mt < MAX_ATTRTYPES" using h(4,5) by (simp add: mt_def w_def)
  moreover have "length cnt' = MAX_ATTRTYPES" using h(2) by (simp add: cnt'_def)
  moreover have "\<forall>j<n. unat ((attrs ta)[i := v] ! j) < MAX_ATTRTYPES"
    using assms(1,3,4) h(1) by (intro all_nth_update) (simp_all add: hist_ok_def)
  ultimately have "hist_ok n (ta\<lparr>attrs := (attrs ta)[i := v], n_tasks_per_type := cnt', max_type := mt\<rparr>)"
    using h(1) by (simp add: hist_ok_def)
  with run show ?thesis by auto
qed

text \<open>One step down of task \<open>i\<close>, and the order in which the loop looks at the tasks.\<close>

definition lowered :: "nat \<Rightarrow> taskattrs_t \<Rightarrow> nat \<Rightarrow> taskattrs_t \<Rightarrow> bool" where
  "lowered n ta i ta' =
     (i < n \<and> 0 < attrs ta ! i \<and> attrs ta' = (attrs ta)[i := attrs ta ! i - 1] \<and> hist_ok n ta')"

lemma u32_of_u8_minus_1:
  assumes "0 < (a :: u8)"
  shows "u32_of_u8 a - 1 = u32_of_u8 (a - 1)"
proof -
  have "0 < unat (u32_of_u8 a)" using assms by (simp add: word_greater_zero_iff unat_gt_0)
  then have "unat (u32_of_u8 a - 1) = unat (u32_of_u8 (a - 1))"
    using assms by (simp add: unat_dec32 unat_dec8)
  then show ?thesis by (rule word_unat_eq_iff [THEN iffD2])
qed

lemma cyclic_next:
  assumes "org < n" and "k < n"
  shows "((org + k) mod n + 1) mod n = (org + Suc k) mod n"
    and "(org + Suc k) mod n = org \<longleftrightarrow> Suc k = n"
proof -
  show "((org + k) mod n + 1) mod n = (org + Suc k) mod n"
    using mod_add_left_eq [of "org + k" n 1] by simp
  show "(org + Suc k) mod n = org \<longleftrightarrow> Suc k = n"
  proof
    assume eq: "(org + Suc k) mod n = org"
    show "Suc k = n"
    proof (cases "org + Suc k < n")
      case False
      then have "(org + Suc k) mod n = org + Suc k - n"
        using assms by (simp add: mod_if)
      with eq have "org + Suc k - n = org" by simp
      with False show ?thesis by linarith
    qed (use eq in simp)
  qed (use assms in auto)
qed

lemma cyclic_covers:
  assumes "org < n" and "(i :: nat) < n"
  shows "\<exists>j<n. (org + j) mod n = i"
proof (cases "org \<le> i")
  case True
  with assms show ?thesis by (intro exI [of _ "i - org"]) simp
next
  case False
  with assms show ?thesis by (intro exI [of _ "i + n - org"]) simp
qed

lemma lower_loop_spec:
  assumes "hist_ok n ta" and "n \<le> MAX_TASKS" and "org < n" and "k < n"
    and "\<forall>j<k. attrs ta ! ((org + j) mod n) = 0"
  shows "(lower_loop n org ((org + k) mod n) ta = ret (False, ta) \<and> (\<forall>i<n. attrs ta ! i = 0))
    \<or> (\<exists>k'<n. \<exists>ta'. lower_loop n org ((org + k) mod n) ta = ret (True, ta')
          \<and> (\<forall>j<k'. attrs ta ! ((org + j) mod n) = 0) \<and> lowered n ta ((org + k') mod n) ta')"
  using assms(4,5)
proof (induction "n - k" arbitrary: k)
  case 0
  then show ?case by simp
next
  case (Suc m)
  define idx where "idx = (org + k) mod n"
  have len: "length (attrs ta) = MAX_TASKS" using assms(1) by (simp add: hist_ok_def)
  have idx: "idx < n" using Suc.prems(1) by (simp add: idx_def)
  with assms(2) len have get: "arr_get (attrs ta) idx = Inr (attrs ta ! idx)" by simp
  show ?case
  proof (cases "0 < attrs ta ! idx")
    case True
    have small: "unat (attrs ta ! idx - 1) < MAX_ATTRTYPES"
      using assms(1) idx True by (auto simp: hist_ok_def unat_dec8 less_imp_diff_less)
    obtain ta' where ta': "recount (u32_of_u8 (attrs ta ! idx)) (u32_of_u8 (attrs ta ! idx - 1))
        (ta\<lparr>attrs := (attrs ta)[idx := attrs ta ! idx - 1]\<rparr>) = Inr ta'"
      "attrs ta' = (attrs ta)[idx := attrs ta ! idx - 1]" "hist_ok n ta'"
      using recount_ok [OF assms(1) idx assms(2) small] by auto
    have "lower_loop n org idx ta = ret (True, ta')"
      using get True ta'(1) idx assms(2) len
      by (subst lower_loop.simps) (simp add: u32_of_u8_minus_1)
    with True idx ta' Suc.prems show ?thesis
      unfolding idx_def lowered_def by blast
  next
    case False
    then have z: "attrs ta ! idx = 0" by (simp add: word_greater_zero_iff)
    have all: "\<forall>j<Suc k. attrs ta ! ((org + j) mod n) = 0"
      using Suc.prems(2) z by (auto simp: idx_def less_Suc_eq)
    have step: "lower_loop n org idx ta =
        (if Suc k = n then ret (False, ta) else lower_loop n org ((org + Suc k) mod n) ta)"
      using get z cyclic_next [OF assms(3) Suc.prems(1)]
      by (subst lower_loop.simps) (simp add: idx_def Let_def)
    show ?thesis
    proof (cases "Suc k = n")
      case True
      then have "\<forall>i<n. attrs ta ! i = 0"
        using all cyclic_covers [OF assms(3)] by metis
      with step True show ?thesis by (simp add: idx_def)
    next
      case False
      have "m = n - Suc k" "Suc k < n" using Suc.hyps(2) Suc.prems(1) False by auto
      from Suc.hyps(1) [OF this all] step False show ?thesis by (simp add: idx_def)
    qed
  qed
qed

lemma lower_by_attr_result:
  fixes g :: rng
  assumes "hist_ok n ta" and "0 < n" and "n \<le> MAX_TASKS"
  defines "s \<equiv> unat (drawn (of_nat n) g 0)"
  shows "(lower_utilization_by_attr n ta g = ret (False, ta, \<lambda>i. g (Suc i)) \<and> (\<forall>i<n. attrs ta ! i = 0))
    \<or> (\<exists>k<n. \<exists>ta'. lower_utilization_by_attr n ta g = ret (True, ta', \<lambda>i. g (Suc i))
         \<and> (\<forall>j<k. attrs ta ! ((s + j) mod n) = 0) \<and> lowered n ta ((s + k) mod n) ta')"
proof -
  have n: "unat (of_nat n :: u32) = n" "(of_nat n :: u32) \<noteq> 0"
    using unat_of_nat_u32 [of n] assms by (auto simp: caps)
  have s: "s < n" using u32_mod_less [OF n(2)] n(1) by (simp add: s_def drawn_def word_less_nat_alt)
  have run: "lower_utilization_by_attr n ta g =
      run_bind (lower_loop n s ((s + 0) mod n) ta) (\<lambda>(b, ta). ret (b, ta, \<lambda>i. g (Suc i)))"
    using n(2) s by (simp add: lower_utilization_by_attr_def get_rand_eq drawn_def s_def)
  have none: "\<forall>j<0. attrs ta ! ((s + j) mod n) = 0" by simp
  show ?thesis
    using lower_loop_spec [OF assms(1,3) s assms(2) none] unfolding run
    by (elim disjE exE conjE) (simp only: run_bind.simps split_conv, blast)+
qed

lemma lower_by_attr_cases:
  assumes "hist_ok n ta" and "0 < n" and "n \<le> MAX_TASKS"
  obtains "lower_utilization_by_attr n ta g = ret (False, ta, \<lambda>i. g (Suc i))" "\<forall>i<n. attrs ta ! i = 0"
  | i ta' where "lower_utilization_by_attr n ta g = ret (True, ta', \<lambda>i. g (Suc i))" "lowered n ta i ta'"
  using lower_by_attr_result [OF assms, of g] by blast

text \<open>\<open>lower_utilization_by_attr\<close> always returns: it lowers by one the attribute of the
  first task, in cyclic order from a random one, whose attribute is not zero, and keeps the
  histogram; it returns \<open>FALSE\<close> and changes nothing exactly when every attribute is zero.\<close>

theorem lower_utilization_by_attr_total:
  assumes "hist_ok n ta" and "0 < n" and "n \<le> MAX_TASKS"
  shows "\<exists>ta' g'. let start = unat (drawn (of_nat n) g 0) in
      (lower_utilization_by_attr n ta g = ret (False, ta, g') \<and> (\<forall>i<n. attrs ta ! i = 0))
      \<or> (lower_utilization_by_attr n ta g = ret (True, ta', g')
         \<and> (\<exists>k<n. (\<forall>j<k. attrs ta ! ((start + j) mod n) = 0) \<and> lowered n ta ((start + k) mod n) ta'))"
  unfolding Let_def using lower_by_attr_result [OF assms, of g] by blast

theorem lower_utilization_by_attr_total_witness:
  "\<exists>ta' g'. let start = unat (drawn (of_nat 1) (\<lambda>_. 0) 0) in
      (lower_utilization_by_attr 1 (one_task 1) (\<lambda>_. 0) = ret (False, one_task 1, g')
         \<and> (\<forall>i<1. attrs (one_task 1) ! i = 0))
      \<or> (lower_utilization_by_attr 1 (one_task 1) (\<lambda>_. 0) = ret (True, ta', g')
         \<and> (\<exists>k<1. (\<forall>j<k. attrs (one_task 1) ! ((start + j) mod 1) = 0)
              \<and> lowered 1 (one_task 1) ((start + k) mod 1) ta'))"
  by (rule lower_utilization_by_attr_total) (use one_task_ok [of 1] in \<open>simp_all add: caps\<close>)

section \<open>Balancing memory types\<close>

lemma find_typed_ok:
  assumes "i \<le> n" and "n \<le> length as"
    and "unat k < count_list (map unat (drop i (take n as))) (unat mt)"
  shows "\<exists>j. find_typed as mt n i k = Inr j \<and> j < n \<and> unat (as ! j) = unat mt"
  using assms
proof (induction "n - i" arbitrary: i k)
  case 0
  then show ?case by simp
next
  case (Suc m)
  then have lt: "i < n" by simp
  then have d: "drop i (take n as) = as ! i # drop (Suc i) (take n as)"
    using Suc.prems(2) by (simp add: Cons_nth_drop_Suc [symmetric] drop_take [symmetric])
  have eq: "u32_of_u8 (as ! i) = mt \<longleftrightarrow> unat (as ! i) = unat mt"
    by (simp add: word_unat_eq_iff)
  show ?case
  proof (cases "u32_of_u8 (as ! i) = mt")
    case True
    have "unat (k - 1) < count_list (map unat (drop (Suc i) (take n as))) (unat mt)" if "k \<noteq> 0"
    proof -
      have "0 < unat k" using that by (simp add: unat_gt_0)
      moreover have "unat k < Suc (count_list (map unat (drop (Suc i) (take n as))) (unat mt))"
        using Suc.prems(3) True eq by (simp add: d)
      ultimately show ?thesis by (simp add: unat_dec32)
    qed
    with Suc.hyps(1) [of "Suc i" "k - 1"] Suc.hyps(2) Suc.prems lt True eq show ?thesis
      by (subst find_typed.simps) auto
  next
    case False
    with Suc.hyps(1) [of "Suc i" k] Suc.hyps(2) Suc.prems lt eq d show ?thesis
      by (subst find_typed.simps) auto
  qed
qed

text \<open>What a call that returns has done: one task of the recorded type has another one.\<close>

definition rebalanced :: "nat \<Rightarrow> u32 \<Rightarrow> taskattrs_t \<Rightarrow> taskattrs_t \<Rightarrow> bool" where
  "rebalanced n w ta ta' =
     (\<exists>i<n. \<exists>v. unat (attrs ta ! i) = unat (max_type ta) \<and> u32_of_u8 v \<noteq> max_type ta
        \<and> unat v < unat w \<and> attrs ta' = (attrs ta)[i := v] \<and> hist_ok n ta')"

lemma balance_found:
  assumes "hist_ok n ta" and "n \<le> MAX_TASKS" and "0 < n_tasks_per_type ta ! unat (max_type ta)"
  shows "\<exists>i. balance_mem_types n w ta g =
      run_bind (get_rand_except w (max_type ta) (\<lambda>i. g (Suc i))) (\<lambda>(t, g).
      run_bind (Some (arr_set (attrs ta) i (u8_of_u32 t))) (\<lambda>as.
      run_bind (Some (recount (max_type ta) t (ta\<lparr>attrs := as\<rparr>))) (\<lambda>ta. ret (ta, g))))
    \<and> i < n \<and> unat (attrs ta ! i) = unat (max_type ta)"
proof -
  define cnt where "cnt = n_tasks_per_type ta ! unat (max_type ta)"
  have h: "length (attrs ta) = MAX_TASKS" "length (n_tasks_per_type ta) = MAX_ATTRTYPES"
    "unat (max_type ta) < MAX_ATTRTYPES" "unat cnt = tally (attrs ta) n (unat (max_type ta))"
    using assms(1) by (auto simp: hist_ok_def cnt_def)
  have nz: "cnt \<noteq> 0" using assms(3) by (simp add: cnt_def word_greater_zero_iff)
  define k where "k = drawn cnt g 0"
  have draw: "get_rand cnt g = Inr (k, \<lambda>i. g (Suc i))"
    using nz by (simp add: get_rand_eq drawn_def k_def)
  have "unat k < count_list (map unat (drop 0 (take n (attrs ta)))) (unat (max_type ta))"
    using u32_mod_less [OF nz] h(4) by (simp add: k_def drawn_def word_less_nat_alt tally_def)
  then obtain i where i: "find_typed (attrs ta) (max_type ta) n 0 k = Inr i" "i < n"
    "unat (attrs ta ! i) = unat (max_type ta)"
    using find_typed_ok [of 0 n "attrs ta" k "max_type ta"] assms(2) h(1) by auto
  show ?thesis
    using i draw h nz unfolding balance_mem_types_def cnt_def
    by (intro exI [of _ i]) (simp add: word_greater_zero_iff)
qed

lemma balance_moves_one:
  assumes "hist_ok n ta" and "n \<le> MAX_TASKS" and "0 < n_tasks_per_type ta ! unat (max_type ta)"
    and "w \<noteq> 0" and "unat w \<le> MAX_ATTRTYPES" and "drawn w g (Suc k) \<noteq> max_type ta"
  shows "\<exists>ta' g'. balance_mem_types n w ta g = ret (ta', g') \<and> rebalanced n w ta ta' \<and> fair g' = fair g"
proof -
  obtain i where i: "balance_mem_types n w ta g =
      run_bind (get_rand_except w (max_type ta) (\<lambda>i. g (Suc i))) (\<lambda>(t, g).
      run_bind (Some (arr_set (attrs ta) i (u8_of_u32 t))) (\<lambda>as.
      run_bind (Some (recount (max_type ta) t (ta\<lparr>attrs := as\<rparr>))) (\<lambda>ta. ret (ta, g))))"
    "i < n" "unat (attrs ta ! i) = unat (max_type ta)"
    using balance_found [OF assms(1-3)] by blast
  have "drawn w (\<lambda>i. g (Suc i)) k \<noteq> max_type ta" using assms(6) by (simp add: drawn_def)
  from get_rand_except_returns [OF assms(4) this] obtain t g' where
    t: "get_rand_except w (max_type ta) (\<lambda>i. g (Suc i)) = ret (t, g')"
    and fair: "fair g' = fair g" by auto
  from t have tw: "t < w" "t \<noteq> max_type ta" using get_rand_except_sound by blast+
  have ut: "unat (u8_of_u32 t) = unat t"
    using u8_of_u32_small [OF tw(1)] assms(5) by (simp add: caps)
  then have same: "u32_of_u8 (u8_of_u32 t) = t" and old: "u32_of_u8 (attrs ta ! i) = max_type ta"
    using i(3) by (simp_all add: word_unat_eq_iff)
  have len: "i < length (attrs ta)" using i(2) assms(1,2) by (simp add: hist_ok_def)
  have small: "unat (u8_of_u32 t) < unat w" using tw(1) ut by (simp add: word_less_nat_alt)
  have "attrs ta ! i \<noteq> u8_of_u32 t" using same old tw(2) by auto
  then obtain ta' where ta': "recount (max_type ta) t (ta\<lparr>attrs := (attrs ta)[i := u8_of_u32 t]\<rparr>) = Inr ta'"
    "attrs ta' = (attrs ta)[i := u8_of_u32 t]" "hist_ok n ta'"
    using recount_ok [OF assms(1) i(2) assms(2), of "u8_of_u32 t"] small assms(5)
    unfolding same old by auto
  have "rebalanced n w ta ta'"
    unfolding rebalanced_def
    by (intro exI [of _ i] conjI exI [of _ "u8_of_u32 t"]) (use i(2,3) same tw(2) small ta' in auto)
  moreover have "balance_mem_types n w ta g = ret (ta', g')"
    using i(1) t len ta'(1) by simp
  ultimately show ?thesis using fair by blast
qed

lemma balance_fair:
  assumes "hist_ok n ta" and "n \<le> MAX_TASKS" and "2 \<le> unat w" and "unat w \<le> MAX_ATTRTYPES" and "fair g"
  shows "\<exists>ta' g'. balance_mem_types n w ta g = ret (ta', g') \<and> fair g'
    \<and> (ta' = ta \<or> rebalanced n w ta ta')"
proof (cases "0 < n_tasks_per_type ta ! unat (max_type ta)")
  case True
  define v :: u32 where "v = (if max_type ta = 0 then 1 else 0)"
  have v: "v < w" "v \<noteq> max_type ta" using assms(3) by (auto simp: v_def word_less_nat_alt)
  have le: "unat w \<le> 2 ^ 31" using assms(4) by (simp add: caps)
  obtain m where m: "1 \<le> m" "drawn w g m = v" using fair_draws [OF assms(5) v(1) le] by blast
  then obtain k where k: "m = Suc k" by (cases m) auto
  have "w \<noteq> 0" using assms(3) by auto
  from balance_moves_one [OF assms(1,2) True this assms(4), of g k] m(2) v(2) assms(5) show ?thesis
    unfolding k by auto
next
  case False
  then show ?thesis using assms(1,5) by (simp add: balance_mem_types_def hist_ok_def)
qed

text \<open>C27. With a histogram that is right, \<open>balance_mem_types\<close> returns as soon as the generator
  yields a memory other than the recorded one, and then moves exactly one task of that type to
  another existing memory; the histogram stays right.\<close>

theorem balance_mem_types_moves_one:
  assumes "hist_ok n ta" and "n \<le> MAX_TASKS" and "0 < n_tasks_per_type ta ! unat (max_type ta)"
    and "w \<noteq> 0" and "unat w \<le> MAX_ATTRTYPES" and "drawn w g (Suc k) \<noteq> max_type ta"
  shows "\<exists>ta' g'. balance_mem_types n w ta g = ret (ta', g') \<and> rebalanced n w ta ta'"
  using balance_moves_one [OF assms] by blast

theorem balance_mem_types_moves_one_witness:
  "\<exists>ta' g'. balance_mem_types 1 2 (one_task 1) (\<lambda>_. 0) = ret (ta', g') \<and> rebalanced 1 2 (one_task 1) ta'"
  by (rule balance_mem_types_moves_one [where k = 0])
     (use one_task_ok [of 1] in \<open>simp_all add: caps one_task_def drawn_def\<close>)

text \<open>With a single memory \<open>balance_mem_types\<close> never returns: no draw differs from it.\<close>

theorem balance_single_memory_loops:
  assumes "hist_ok n ta" and "n \<le> MAX_TASKS" and "0 < n_tasks_per_type ta ! unat (max_type ta)"
    and "max_type ta = 0"
  shows "balance_mem_types n 1 ta g = None"
proof -
  have "get_rand_except 1 (max_type ta) (\<lambda>i. g (Suc i)) = None"
    using assms(4) by (intro get_rand_except_loops) (simp_all add: drawn_def)
  with balance_found [OF assms(1-3), of 1 g] show ?thesis by auto
qed

theorem balance_single_memory_loops_witness: "balance_mem_types 1 1 (one_task 0) (\<lambda>_. 0) = None"
  by (rule balance_single_memory_loops)
     (use one_task_ok [of 0] in \<open>simp_all add: caps one_task_def\<close>)

text \<open>Four tasks, two of type 0 and two of type 1.\<close>

definition two_and_two :: taskattrs_t where
  "two_and_two = \<lparr>attrs = [0, 0, 1, 1] @ replicate (MAX_TASKS - 4) 0,
     n_tasks_per_type = [2, 2, 0, 0, 0], max_type = 0\<rparr>"

text \<open>With three memories the recorded type can stop being the most used one: after a task
  moved from it to a third memory, only that one is compared with it. From counts 2, 2, 0 with
  type 0 recorded, the counts become 1, 2, 1 and type 0 stays recorded.\<close>

theorem balance_can_lose_the_maximum:
  "hist_ok 4 two_and_two \<and> max_ok two_and_two
   \<and> (\<exists>ta g. balance_mem_types 4 3 two_and_two (\<lambda>i. if i = 1 then 2 else 0) = ret (ta, g)
        \<and> hist_ok 4 ta \<and> \<not> max_ok ta)"
proof (intro conjI)
  show "hist_ok 4 two_and_two"
    by (simp add: hist_ok_def two_and_two_def MAX_TASKS_def MAX_ATTRTYPES_def tally_def
        all_less_4 all_less_5)
  show "max_ok two_and_two"
    by (simp add: max_ok_def two_and_two_def MAX_ATTRTYPES_def all_less_5)
  show "\<exists>ta g. balance_mem_types 4 3 two_and_two (\<lambda>i. if i = 1 then 2 else 0) = ret (ta, g)
        \<and> hist_ok 4 ta \<and> \<not> max_ok ta"
  proof -
    let ?ta = "\<lparr>attrs = [2, 0, 1, 1] @ replicate (MAX_TASKS - 4) 0,
       n_tasks_per_type = [1, 2, 1, 0, 0], max_type = 0\<rparr>"
    have "get_rand_except 3 0 (\<lambda>i. if i = 0 then 2 else 0) = ret (2, \<lambda>i. 0)"
      by (subst get_rand_except_step) (simp_all add: drawn_def)
    then have "balance_mem_types 4 3 two_and_two (\<lambda>i. if i = 1 then 2 else 0) = ret (?ta, \<lambda>i. 0)"
      by (simp add: balance_mem_types_def two_and_two_def caps get_rand_eq find_typed.simps recount_def)
    moreover have "hist_ok 4 ?ta" 
      by (simp add: hist_ok_def MAX_TASKS_def MAX_ATTRTYPES_def tally_def all_less_4 all_less_5)
    moreover have "\<not> max_ok ?ta" by (simp add: max_ok_def MAX_ATTRTYPES_def all_less_5 word_le_nat_alt)
    ultimately show ?thesis by blast
  qed
qed

section \<open>Crossing two chromosomes\<close>

lemma inherit_values_ok:
  assumes "hist_ok n ta1" and "hist_ok n ta2" and "length (attrs newborn) = MAX_TASKS"
    and "n \<le> MAX_TASKS" and "unat k \<le> n"
  shows "\<exists>ta'. inherit_values n newborn ta1 ta2 k = Inr ta' \<and> hist_ok n ta' \<and> max_ok ta'
    \<and> (\<forall>i<n. attrs ta' ! i = (if i < unat k then attrs ta1 ! i else attrs ta2 ! i))"
proof -
  define as where "as = take (unat k) (attrs ta1) @ take (n - unat k) (drop (unat k) (attrs ta2))
      @ drop n (attrs newborn)"
  have len: "length (attrs ta1) = MAX_TASKS" "length (attrs ta2) = MAX_TASKS"
    using assms(1,2) by (simp_all add: hist_ok_def)
  have nth: "\<forall>i<n. as ! i = (if i < unat k then attrs ta1 ! i else attrs ta2 ! i)"
    using assms(4,5) len by (auto simp: as_def nth_append)
  then have "\<forall>i<n. unat (as ! i) < MAX_ATTRTYPES"
    using assms(1,2) by (auto simp: hist_ok_def)
  moreover have "length as = MAX_TASKS" using assms(3-5) len by (simp add: as_def)
  ultimately obtain ta' where ta': "setup_taskattrs n (newborn\<lparr>attrs := as\<rparr>) = Inr ta'"
    "attrs ta' = as" "hist_ok n ta'" "max_ok ta'"
    using setup_taskattrs_ok [of "newborn\<lparr>attrs := as\<rparr>" n] assms(4) by auto
  have "inherit_values n newborn ta1 ta2 k = Inr ta'"
    using ta'(1) assms(3-5) len unfolding as_def by (simp add: inherit_values_def Let_def)
  with ta' nth show ?thesis by auto
qed

text \<open>C28. \<open>inherit_values\<close>: the newborn gets the first parent's attributes below the crossing
  point and the second parent's from there on, with the histogram and a most used type of the
  result, whatever it held before.\<close>

theorem inherit_values_spec:
  assumes "hist_ok n ta1" and "hist_ok n ta2" and "length (attrs newborn) = MAX_TASKS"
    and "n \<le> MAX_TASKS" and "unat k \<le> n"
  shows "\<exists>ta'. inherit_values n newborn ta1 ta2 k = Inr ta' \<and> hist_ok n ta' \<and> max_ok ta'
    \<and> (\<forall>i<n. attrs ta' ! i = (if i < unat k then attrs ta1 ! i else attrs ta2 ! i))"
  by (rule inherit_values_ok [OF assms])

theorem inherit_values_spec_witness:
  "\<exists>ta'. inherit_values 1 zero_taskattrs (one_task 1) (one_task 2) 1 = Inr ta' \<and> hist_ok 1 ta' \<and> max_ok ta'
    \<and> (\<forall>i<1. attrs ta' ! i = (if i < unat (1 :: u32) then attrs (one_task 1) ! i else attrs (one_task 2) ! i))"
  by (rule inherit_values_spec)
     (use one_task_ok [of 1] one_task_ok [of 2] in \<open>simp_all add: caps zero_taskattrs_def\<close>)

end
