(* ===== verification/Gene.thy ===== *)
theory Gene
  imports Task_Util Taskattrs
begin

text \<open>
  One individual of the population, \<open>gene_t\<close>, and the functions of GA.c that evaluate it:
  \<open>check_memusage\<close>, \<open>check_utilpower\<close>, \<open>lower_utilization\<close>. The three list nodes inside
  \<open>gene_t\<close> are addresses of the store in the theory Population. Double sums are accumulated in the order
  of the code; nothing is assumed about rounding.
\<close>

record gene_t =
  taskattrs_mem :: taskattrs_t
  taskattrs_cloud :: taskattrs_t
  taskattrs_cpufreq :: taskattrs_t
  taskattrs_offloadingratio :: taskattrs_t
  g_util :: f64
  g_power :: f64
  g_total_cost :: f64
  g_score :: f64
  g_mem_power :: f64
  g_cpu_power :: f64
  g_power_netcom :: f64
  g_cost_cpu_memory :: f64
  g_cost_network :: f64
  g_cost_base :: f64
  g_cost_hw :: f64
  g_cost_rent :: f64
  g_constraint_penalty :: f64
  g_fitness :: f64
  g_period_violation :: u32

text \<open>A gene fresh from \<open>calloc\<close>.\<close>

definition zero_gene :: gene_t where
  "zero_gene = \<lparr>taskattrs_mem = zero_taskattrs, taskattrs_cloud = zero_taskattrs,
     taskattrs_cpufreq = zero_taskattrs, taskattrs_offloadingratio = zero_taskattrs,
     g_util = 0, g_power = 0, g_total_cost = 0, g_score = 0, g_mem_power = 0, g_cpu_power = 0,
     g_power_netcom = 0, g_cost_cpu_memory = 0, g_cost_network = 0, g_cost_base = 0,
     g_cost_hw = 0, g_cost_rent = 0, g_constraint_penalty = 0, g_fitness = 0,
     g_period_violation = 0\<rparr>"

section \<open>Memory usage\<close>

definition memusage_step :: "conf \<Rightarrow> gene_t \<Rightarrow> nat \<Rightarrow> f64 list \<Rightarrow> f64 list res" where
  "memusage_step c gene i mem_used =
     res_bind (arr_get (attrs (taskattrs_mem gene)) i) (\<lambda>m.
     res_bind (get_task_memreq c i) (\<lambda>memreq.
     res_bind (arr_get (attrs (taskattrs_offloadingratio gene)) i) (\<lambda>r.
     res_bind (get_offloadingratio c (unat r)) (\<lambda>ratio.
     res_bind (arr_get mem_used (unat m)) (\<lambda>used.
     arr_set mem_used (unat m) (used + of_u32 memreq * (1 - ratio)))))))"

text \<open>The second loop: \<open>FALSE\<close> at the first memory that is over its capacity.\<close>

function within_capacity :: "conf \<Rightarrow> f64 list \<Rightarrow> nat \<Rightarrow> bool res" where
  "within_capacity c mem_used i =
     (if i < n_mems c then
        res_bind (arr_get mem_used i) (\<lambda>used.
        res_bind (get_mem c i) (\<lambda>mem.
          if of_u32 (m_max_capacity mem) < used then Inr False
          else within_capacity c mem_used (Suc i)))
      else Inr True)"
  by pat_completeness auto
termination
  by (relation "measure (\<lambda>(c, u, i). n_mems c - i)") auto

declare within_capacity.simps [simp del]

definition check_memusage :: "conf \<Rightarrow> gene_t \<Rightarrow> bool res" where
  "check_memusage c gene =
     res_bind (for_upto (memusage_step c gene) 0 (n_tasks c) (replicate MAX_MEMS 0)) (\<lambda>mem_used.
     within_capacity c mem_used 0)"

section \<open>Utilization, power and cost\<close>

text \<open>The local variables of \<open>check_utilpower\<close> that its loop updates.\<close>

record totals =
  util_new :: f64
  power_new_sum_cpu :: f64
  power_new_sum_mem :: f64
  power_new_sum_net_com :: f64
  violate_period :: int
  num_offloading :: int
  total_cost :: f64
  used_memory :: f64
  remote_delay :: f64

definition zero_totals :: totals where
  "zero_totals = \<lparr>util_new = 0, power_new_sum_cpu = 0, power_new_sum_mem = 0,
     power_new_sum_net_com = 0, violate_period = 0, num_offloading = 0, total_cost = 0,
     used_memory = 0, remote_delay = 0\<rparr>"

definition add_utilpower :: "utilpower \<Rightarrow> u8 \<Rightarrow> totals \<Rightarrow> totals" where
  "add_utilpower u r s =
     (let s = s\<lparr>util_new := util_new s + up_util u,
                power_new_sum_cpu := power_new_sum_cpu s + up_power_cpu u,
                power_new_sum_mem := power_new_sum_mem s + up_power_mem u,
                power_new_sum_net_com := power_new_sum_net_com s + up_power_net_com u\<rparr>
      in if 1 < up_deadline u then
           let s = s\<lparr>violate_period := violate_period s + 1\<rparr>
           in if r \<noteq> 0 then s\<lparr>remote_delay := remote_delay s + (up_deadline u - 1)\<rparr> else s
         else s)"

definition add_cost :: "conf \<Rightarrow> nat \<Rightarrow> u8 \<Rightarrow> u8 \<Rightarrow> u8 \<Rightarrow> gene_t \<times> totals \<Rightarrow> (gene_t \<times> totals) res" where
  "add_cost c i cl f r = (\<lambda>(gene, s).
     if r \<noteq> 0 then
       res_bind (get_cloud c (unat cl)) (\<lambda>cloud.
       res_bind (get_task c i) (\<lambda>task.
       let cost = compute_offloading_cost_per_sec task cloud (lit 30) (lit 120) in
       Inr (gene\<lparr>g_cost_network := g_cost_network gene + cost\<rparr>,
            s\<lparr>total_cost := total_cost s + cost, num_offloading := num_offloading s + 1\<rparr>)))
     else
       res_bind (get_task c i) (\<lambda>task.
       let s = s\<lparr>used_memory := used_memory s + of_u32 (t_memreq task) / lit 1000\<rparr> in
       res_bind (compute_local_cost_per_sec task (unat f)) (\<lambda>cost.
       Inr (gene\<lparr>g_cost_cpu_memory := g_cost_cpu_memory gene + cost\<rparr>,
            s\<lparr>total_cost := total_cost s + cost\<rparr>))))"

definition utilpower_step :: "conf \<Rightarrow> nat \<Rightarrow> gene_t \<times> totals \<Rightarrow> (gene_t \<times> totals) res" where
  "utilpower_step c i = (\<lambda>(gene, s).
     res_bind (arr_get (attrs (taskattrs_mem gene)) i) (\<lambda>m.
     res_bind (arr_get (attrs (taskattrs_cloud gene)) i) (\<lambda>cl.
     res_bind (arr_get (attrs (taskattrs_cpufreq gene)) i) (\<lambda>f.
     res_bind (arr_get (attrs (taskattrs_offloadingratio gene)) i) (\<lambda>r.
     res_bind (get_task_utilpower c i m cl f r) (\<lambda>u.
     add_cost c i cl f r (gene, add_utilpower u r s)))))))"

text \<open>After the loop, lines 311 to 329: memory that no local task uses, baseline, hardware.\<close>

definition add_fixed_costs :: "gene_t \<times> totals \<Rightarrow> gene_t \<times> totals" where
  "add_fixed_costs = (\<lambda>(gene, s).
     let unused_memory = lit 45000 - used_memory s;
         (gene, s) =
           (if 0 < unused_memory then
              let e_static_unused = unused_memory * K_STAT * ALL_Period;
                  cost_static_unused = e_static_unused / lit 3600000 * P_ELEC
              in (gene\<lparr>g_cost_cpu_memory := g_cost_cpu_memory gene + cost_static_unused\<rparr>,
                  s\<lparr>total_cost := total_cost s + cost_static_unused\<rparr>)
            else (gene, s));
         base_cost = P_BASELINE * ALL_Period / lit 3600000 * P_ELEC;
         s = s\<lparr>total_cost := total_cost s + base_cost\<rparr>;
         gene = gene\<lparr>g_cost_base := base_cost\<rparr>;
         private_depreciation_cost = HW_COST / DEP_PERIOD_SEC * ALL_Period
     in (gene\<lparr>g_cost_hw := private_depreciation_cost\<rparr>,
         s\<lparr>total_cost := total_cost s + private_depreciation_cost\<rparr>))"

text \<open>Power, penalty and fitness; the idle power is that of the last (slowest) frequency.\<close>

definition set_power :: "conf \<Rightarrow> gene_t \<times> totals \<Rightarrow> (gene_t \<times> f64) res" where
  "set_power c = (\<lambda>(gene, s).
     let power_new = power_new_sum_cpu s + power_new_sum_mem s + power_new_sum_net_com s;
         gene = gene\<lparr>g_cpu_power := power_new_sum_cpu s, g_mem_power := power_new_sum_mem s,
                     g_power_netcom := power_new_sum_net_com s,
                     g_period_violation := word_of_int (violate_period s)\<rparr>
     in if util_new s < 1 \<and> violate_period s = 0 then
          res_bind (get_cpufreq c (unat (of_nat (n_cpufreqs c) - 1 :: u32))) (\<lambda>slowest.
          let power_new_idle = cf_power_idle slowest * (1 - util_new s)
          in Inr (gene\<lparr>g_cpu_power := g_cpu_power gene + power_new_idle\<rparr>,
                  power_new + power_new_idle))
        else Inr (gene, power_new))"

definition set_fitness :: "totals \<Rightarrow> gene_t \<Rightarrow> gene_t" where
  "set_fitness s gene =
     (let local_overutil = (if 1 < util_new s then util_new s - 1 else 0);
          penalty = local_overutil + MU * remote_delay s
      in gene\<lparr>g_constraint_penalty := penalty,
              g_fitness := 1 / (total_cost s + 1 * penalty),
              g_util := util_new s\<rparr>)"

definition set_score :: "conf \<Rightarrow> totals \<Rightarrow> f64 \<Rightarrow> gene_t \<Rightarrow> bool \<times> gene_t" where
  "set_score c s power_new gene =
     (if util_new s \<le> cutoff c then
        let gene = gene\<lparr>g_power := power_new, g_total_cost := total_cost s, g_score := total_cost s\<rparr>
        in (True,
            if 1 \<le> util_new s \<or> 0 < violate_period s
            then gene\<lparr>g_score := g_score gene + total_cost s * (util_new s - 1) * penalty c\<rparr>
            else gene)
      else (False, gene))"

definition check_utilpower :: "conf \<Rightarrow> gene_t \<Rightarrow> (bool \<times> gene_t) res" where
  "check_utilpower c gene =
     (let gene = gene\<lparr>g_cost_cpu_memory := 0, g_cost_network := 0, g_cost_base := 0,
                      g_cost_hw := 0, g_cost_rent := 0\<rparr>
      in res_bind (for_upto (utilpower_step c) 0 (n_tasks c) (gene, zero_totals)) (\<lambda>gs.
         let (gene, s) = add_fixed_costs gs in
         res_bind (set_power c (gene, s)) (\<lambda>(gene, power_new).
         Inr (set_score c s power_new (set_fitness s gene)))))"

section \<open>Lowering the utilization\<close>

definition lower_cpufreq :: "nat \<Rightarrow> gene_t \<Rightarrow> rng \<Rightarrow> (bool \<times> gene_t \<times> rng) run" where
  "lower_cpufreq n gene g =
     run_bind (lower_utilization_by_attr n (taskattrs_cpufreq gene) g) (\<lambda>(b, ta, g).
     ret (b, gene\<lparr>taskattrs_cpufreq := ta\<rparr>, g))"

definition lower_offloadingratio :: "nat \<Rightarrow> gene_t \<Rightarrow> rng \<Rightarrow> (bool \<times> gene_t \<times> rng) run" where
  "lower_offloadingratio n gene g =
     run_bind (lower_utilization_by_attr n (taskattrs_offloadingratio gene) g) (\<lambda>(b, ta, g).
     ret (b, gene\<lparr>taskattrs_offloadingratio := ta\<rparr>, g))"

definition lower_utilization :: "conf \<Rightarrow> gene_t \<Rightarrow> rng \<Rightarrow> (gene_t \<times> rng) run" where
  "lower_utilization c gene g =
     run_bind (Some (get_rand (of_nat (n_cpufreqs c) + of_nat (n_offloadingratios c)) g)) (\<lambda>(r, g).
     if r < of_nat (n_cpufreqs c) then
       run_bind (lower_cpufreq (n_tasks c) gene g) (\<lambda>(b, gene, g).
       if b then ret (gene, g)
       else run_bind (lower_offloadingratio (n_tasks c) gene g) (\<lambda>(_, gene, g). ret (gene, g)))
     else
       run_bind (lower_offloadingratio (n_tasks c) gene g) (\<lambda>(b, gene, g).
       if b then ret (gene, g)
       else run_bind (lower_cpufreq (n_tasks c) gene g) (\<lambda>(_, gene, g). ret (gene, g))))"

section \<open>What the memory check computes\<close>

text \<open>The table entries that a gene selects for a task.\<close>

abbreviation mem_of :: "gene_t \<Rightarrow> nat \<Rightarrow> u8" where "mem_of gene i \<equiv> attrs (taskattrs_mem gene) ! i"
abbreviation cloud_of :: "gene_t \<Rightarrow> nat \<Rightarrow> u8" where "cloud_of gene i \<equiv> attrs (taskattrs_cloud gene) ! i"
abbreviation freq_of :: "gene_t \<Rightarrow> nat \<Rightarrow> u8" where "freq_of gene i \<equiv> attrs (taskattrs_cpufreq gene) ! i"
abbreviation ratio_of :: "gene_t \<Rightarrow> nat \<Rightarrow> u8" where
  "ratio_of gene i \<equiv> attrs (taskattrs_offloadingratio gene) ! i"

text \<open>The four histograms are right: all that memory safety needs.\<close>

definition gene_safe :: "nat \<Rightarrow> gene_t \<Rightarrow> bool" where
  "gene_safe n gene =
     (hist_ok n (taskattrs_mem gene) \<and> hist_ok n (taskattrs_cloud gene)
      \<and> hist_ok n (taskattrs_cpufreq gene) \<and> hist_ok n (taskattrs_offloadingratio gene))"

lemma hist_ok_reads:
  assumes "hist_ok n ta" and "i < n" and "n \<le> MAX_TASKS"
  shows "arr_get (attrs ta) i = Inr (attrs ta ! i)" and "unat (attrs ta ! i) < MAX_ATTRTYPES"
  using assms by (auto simp: hist_ok_def)

lemma gene_safe_reads:
  assumes "gene_safe n gene" and "i < n" and "n \<le> MAX_TASKS"
  shows "arr_get (attrs (taskattrs_mem gene)) i = Inr (mem_of gene i)"
    and "arr_get (attrs (taskattrs_cloud gene)) i = Inr (cloud_of gene i)"
    and "arr_get (attrs (taskattrs_cpufreq gene)) i = Inr (freq_of gene i)"
    and "arr_get (attrs (taskattrs_offloadingratio gene)) i = Inr (ratio_of gene i)"
    and "unat (mem_of gene i) < 5" and "unat (cloud_of gene i) < 5"
    and "unat (freq_of gene i) < 5" and "unat (ratio_of gene i) < 5"
  using assms hist_ok_reads unfolding gene_safe_def MAX_ATTRTYPES_def by blast+

definition task_mem :: "conf \<Rightarrow> gene_t \<Rightarrow> nat \<Rightarrow> f64" where
  "task_mem c gene i =
     of_u32 (t_memreq (tasks c ! i))
     * (1 - row 0 (offloadingratios c) (unat (ratio_of gene i)))"

definition mem_load :: "conf \<Rightarrow> gene_t \<Rightarrow> nat \<Rightarrow> nat \<Rightarrow> f64" where
  "mem_load c gene n k =
     foldl (\<lambda>u i. if unat (mem_of gene i) = k then u + task_mem c gene i else u) 0 [0..<n]"

lemma mem_load_Suc:
  "mem_load c gene (Suc n) k =
     (if unat (mem_of gene n) = k then mem_load c gene n k + task_mem c gene n else mem_load c gene n k)"
  by (simp add: mem_load_def)

lemma memusage_loop:
  assumes "gene_safe n gene" and "n \<le> MAX_TASKS" and "n = n_tasks c"
  shows "for_upto (memusage_step c gene) 0 n (replicate MAX_MEMS 0)
    = Inr (map (mem_load c gene n) [0..<MAX_MEMS])"
proof -
  define P where "P = (\<lambda>j u. u = map (mem_load c gene j) [0..<MAX_MEMS])"
  have "\<exists>u. for_upto (memusage_step c gene) 0 n (replicate MAX_MEMS 0) = Inr u \<and> P n u"
  proof (rule for_upto_rule [where P = P])
    show "P 0 (replicate MAX_MEMS 0)"
      by (auto simp: P_def mem_load_def intro!: nth_equalityI)
    fix j u assume j: "j < n" and P: "P j u"
    note r = gene_safe_reads [OF assms(1) j assms(2)]
    have "memusage_step c gene j u
        = Inr (u[unat (mem_of gene j) := u ! unat (mem_of gene j) + task_mem c gene j])"
      using r j assms(2,3) P
      by (simp add: memusage_step_def get_task_memreq_def table_reads tab_get_row task_mem_def
          caps P_def)
    moreover have "P (Suc j) (u[unat (mem_of gene j) := u ! unat (mem_of gene j) + task_mem c gene j])"
      using P r(5) by (auto simp: P_def mem_load_Suc caps nth_list_update intro!: nth_equalityI)
    ultimately show "\<exists>u'. memusage_step c gene j u = Inr u' \<and> P (Suc j) u'" by blast
  qed simp
  then show ?thesis by (simp add: P_def)
qed

lemma within_capacity_eq:
  assumes "n_mems c \<le> length used" and "n_mems c \<le> MAX_MEMS"
  shows "within_capacity c used i
    = Inr (\<forall>k. i \<le> k \<longrightarrow> k < n_mems c \<longrightarrow> \<not> of_u32 (m_max_capacity (mems c ! k)) < used ! k)"
proof (induction "n_mems c - i" arbitrary: i)
  case 0
  then show ?case by (simp add: within_capacity.simps [of c used i])
next
  case (Suc m)
  then have lt: "i < n_mems c" by simp
  have "m = n_mems c - Suc i" using Suc.hyps(2) by simp
  note IH = Suc.hyps(1) [OF this]
  have "within_capacity c used i
      = (if of_u32 (m_max_capacity (mems c ! i)) < used ! i then Inr False
         else within_capacity c used (Suc i))"
    using lt assms by (simp add: within_capacity.simps [of c used i] get_mem_def)
  then show ?case unfolding IH all_from_Suc [OF lt] by simp
qed

lemma check_memusage_eq:
  assumes "conf_ok c" and "gene_safe (n_tasks c) gene"
  shows "check_memusage c gene = Inr (\<forall>k<n_mems c.
           \<not> of_u32 (m_max_capacity (mems c ! k)) < mem_load c gene (n_tasks c) k)"
proof -
  have n: "n_tasks c \<le> MAX_TASKS" and m: "n_mems c \<le> MAX_MEMS"
    using assms(1) by (simp_all add: conf_ok_def)
  have "within_capacity c (map (mem_load c gene (n_tasks c)) [0..<MAX_MEMS]) 0
      = Inr (\<forall>k. 0 \<le> k \<longrightarrow> k < n_mems c \<longrightarrow> \<not> of_u32 (m_max_capacity (mems c ! k))
              < map (mem_load c gene (n_tasks c)) [0..<MAX_MEMS] ! k)"
    using m by (intro within_capacity_eq) simp_all
  then show ?thesis using m by (auto simp: check_memusage_def memusage_loop [OF assms(2) n])
qed

lemma check_memusage_total:
  "conf_ok c \<Longrightarrow> gene_safe (n_tasks c) gene \<Longrightarrow> \<exists>b. check_memusage c gene = Inr b"
  by (simp add: check_memusage_eq)

text \<open>C29. \<open>check_memusage\<close> always returns, and says whether every memory holds its tasks: the
  sum, in task order, of the requirements left after offloading does not exceed the capacity.\<close>

theorem check_memusage_iff_fits:
  assumes "conf_ok c" and "gene_safe (n_tasks c) gene"
  shows "check_memusage c gene = Inr (\<forall>k<n_mems c.
           \<not> of_u32 (m_max_capacity (mems c ! k)) < mem_load c gene (n_tasks c) k)"
  by (rule check_memusage_eq [OF assms])

section \<open>What the evaluation computes\<close>

text \<open>The entries selected for task \<open>i\<close>, its utilization record, and whether it is accepted.\<close>

definition task_up :: "conf \<Rightarrow> gene_t \<Rightarrow> nat \<Rightarrow> utilpower" where
  "task_up c gene i =
     utilpower_of (tasks c ! i) (row zero_mem (mems c) (unat (mem_of gene i)))
       (row zero_cloud (clouds c) (unat (cloud_of gene i)))
       (row zero_cpufreq (cpufreqs c) (unat (freq_of gene i)))
       (row zero_network (networks c) i) (row zero_net_commander (net_commanders c) i)"

definition task_fits :: "conf \<Rightarrow> gene_t \<Rightarrow> nat \<Rightarrow> bool" where
  "task_fits c gene i =
     (\<not> of_u32 (t_period (tasks c ! i))
        \<le> wcet_scaled_of (tasks c ! i)
            (row zero_cpufreq (cpufreqs c) (unat (freq_of gene i)))
            (row zero_mem (mems c) (unat (mem_of gene i))))"

definition gene_util :: "conf \<Rightarrow> gene_t \<Rightarrow> nat \<Rightarrow> f64" where
  "gene_util c gene n = foldl (\<lambda>u i. u + up_util (task_up c gene i)) 0 [0..<n]"

lemma gene_util_Suc: "gene_util c gene (Suc n) = gene_util c gene n + up_util (task_up c gene n)"
  by (simp add: gene_util_def)

text \<open>Genes that select the same entries.\<close>

definition same_choice :: "gene_t \<Rightarrow> gene_t \<Rightarrow> bool" where
  "same_choice gene gene' =
     (taskattrs_mem gene' = taskattrs_mem gene \<and> taskattrs_cloud gene' = taskattrs_cloud gene
      \<and> taskattrs_cpufreq gene' = taskattrs_cpufreq gene
      \<and> taskattrs_offloadingratio gene' = taskattrs_offloadingratio gene)"

definition all_local :: "nat \<Rightarrow> gene_t \<Rightarrow> bool" where
  "all_local n gene = (\<forall>i<n. ratio_of gene i = 0)"

lemma get_task_utilpower_eq:
  assumes "i < n_tasks c" and "n_tasks c \<le> MAX_TASKS" and "gene_safe (n_tasks c) gene"
  shows "get_task_utilpower c i (mem_of gene i) (cloud_of gene i) (freq_of gene i) (ratio_of gene i)
    = (if task_fits c gene i then Inr (task_up c gene i) else Inl (Fatal 3))"
  using gene_safe_reads [OF assms(3,1,2)] assms(1,2)
  by (simp add: get_task_utilpower_def table_reads tab_get_row task_fits_def task_up_def caps)

text \<open>The part of the gene that the loop leaves alone, and the sums so far.\<close>

definition loop_inv :: "conf \<Rightarrow> gene_t \<Rightarrow> nat \<Rightarrow> gene_t \<times> totals \<Rightarrow> bool" where
  "loop_inv c gene j = (\<lambda>(gene', s).
     same_choice gene gene' \<and> g_power gene' = g_power gene \<and> g_score gene' = g_score gene
     \<and> g_total_cost gene' = g_total_cost gene
     \<and> util_new s = gene_util c gene j \<and> violate_period s = 0 \<and> remote_delay s = 0
     \<and> (all_local j gene \<longrightarrow> g_cost_network gene' = g_cost_network gene
          \<and> num_offloading s = 0 \<and> total_cost s = g_cost_cpu_memory gene'))"

lemma add_cost_ok:
  assumes "i < n_tasks c" and "n_tasks c \<le> MAX_TASKS" and "gene_safe (n_tasks c) gene"
  shows "\<exists>x y z. add_cost c i (cloud_of gene i) (freq_of gene i) (ratio_of gene i) (gene', s) =
     Inr (if ratio_of gene i \<noteq> 0
          then (gene'\<lparr>g_cost_network := x\<rparr>, s\<lparr>total_cost := y, num_offloading := z\<rparr>)
          else (gene'\<lparr>g_cost_cpu_memory := g_cost_cpu_memory gene' + x\<rparr>,
                s\<lparr>used_memory := y, total_cost := total_cost s + x\<rparr>))"
  using gene_safe_reads [OF assms(3,1,2)] assms(1,2)
  by (auto simp: add_cost_def table_reads tab_get_row caps local_cost_unfold Let_def)

lemma utilpower_step_inv:
  assumes "i < n_tasks c" and "n_tasks c \<le> MAX_TASKS" and "gene_safe (n_tasks c) gene"
    and "loop_inv c gene i s"
  shows "if task_fits c gene i
     then \<exists>s'. utilpower_step c i s = Inr s' \<and> loop_inv c gene (Suc i) s'
     else utilpower_step c i s = Inl (Fatal 3)"
proof -
  obtain gene' t where s: "s = (gene', t)" by fastforce
  have same: "same_choice gene gene'" using assms(4) by (simp add: loop_inv_def s)
  note r = gene_safe_reads [OF assms(3,1,2)]
  have step: "utilpower_step c i s =
      (if task_fits c gene i
       then add_cost c i (cloud_of gene i) (freq_of gene i) (ratio_of gene i)
              (gene', add_utilpower (task_up c gene i) (ratio_of gene i) t)
       else Inl (Fatal 3))"
    using same r get_task_utilpower_eq [OF assms(1-3)]
    by (simp add: utilpower_step_def s same_choice_def)
  have up: "add_utilpower (task_up c gene i) (ratio_of gene i) t =
      t\<lparr>util_new := util_new t + up_util (task_up c gene i),
        power_new_sum_cpu := power_new_sum_cpu t + up_power_cpu (task_up c gene i),
        power_new_sum_mem := power_new_sum_mem t + up_power_mem (task_up c gene i),
        power_new_sum_net_com := power_new_sum_net_com t + up_power_net_com (task_up c gene i)\<rparr>"
    using up_deadline_not_above by (simp add: add_utilpower_def task_up_def Let_def)
  obtain x y z where cost: "add_cost c i (cloud_of gene i) (freq_of gene i) (ratio_of gene i)
        (gene', add_utilpower (task_up c gene i) (ratio_of gene i) t) =
     Inr (if ratio_of gene i \<noteq> 0
          then (gene'\<lparr>g_cost_network := x\<rparr>, add_utilpower (task_up c gene i) (ratio_of gene i) t
                  \<lparr>total_cost := y, num_offloading := z\<rparr>)
          else (gene'\<lparr>g_cost_cpu_memory := g_cost_cpu_memory gene' + x\<rparr>,
                (add_utilpower (task_up c gene i) (ratio_of gene i) t)
                  \<lparr>used_memory := y,
                   total_cost := total_cost (add_utilpower (task_up c gene i) (ratio_of gene i) t) + x\<rparr>))"
    using add_cost_ok [OF assms(1-3)] by blast
  have "all_local (Suc i) gene \<longleftrightarrow> all_local i gene \<and> ratio_of gene i = 0"
    by (auto simp: all_local_def less_Suc_eq)
  then show ?thesis
    using assms(4) cost unfolding step up
    by (auto simp: loop_inv_def s same_choice_def gene_util_Suc)
qed

lemma add_fixed_costs_eq:
  "\<exists>z b h t. add_fixed_costs (gene, s) =
     (gene\<lparr>g_cost_cpu_memory := z, g_cost_base := b, g_cost_hw := h\<rparr>, s\<lparr>total_cost := t\<rparr>)
     \<and> (total_cost s = g_cost_cpu_memory gene \<longrightarrow> t = z + b + h)"
proof -
  define u where "u = lit 45000 - used_memory s"
  define e where "e = u * K_STAT * ALL_Period / lit 3600000 * P_ELEC"
  define b where "b = P_BASELINE * ALL_Period / lit 3600000 * P_ELEC"
  define h where "h = HW_COST / DEP_PERIOD_SEC * ALL_Period"
  define plus where "plus = (\<lambda>x. if 0 < u then x + e else x)"
  have "add_fixed_costs (gene, s) =
      (gene\<lparr>g_cost_cpu_memory := plus (g_cost_cpu_memory gene), g_cost_base := b, g_cost_hw := h\<rparr>,
       s\<lparr>total_cost := plus (total_cost s) + b + h\<rparr>)"
    by (simp add: add_fixed_costs_def Let_def u_def [symmetric] e_def [symmetric]
        b_def [symmetric] h_def [symmetric] plus_def)
  moreover have "total_cost s = g_cost_cpu_memory gene
      \<longrightarrow> plus (total_cost s) + b + h = plus (g_cost_cpu_memory gene) + b + h"
    by simp
  ultimately show ?thesis by blast
qed

lemma last_cpufreq:
  assumes "0 < n_cpufreqs c" and "n_cpufreqs c \<le> MAX_CPU_FREQS"
  shows "get_cpufreq c (unat (of_nat (n_cpufreqs c) - 1 :: u32)) = Inr (last (cpufreqs c))"
proof -
  have u: "unat (of_nat (n_cpufreqs c) :: u32) = n_cpufreqs c"
    using assms(2) by (intro unat_of_nat_u32) (simp add: caps)
  then have "unat (of_nat (n_cpufreqs c) - 1 :: u32) = n_cpufreqs c - 1"
    using assms(1) by (simp add: unat_dec32)
  with assms show ?thesis by (simp add: get_cpufreq_def last_conv_nth)
qed

lemma set_power_eq:
  assumes "0 < n_cpufreqs c" and "n_cpufreqs c \<le> MAX_CPU_FREQS"
  shows "\<exists>p x. set_power c (gene, s) = Inr (gene\<lparr>g_cpu_power := x, g_mem_power := power_new_sum_mem s,
      g_power_netcom := power_new_sum_net_com s, g_period_violation := word_of_int (violate_period s)\<rparr>, p)"
  unfolding set_power_def using last_cpufreq [OF assms]
  by (auto simp: Let_def intro!: exI gene_t.equality)

text \<open>The complete result of \<open>check_utilpower\<close>: its verdict and what it leaves in the gene.\<close>

definition score_of :: "conf \<Rightarrow> f64 \<Rightarrow> f64 \<Rightarrow> f64" where
  "score_of c util cost = (if 1 \<le> util then cost + cost * (util - 1) * penalty c else cost)"

definition evaluated :: "conf \<Rightarrow> gene_t \<Rightarrow> bool \<Rightarrow> gene_t \<Rightarrow> bool" where
  "evaluated c gene b gene' =
     (same_choice gene gene'
      \<and> g_util gene' = gene_util c gene (n_tasks c)
      \<and> b = (gene_util c gene (n_tasks c) \<le> cutoff c)
      \<and> g_period_violation gene' = 0
      \<and> (if b then g_score gene' = score_of c (g_util gene') (g_total_cost gene')
         else g_power gene' = g_power gene \<and> g_total_cost gene' = g_total_cost gene
              \<and> g_score gene' = g_score gene)
      \<and> (all_local (n_tasks c) gene \<longrightarrow> g_cost_network gene' = 0
           \<and> (b \<longrightarrow> g_total_cost gene' = g_cost_cpu_memory gene' + g_cost_base gene' + g_cost_hw gene')))"

lemma check_utilpower_cases:
  assumes "conf_ok c" and "gene_safe (n_tasks c) gene" and "0 < n_cpufreqs c"
  shows "if \<forall>i<n_tasks c. task_fits c gene i
    then \<exists>b gene'. check_utilpower c gene = Inr (b, gene') \<and> evaluated c gene b gene'
    else check_utilpower c gene = Inl (Fatal 3)"
proof -
  let ?n = "n_tasks c"
  have n: "?n \<le> MAX_TASKS" "n_cpufreqs c \<le> MAX_CPU_FREQS" using assms(1) by (simp_all add: conf_ok_def)
  define gene0 where "gene0 = gene\<lparr>g_cost_cpu_memory := 0, g_cost_network := 0, g_cost_base := 0,
      g_cost_hw := 0, g_cost_rent := 0\<rparr>"
  have safe: "gene_safe ?n gene0" using assms(2) by (simp add: gene0_def gene_safe_def)
  have fits: "task_fits c gene0 = task_fits c gene" by (intro ext) (simp add: task_fits_def gene0_def)
  have util: "gene_util c gene0 = gene_util c gene"
    by (intro ext) (simp add: gene_util_def task_up_def gene0_def)
  have run: "check_utilpower c gene =
      res_bind (for_upto (utilpower_step c) 0 ?n (gene0, zero_totals)) (\<lambda>gs.
         let (gene, s) = add_fixed_costs gs in
         res_bind (set_power c (gene, s)) (\<lambda>(gene, power_new).
         Inr (set_score c s power_new (set_fitness s gene))))"
    by (simp add: check_utilpower_def gene0_def)
  have init: "loop_inv c gene0 0 (gene0, zero_totals)"
    by (simp add: loop_inv_def same_choice_def zero_totals_def gene_util_def gene0_def)
  have loop: "if \<forall>j. 0 \<le> j \<longrightarrow> j < ?n \<longrightarrow> task_fits c gene0 j
      then \<exists>s'. for_upto (utilpower_step c) 0 ?n (gene0, zero_totals) = Inr s' \<and> loop_inv c gene0 ?n s'
      else for_upto (utilpower_step c) 0 ?n (gene0, zero_totals) = Inl (Fatal 3)"
    by (rule for_upto_either [where P = "loop_inv c gene0"])
       (rule init, simp, rule utilpower_step_inv [OF _ n(1) safe])
  show ?thesis
  proof (cases "\<forall>i<?n. task_fits c gene i")
    case False
    with loop run fits show ?thesis by auto
  next
    case True
    with loop fits obtain g1 s1 where l: "for_upto (utilpower_step c) 0 ?n (gene0, zero_totals) = Inr (g1, s1)"
      "loop_inv c gene0 ?n (g1, s1)" by auto
    obtain z b h t where f: "add_fixed_costs (g1, s1) =
        (g1\<lparr>g_cost_cpu_memory := z, g_cost_base := b, g_cost_hw := h\<rparr>, s1\<lparr>total_cost := t\<rparr>)"
      "total_cost s1 = g_cost_cpu_memory g1 \<longrightarrow> t = z + b + h"
      using add_fixed_costs_eq by blast
    obtain p x where p: "set_power c (g1\<lparr>g_cost_cpu_memory := z, g_cost_base := b, g_cost_hw := h\<rparr>,
        s1\<lparr>total_cost := t\<rparr>) =
      Inr (g1\<lparr>g_cost_cpu_memory := z, g_cost_base := b, g_cost_hw := h,
             g_cpu_power := x, g_mem_power := power_new_sum_mem s1,
             g_power_netcom := power_new_sum_net_com s1,
             g_period_violation := word_of_int (violate_period s1)\<rparr>, p)"
      using set_power_eq [OF assms(3) n(2), of "g1\<lparr>g_cost_cpu_memory := z, g_cost_base := b, g_cost_hw := h\<rparr>"
          "s1\<lparr>total_cost := t\<rparr>"] by auto
    define r where "r = set_score c (s1\<lparr>total_cost := t\<rparr>) p (set_fitness (s1\<lparr>total_cost := t\<rparr>)
      (g1\<lparr>g_cost_cpu_memory := z, g_cost_base := b, g_cost_hw := h,
             g_cpu_power := x, g_mem_power := power_new_sum_mem s1,
             g_power_netcom := power_new_sum_net_com s1,
             g_period_violation := word_of_int (violate_period s1)\<rparr>))"
    have "check_utilpower c gene = Inr r" unfolding run l(1) r_def by (simp add: f p)
    moreover have "evaluated c gene (fst r) (snd r)"
      using l(2) f(2) unfolding r_def evaluated_def loop_inv_def util
      by (auto simp: set_score_def set_fitness_def Let_def same_choice_def score_of_def gene0_def
          all_local_def)
    ultimately show ?thesis using True by (cases r) auto
  qed
qed

text \<open>A gene for the configuration \<open>demo_conf\<close>.\<close>

definition demo_gene :: gene_t where
  "demo_gene = zero_gene\<lparr>taskattrs_mem := one_task 0, taskattrs_cloud := one_task 0,
     taskattrs_cpufreq := one_task 0, taskattrs_offloadingratio := one_task 0\<rparr>"

lemma demo_gene_safe: "gene_safe 1 demo_gene"
  using one_task_ok [of 0] by (simp add: gene_safe_def demo_gene_def)

theorem check_memusage_iff_fits_witness:
  "check_memusage demo_conf demo_gene = Inr (\<forall>k<n_mems demo_conf.
     \<not> of_u32 (m_max_capacity (mems demo_conf ! k)) < mem_load demo_conf demo_gene (n_tasks demo_conf) k)"
  by (rule check_memusage_iff_fits) (use demo_conf_ok demo_gene_safe in simp_all)

lemma demo_fits: "task_fits demo_conf demo_gene 0"
proof -
  have "wcet_scaled_of (tasks demo_conf ! 0)
      (row zero_cpufreq (cpufreqs demo_conf) (unat (freq_of demo_gene 0)))
      (row zero_mem (mems demo_conf) (unat (mem_of demo_gene 0))) = of_u32 100"
    by (simp add: wcet_scaled_of_def demo_conf_def demo_gene_def init_conf_def one_task_def row_def
        one_over_one f64_mult_one wf64_of_u32)
  moreover have "\<not> of_u32 200 \<le> of_u32 100"
    by (simp add: of_u32_def less_eq_f64_def fle_def)
  ultimately show ?thesis
    by (simp add: task_fits_def demo_conf_def init_conf_def)
qed

text \<open>C13. \<open>check_utilpower\<close> always returns or stops the program: \<open>FATAL(3)\<close> when some task
  does not fit the memory and frequency the gene gives it, otherwise the verdict whether the
  sum of the tasks' utilizations is at most the cutoff. The gene's choices stay as they are and
  its number of violated periods is 0.\<close>

theorem check_utilpower_verdict:
  assumes "conf_ok c" and "gene_safe (n_tasks c) gene" and "0 < n_cpufreqs c"
  shows "if \<forall>i<n_tasks c. task_fits c gene i
     then \<exists>gene'. check_utilpower c gene = Inr (gene_util c gene (n_tasks c) \<le> cutoff c, gene')
            \<and> same_choice gene gene' \<and> g_util gene' = gene_util c gene (n_tasks c)
            \<and> g_period_violation gene' = 0
     else check_utilpower c gene = Inl (Fatal 3)"
  using check_utilpower_cases [OF assms] by (auto simp: evaluated_def)

theorem check_utilpower_verdict_witness:
  "if \<forall>i<n_tasks demo_conf. task_fits demo_conf demo_gene i
   then \<exists>gene'. check_utilpower demo_conf demo_gene
            = Inr (gene_util demo_conf demo_gene (n_tasks demo_conf) \<le> cutoff demo_conf, gene')
          \<and> same_choice demo_gene gene' \<and> g_util gene' = gene_util demo_conf demo_gene (n_tasks demo_conf)
          \<and> g_period_violation gene' = 0
   else check_utilpower demo_conf demo_gene = Inl (Fatal 3)"
  by (rule check_utilpower_verdict) (use demo_conf_ok demo_gene_safe in simp_all)

text \<open>C30. A gene that is accepted gets its total cost as score, and from a utilization of 1
  on the surcharge \<open>total_cost * (util - 1) * penalty\<close>; a rejected gene keeps the power, cost
  and score it had.\<close>

theorem check_utilpower_score:
  assumes "conf_ok c" and "gene_safe (n_tasks c) gene" and "0 < n_cpufreqs c"
    and "\<forall>i<n_tasks c. task_fits c gene i"
  shows "\<exists>b gene'. check_utilpower c gene = Inr (b, gene')
     \<and> (if b then g_score gene' = score_of c (g_util gene') (g_total_cost gene')
        else g_score gene' = g_score gene \<and> g_power gene' = g_power gene
             \<and> g_total_cost gene' = g_total_cost gene)"
  using check_utilpower_cases [OF assms(1-3)] assms(4)
  by (simp, elim exE conjE) (auto simp: evaluated_def split: if_splits)

theorem check_utilpower_score_witness:
  "\<exists>b gene'. check_utilpower demo_conf demo_gene = Inr (b, gene')
     \<and> (if b then g_score gene' = score_of demo_conf (g_util gene') (g_total_cost gene')
        else g_score gene' = g_score demo_gene \<and> g_power gene' = g_power demo_gene
             \<and> g_total_cost gene' = g_total_cost demo_gene)"
  by (rule check_utilpower_score) (use demo_conf_ok demo_gene_safe demo_fits in simp_all)

text \<open>For a gene that offloads nothing, the network cost is 0 and the total cost of an
  accepted gene is, to the last bit, the sum of the three cost fields that are reported.\<close>

theorem local_cost_breakdown:
  assumes "conf_ok c" and "gene_safe (n_tasks c) gene" and "0 < n_cpufreqs c"
    and "\<forall>i<n_tasks c. task_fits c gene i" and "all_local (n_tasks c) gene"
  shows "\<exists>b gene'. check_utilpower c gene = Inr (b, gene') \<and> g_cost_network gene' = 0
     \<and> (b \<longrightarrow> g_total_cost gene' = g_cost_cpu_memory gene' + g_cost_base gene' + g_cost_hw gene')"
  using check_utilpower_cases [OF assms(1-3)] assms(4,5)
  by (simp, elim exE conjE) (auto simp: evaluated_def)

theorem local_cost_breakdown_witness:
  "\<exists>b gene'. check_utilpower demo_conf demo_gene = Inr (b, gene') \<and> g_cost_network gene' = 0
     \<and> (b \<longrightarrow> g_total_cost gene' = g_cost_cpu_memory gene' + g_cost_base gene' + g_cost_hw gene')"
  by (rule local_cost_breakdown)
     (use demo_conf_ok demo_gene_safe demo_fits in \<open>simp_all add: all_local_def demo_gene_def one_task_def\<close>)

section \<open>Genes of a population\<close>

text \<open>
  The invariant of the genes: every choice is an entry of its table, the histograms are
  right, and nothing is offloaded (\<open>init_gene\<close> starts with ratio index 0 everywhere, and the
  other functions only copy or lower it).
\<close>

definition typed :: "nat \<Rightarrow> nat \<Rightarrow> taskattrs_t \<Rightarrow> bool" where
  "typed n k ta = (hist_ok n ta \<and> (\<forall>i<n. unat (attrs ta ! i) < k))"

definition gene_ok :: "conf \<Rightarrow> gene_t \<Rightarrow> bool" where
  "gene_ok c gene =
     (typed (n_tasks c) (n_mems c) (taskattrs_mem gene)
      \<and> typed (n_tasks c) (n_clouds c) (taskattrs_cloud gene)
      \<and> typed (n_tasks c) (n_cpufreqs c) (taskattrs_cpufreq gene)
      \<and> hist_ok (n_tasks c) (taskattrs_offloadingratio gene) \<and> all_local (n_tasks c) gene)"

lemma gene_ok_safe: "gene_ok c gene \<Longrightarrow> gene_safe (n_tasks c) gene"
  by (simp add: gene_ok_def gene_safe_def typed_def)

lemma gene_ok_same: "same_choice gene gene' \<Longrightarrow> gene_ok c gene \<Longrightarrow> gene_ok c gene'"
  by (simp add: gene_ok_def same_choice_def all_local_def)

lemma lowered_typed:
  assumes "typed n k ta" and "lowered n ta i ta'" and "n \<le> MAX_TASKS"
  shows "typed n k ta'"
proof -
  have i: "i < n" "0 < attrs ta ! i" "attrs ta' = (attrs ta)[i := attrs ta ! i - 1]" "hist_ok n ta'"
    using assms(2) by (simp_all add: lowered_def)
  have "unat (attrs ta ! i - 1) < k"
    using assms(1) i(1) by (auto simp: typed_def unat_dec8 [OF i(2)] less_imp_diff_less)
  then have "\<forall>j<n. unat ((attrs ta)[i := attrs ta ! i - 1] ! j) < k"
    using assms(1,3) by (intro all_nth_update) (simp_all add: typed_def hist_ok_def)
  with i show ?thesis by (simp add: typed_def)
qed

lemma lower_offloadingratio_local:
  assumes "hist_ok n (taskattrs_offloadingratio gene)" and "all_local n gene" and "0 < n" and "n \<le> MAX_TASKS"
  shows "lower_offloadingratio n gene g = ret (False, gene, \<lambda>i. g (Suc i))"
proof (rule lower_by_attr_cases [OF assms(1,3,4), of g])
  assume "lower_utilization_by_attr n (taskattrs_offloadingratio gene) g
      = ret (False, taskattrs_offloadingratio gene, \<lambda>i. g (Suc i))"
  then show ?thesis by (simp add: lower_offloadingratio_def)
next
  fix i ta' assume "lowered n (taskattrs_offloadingratio gene) i ta'"
  then have False using assms(2) by (auto simp: lowered_def all_local_def)
  then show ?thesis ..
qed

lemma lower_cpufreq_cases:
  assumes "typed n k (taskattrs_cpufreq gene)" and "0 < n" and "n \<le> MAX_TASKS"
  obtains "lower_cpufreq n gene g = ret (False, gene, \<lambda>i. g (Suc i))" "\<forall>i<n. freq_of gene i = 0"
  | i ta where "lower_cpufreq n gene g = ret (True, gene\<lparr>taskattrs_cpufreq := ta\<rparr>, \<lambda>i. g (Suc i))"
      "lowered n (taskattrs_cpufreq gene) i ta" "typed n k ta"
proof -
  have h: "hist_ok n (taskattrs_cpufreq gene)" using assms(1) by (simp add: typed_def)
  show ?thesis
    by (rule lower_by_attr_cases [OF h assms(2,3), of g])
      (use that lowered_typed [OF assms(1) _ assms(3)] in \<open>auto simp: lower_cpufreq_def\<close>)
qed

text \<open>What \<open>lower_utilization\<close> does to a gene of the population.\<close>

definition slowed :: "nat \<Rightarrow> gene_t \<Rightarrow> gene_t \<Rightarrow> bool" where
  "slowed n gene gene' =
     ((\<forall>i<n. freq_of gene i = 0) \<and> gene' = gene
      \<or> (\<exists>i ta. gene' = gene\<lparr>taskattrs_cpufreq := ta\<rparr> \<and> lowered n (taskattrs_cpufreq gene) i ta))"

lemma lower_utilization_cases:
  assumes "conf_ok c" and "gene_ok c gene" and "0 < n_tasks c" and "0 < n_cpufreqs c"
  shows "\<exists>gene' g'. lower_utilization c gene g = ret (gene', g') \<and> gene_ok c gene'
    \<and> slowed (n_tasks c) gene gene' \<and> fair g' = fair g"
proof -
  let ?n = "n_tasks c" and ?w = "of_nat (n_cpufreqs c) + of_nat (n_offloadingratios c) :: u32"
  have n: "?n \<le> MAX_TASKS" "n_cpufreqs c \<le> 5" "n_offloadingratios c \<le> 5"
    using assms(1) by (simp_all add: conf_ok_def caps)
  have "unat ?w = n_cpufreqs c + n_offloadingratios c"
    using n unat_of_nat_u32 [of "n_cpufreqs c + n_offloadingratios c"] by simp
  then have w: "?w \<noteq> 0" using assms(4) by auto
  obtain r g1 where r: "get_rand ?w g = Inr (r, g1)" by (rule get_rand_ok [OF w])
  note fair = get_rand_fair [OF r]
  have t: "typed ?n (n_cpufreqs c) (taskattrs_cpufreq gene)"
    and local: "\<And>g. lower_offloadingratio ?n gene g = ret (False, gene, \<lambda>i. g (Suc i))"
    using assms(2,3) n(1) lower_offloadingratio_local by (simp_all add: gene_ok_def)
  have cpu: "\<exists>b gene'. lower_cpufreq ?n gene g = ret (b, gene', \<lambda>i. g (Suc i)) \<and> gene_ok c gene'
      \<and> slowed ?n gene gene' \<and> (\<not> b \<longrightarrow> gene' = gene)" for g
    by (rule lower_cpufreq_cases [OF t assms(3) n(1), of g])
      (use assms(2) in \<open>auto simp: slowed_def gene_ok_def all_local_def\<close>)
  show ?thesis
  proof (cases "r < of_nat (n_cpufreqs c)")
    case True
    obtain b gene' where b: "lower_cpufreq ?n gene g1 = ret (b, gene', \<lambda>i. g1 (Suc i))" "gene_ok c gene'"
      "slowed ?n gene gene'" "\<not> b \<longrightarrow> gene' = gene"
      using cpu [of g1] by blast
    with r True local show ?thesis by (cases b) (simp_all add: lower_utilization_def fair)
  next
    case False
    obtain b gene' where "lower_cpufreq ?n gene (\<lambda>i. g1 (Suc i)) = ret (b, gene', \<lambda>i. g1 (Suc (Suc i)))"
      "gene_ok c gene'" "slowed ?n gene gene'"
      using cpu [of "\<lambda>i. g1 (Suc i)"] by blast
    with r False local show ?thesis by (simp add: lower_utilization_def fair)
  qed
qed

lemma demo_gene_ok: "gene_ok demo_conf demo_gene"
  using one_task_ok [of 0]
  by (simp add: gene_ok_def typed_def all_local_def demo_gene_def one_task_def)

text \<open>C26. For a gene of the population \<open>lower_utilization\<close> always returns. It never changes
  the offloading: whatever branch the random number takes, one task gets the next lower CPU
  frequency index, or nothing changes because every task has index 0 already. The result is a
  gene of the population again.\<close>

theorem lower_utilization_slows_one_task:
  assumes "conf_ok c" and "gene_ok c gene" and "0 < n_tasks c" and "0 < n_cpufreqs c"
  shows "\<exists>gene' g'. lower_utilization c gene g = ret (gene', g') \<and> gene_ok c gene'
    \<and> slowed (n_tasks c) gene gene'"
  using lower_utilization_cases [OF assms] by blast

theorem lower_utilization_slows_one_task_witness:
  "\<exists>gene' g'. lower_utilization demo_conf demo_gene (\<lambda>_. 0) = ret (gene', g')
    \<and> gene_ok demo_conf gene' \<and> slowed (n_tasks demo_conf) demo_gene gene'"
  by (rule lower_utilization_slows_one_task) (use demo_conf_ok demo_gene_ok in simp_all)

end
