(* ===== verification/Ranking.thy ===== *)
theory Ranking
  imports Prelude
begin

text \<open>
  The abstract specification of the sorted populations: \<open>insort_by lt e xs\<close> puts \<open>e\<close> before
  the first element it precedes. The order test of the program is \<open><\<close> on doubles, which is
  irreflexive and transitive but not total (NaN). \<open>ranked\<close> therefore only says that no later
  element precedes an earlier one, and the locale \<open>strict_less\<close> assumes no more than the two
  laws.
\<close>

fun insort_by :: "('a \<Rightarrow> 'a \<Rightarrow> bool) \<Rightarrow> 'a \<Rightarrow> 'a list \<Rightarrow> 'a list" where
  "insort_by lt e [] = [e]"
| "insort_by lt e (x # xs) = (if lt e x then e # x # xs else x # insort_by lt e xs)"

definition ranked :: "('a \<Rightarrow> 'a \<Rightarrow> bool) \<Rightarrow> 'a list \<Rightarrow> bool" where
  "ranked lt xs = sorted_wrt (\<lambda>a b. \<not> lt b a) xs"

lemma insort_by_takeWhile:
  "insort_by lt e xs = takeWhile (\<lambda>x. \<not> lt e x) xs @ e # dropWhile (\<lambda>x. \<not> lt e x) xs"
  by (induction xs) auto

lemma mset_insort_by [simp]: "mset (insort_by lt e xs) = add_mset e (mset xs)"
  by (induction xs) auto

lemma set_insort_by [simp]: "set (insort_by lt e xs) = insert e (set xs)"
  by (induction xs) auto

lemma length_insort_by [simp]: "length (insort_by lt e xs) = Suc (length xs)"
  by (induction xs) auto

lemma distinct_insort_by [simp]: "distinct (insort_by lt e xs) = (e \<notin> set xs \<and> distinct xs)"
  by (induction xs) auto

lemma insort_by_cong:
  "(\<And>x. x \<in> set xs \<Longrightarrow> lt e x = lt' e x) \<Longrightarrow> insort_by lt e xs = insort_by lt' e xs"
  by (induction xs) auto

lemma ranked_cong:
  "(\<And>x y. x \<in> set xs \<Longrightarrow> y \<in> set xs \<Longrightarrow> lt x y = lt' x y) \<Longrightarrow> ranked lt xs = ranked lt' xs"
  unfolding ranked_def by (induction xs) auto

lemma ranked_Nil [simp]: "ranked lt []"
  by (simp add: ranked_def)

lemma ranked_append_delete: "ranked lt (as @ e # bs) \<Longrightarrow> ranked lt (as @ bs)"
  by (simp add: ranked_def sorted_wrt_append)

lemma ranked_butlast: "ranked lt xs \<Longrightarrow> ranked lt (butlast xs)"
  by (cases xs rule: rev_cases) (auto simp: ranked_def sorted_wrt_append)

lemma ranked_hd: "ranked lt xs \<Longrightarrow> xs \<noteq> [] \<Longrightarrow> x \<in> set (tl xs) \<Longrightarrow> \<not> lt x (hd xs)"
  by (cases xs) (auto simp: ranked_def)

lemma ranked_last: "ranked lt xs \<Longrightarrow> x \<in> set (butlast xs) \<Longrightarrow> \<not> lt (last xs) x"
  by (cases xs rule: rev_cases) (auto simp: ranked_def sorted_wrt_append)

lemma hd_insort_by:
  "hd (insort_by lt e xs) = (if xs = [] \<or> lt e (hd xs) then e else hd xs)"
  by (cases xs) auto

text \<open>An insertion moves no element forward: at each rank there is a smaller one or the same.\<close>

lemma insort_by_nth:
  assumes "ranked lt xs" and "r < length xs"
    and "\<And>x. x \<in> set xs \<Longrightarrow> lt e x \<Longrightarrow> P e x"
    and "\<And>x y. x \<in> set xs \<Longrightarrow> y \<in> set xs \<Longrightarrow> x = y \<or> \<not> lt y x \<Longrightarrow> P x y"
  shows "P (insort_by lt e xs ! r) (xs ! r)"
  using assms
proof (induction xs arbitrary: r)
  case (Cons x xs)
  show ?case
  proof (cases "lt e x")
    case False
    with Cons show ?thesis by (cases r) (auto simp: ranked_def)
  next
    case True
    show ?thesis
    proof (cases r)
      case (Suc k)
      then have "k < length xs" using Cons.prems(2) by simp
      then have k: "(x # xs) ! k \<in> set (x # xs)" "xs ! k \<in> set (x # xs)"
        using nth_mem [of k "x # xs"] by simp_all
      have "\<not> lt (xs ! k) ((x # xs) ! k)"
        using Cons.prems(1,2) Suc sorted_wrt_nth_less [of _ "x # xs" k "Suc k"] by (simp add: ranked_def)
      with True Suc Cons.prems(4) [OF k] show ?thesis by simp
    qed (use True Cons.prems in simp)
  qed
qed simp

locale strict_less =
  fixes lt :: "'a \<Rightarrow> 'a \<Rightarrow> bool"
  assumes irrefl: "\<not> lt x x"
    and trans: "lt x y \<Longrightarrow> lt y z \<Longrightarrow> lt x z"
begin

lemma asym: "lt x y \<Longrightarrow> \<not> lt y x"
  using irrefl trans by blast

lemma ranked_insort_by:
  assumes "ranked lt xs"
  shows "ranked lt (insort_by lt e xs)"
  using assms
proof (induction xs)
  case Nil
  then show ?case by (simp add: ranked_def)
next
  case (Cons x xs)
  show ?case
  proof (cases "lt e x")
    case True
    have "\<not> lt y e" if "y \<in> set (x # xs)" for y
    proof
      assume "lt y e"
      then have "lt y x" using True by (rule trans)
      with that irrefl Cons.prems show False by (auto simp: ranked_def)
    qed
    with True Cons.prems show ?thesis by (simp add: ranked_def)
  next
    case False
    with Cons show ?thesis by (auto simp: ranked_def)
  qed
qed

text \<open>The first element is minimal, and stays at least as good after an insertion.\<close>

lemma ranked_first_minimal: "ranked lt xs \<Longrightarrow> x \<in> set xs \<Longrightarrow> \<not> lt x (hd xs)"
  using irrefl by (cases xs) (auto simp: ranked_def)

lemma ranked_last_maximal: "ranked lt xs \<Longrightarrow> x \<in> set xs \<Longrightarrow> \<not> lt (last xs) x"
  using irrefl by (cases xs rule: rev_cases) (auto simp: ranked_def sorted_wrt_append)

lemma hd_insort_not_worse: "xs \<noteq> [] \<Longrightarrow> \<not> lt (hd xs) (hd (insort_by lt e xs))"
  using irrefl asym by (auto simp: hd_insort_by)

end

end
