(* ===== verification/Ecm_List.thy ===== *)
theory Ecm_List
  imports Prelude
begin

text \<open>
  The intrusive circular doubly linked lists of ecm_list.h. A \<open>struct list_head\<close> is an
  address of type \<open>'a\<close>; the store maps each address to its \<open>next\<close> and \<open>prev\<close> fields. The
  inline functions are translated assignment by assignment. \<open>dll h lh xs\<close> says that the
  cycle through the head \<open>lh\<close> runs through the entries \<open>xs\<close> in order, and the operations
  are shown to act on \<open>xs\<close> as list operations. The locale \<open>entry_list\<close> is the interface the
  client (the populations of GA.c) uses; \<open>dll\<close> is its interpretation.
\<close>

record 'a links =
  nxt :: "'a \<Rightarrow> 'a"
  prv :: "'a \<Rightarrow> 'a"

section \<open>The operations\<close>

definition set_next :: "'a \<Rightarrow> 'a \<Rightarrow> 'a links \<Rightarrow> 'a links" where
  "set_next p v h = h\<lparr>nxt := (nxt h)(p := v)\<rparr>"

definition set_prev :: "'a \<Rightarrow> 'a \<Rightarrow> 'a links \<Rightarrow> 'a links" where
  "set_prev p v h = h\<lparr>prv := (prv h)(p := v)\<rparr>"

definition init_list_head :: "'a \<Rightarrow> 'a links \<Rightarrow> 'a links" where
  "init_list_head ptr h = set_prev ptr ptr (set_next ptr ptr h)"

text \<open>\<open>__list_add\<close>: its four assignments, in order.\<close>

definition list_add_between :: "'a \<Rightarrow> 'a \<Rightarrow> 'a \<Rightarrow> 'a links \<Rightarrow> 'a links" where
  "list_add_between lnew prev next h =
     (let h = set_prev next lnew h;
          h = set_next lnew next h;
          h = set_prev lnew prev h
      in set_next prev lnew h)"

definition list_add :: "'a \<Rightarrow> 'a \<Rightarrow> 'a links \<Rightarrow> 'a links" where
  "list_add lnew head h = list_add_between lnew head (nxt h head) h"

definition list_add_tail :: "'a \<Rightarrow> 'a \<Rightarrow> 'a links \<Rightarrow> 'a links" where
  "list_add_tail lnew head h = list_add_between lnew (prv h head) head h"

definition list_del_between :: "'a \<Rightarrow> 'a \<Rightarrow> 'a links \<Rightarrow> 'a links" where
  "list_del_between prev next h = set_next prev next (set_prev next prev h)"

definition list_del :: "'a \<Rightarrow> 'a links \<Rightarrow> 'a links" where
  "list_del entry h = list_del_between (prv h entry) (nxt h entry) h"

definition list_del_init :: "'a \<Rightarrow> 'a links \<Rightarrow> 'a links" where
  "list_del_init entry h =
     init_list_head entry (list_del_between (prv h entry) (nxt h entry) h)"

definition list_empty :: "'a links \<Rightarrow> 'a \<Rightarrow> bool" where
  "list_empty h head = (nxt h head = head)"

definition list_splice :: "'a \<Rightarrow> 'a \<Rightarrow> 'a links \<Rightarrow> 'a links" where
  "list_splice list head h =
     (let first = nxt h list in
      if first \<noteq> list then
        let last = prv h list; after = nxt h head;
            h = set_prev first head h;
            h = set_next head first h;
            h = set_next last after h
        in set_prev after last h
      else h)"

text \<open>
  \<open>list_for_each (pos, head) body\<close>: the body sees the position and a loop state, and either
  leaves the loop (\<open>Inl\<close>) or goes on (\<open>Inr\<close>). On a broken list the walk may never meet the
  head again: \<open>None\<close>.
\<close>

partial_function (option) for_each_from ::
  "'a links \<Rightarrow> 'a \<Rightarrow> ('a \<Rightarrow> 's \<Rightarrow> 'r + 's) \<Rightarrow> 'a \<Rightarrow> 's \<Rightarrow> ('r + 's) option"
where
  "for_each_from h head body pos s =
     (if pos = head then Some (Inr s)
      else case body pos s of
             Inl r \<Rightarrow> Some (Inl r)
           | Inr s' \<Rightarrow> for_each_from h head body (nxt h pos) s')"

definition list_for_each ::
  "'a links \<Rightarrow> 'a \<Rightarrow> ('a \<Rightarrow> 's \<Rightarrow> 'r + 's) \<Rightarrow> 's \<Rightarrow> ('r + 's) option" where
  "list_for_each h head body s = for_each_from h head body (nxt h head) s"

definition list_for_each_tail ::
  "'a links \<Rightarrow> 'a \<Rightarrow> ('a \<Rightarrow> 's \<Rightarrow> 'r + 's) \<Rightarrow> 's \<Rightarrow> ('r + 's) option" where
  "list_for_each_tail h head body s =
     for_each_from \<lparr>nxt = prv h, prv = nxt h\<rparr> head body (prv h head) s"

text \<open>
  The macros whose body may change the lists: \<open>list_for_each_n\<close> has read the next position before the
  body runs, and in \<open>list_for_each_not\<close> the body sets the position.
\<close>

partial_function (option) for_each_n_from ::
  "('a links \<Rightarrow> 'a \<Rightarrow> 'a) \<Rightarrow> 'a \<Rightarrow> ('a \<Rightarrow> 'a links \<Rightarrow> 'a links) \<Rightarrow> 'a \<Rightarrow> 'a \<Rightarrow> 'a links \<Rightarrow> 'a links option"
where
  "for_each_n_from follow head body pos after h =
     (if pos = head then Some h
      else let h = body pos h in for_each_n_from follow head body after (follow h after) h)"

definition list_for_each_n :: "'a \<Rightarrow> ('a \<Rightarrow> 'a links \<Rightarrow> 'a links) \<Rightarrow> 'a links \<Rightarrow> 'a links option" where
  "list_for_each_n head body h = for_each_n_from nxt head body (nxt h head) (nxt h (nxt h head)) h"

definition list_for_each_tail_n :: "'a \<Rightarrow> ('a \<Rightarrow> 'a links \<Rightarrow> 'a links) \<Rightarrow> 'a links \<Rightarrow> 'a links option" where
  "list_for_each_tail_n head body h = for_each_n_from prv head body (prv h head) (prv h (prv h head)) h"

partial_function (option) for_each_not_from ::
  "'a \<Rightarrow> ('a \<Rightarrow> 'a links \<Rightarrow> 'a \<times> 'a links) \<Rightarrow> 'a \<Rightarrow> 'a links \<Rightarrow> 'a links option"
where
  "for_each_not_from head body pos h =
     (if pos = head then Some h else case body pos h of (pos, h) \<Rightarrow> for_each_not_from head body pos h)"

definition list_for_each_not :: "'a \<Rightarrow> ('a \<Rightarrow> 'a links \<Rightarrow> 'a \<times> 'a links) \<Rightarrow> 'a links \<Rightarrow> 'a links option" where
  "list_for_each_not head body h = for_each_not_from head body (nxt h head) h"

section \<open>The lists a store represents\<close>

fun linked :: "'a links \<Rightarrow> 'a list \<Rightarrow> bool" where
  "linked h (x # y # zs) = (nxt h x = y \<and> prv h y = x \<and> linked h (y # zs))"
| "linked h zs = True"

definition dll :: "'a links \<Rightarrow> 'a \<Rightarrow> 'a list \<Rightarrow> bool" where
  "dll h lh xs = (distinct (lh # xs) \<and> linked h (lh # xs @ [lh]))"

text \<open>The abstract iteration that \<open>list_for_each\<close> performs.\<close>

fun iterate :: "('a \<Rightarrow> 's \<Rightarrow> 'r + 's) \<Rightarrow> 'a list \<Rightarrow> 's \<Rightarrow> 'r + 's" where
  "iterate body [] s = Inr s"
| "iterate body (x # xs) s =
     (case body x s of Inl r \<Rightarrow> Inl r | Inr s' \<Rightarrow> iterate body xs s')"

lemma set_next_simps [simp]:
  "nxt (set_next p v h) = (nxt h)(p := v)" "prv (set_next p v h) = prv h"
  by (simp_all add: set_next_def)

lemma set_prev_simps [simp]:
  "prv (set_prev p v h) = (prv h)(p := v)" "nxt (set_prev p v h) = nxt h"
  by (simp_all add: set_prev_def)

lemma linked_append:
  "linked h (xs @ y # zs) \<longleftrightarrow> linked h (xs @ [y]) \<and> linked h (y # zs)"
proof (induction xs)
  case Nil
  then show ?case by simp
next
  case (Cons x xs)
  then show ?case by (cases xs) auto
qed

lemma linked_frame:
  assumes "\<And>a. a \<in> set (butlast ys) \<Longrightarrow> nxt h' a = nxt h a"
    and "\<And>b. b \<in> set (tl ys) \<Longrightarrow> prv h' b = prv h b"
  shows "linked h' ys = linked h ys"
  using assms
proof (induction ys rule: linked.induct [of _ h])
  case (1 h x y zs)
  then show ?case by (cases zs) auto
qed auto

lemma linked_rev:
  "linked \<lparr>nxt = prv h, prv = nxt h\<rparr> (rev ys) = linked h ys"
proof (induction h ys rule: linked.induct)
  case (1 h x y zs)
  show ?case using 1 linked_append [of _ "rev zs" y "[x]"] by auto
qed auto

lemma dll_distinct: "dll h lh xs \<Longrightarrow> distinct (lh # xs)"
  by (simp add: dll_def)

lemma dll_split:
  "linked h (us @ p # n # vs)
     \<longleftrightarrow> linked h (us @ [p]) \<and> nxt h p = n \<and> prv h n = p \<and> linked h (n # vs)"
  using linked_append [of h us p "n # vs"] by auto

text \<open>A cut between two neighbours of the cycle.\<close>

lemma dll_cut:
  assumes "dll h lh (as @ bs)"
  obtains us p n vs where "lh # as = us @ [p]" "bs @ [lh] = n # vs"
    "linked h (us @ [p])" "nxt h p = n" "prv h n = p" "linked h (n # vs)"
    "distinct (us @ [p])" "distinct (n # vs)" "n \<notin> set as" "p \<notin> set bs"
    "set us \<inter> set bs = {}" "set vs \<inter> set as = {}"
proof -
  obtain us p where u: "lh # as = us @ [p]" by (metis neq_Nil_conv rev_exhaust list.discI)
  obtain n vs where n: "bs @ [lh] = n # vs" by (cases "bs @ [lh]") auto
  have d: "distinct (lh # as @ bs)" using assms by (auto simp: dll_def)
  have "linked h (us @ [p] @ n # vs)"
    using assms u n unfolding dll_def by (metis append.assoc append_Cons)
  then have l: "linked h (us @ [p])" "nxt h p = n" "prv h n = p" "linked h (n # vs)"
    by (simp_all add: dll_split)
  have "distinct (us @ [p])" unfolding u [symmetric] using d by simp
  moreover have "distinct (n # vs)" unfolding n [symmetric] using d by auto
  moreover have "n \<notin> set as" "set vs \<inter> set as = {}"
  proof -
    have "set (n # vs) \<inter> set as = {}" unfolding n [symmetric] using d by auto
    then show "n \<notin> set as" "set vs \<inter> set as = {}" by auto
  qed
  moreover have "p \<notin> set bs" "set us \<inter> set bs = {}"
  proof -
    have "set (us @ [p]) \<inter> set bs = {}" unfolding u [symmetric] using d by auto
    then show "p \<notin> set bs" "set us \<inter> set bs = {}" by auto
  qed
  ultimately show ?thesis using that u n l by blast
qed

text \<open>Insertion of a new entry at a cut.\<close>

lemma dll_insert_cut:
  assumes d: "dll h lh (as @ bs)" and new: "e \<notin> set (lh # as @ bs)"
    and p: "p = last (lh # as)" and n: "n = hd (bs @ [lh])"
  shows "dll (list_add_between e p n h) lh (as @ e # bs)"
proof -
  obtain us p' n' vs where c: "lh # as = us @ [p']" "bs @ [lh] = n' # vs"
    "linked h (us @ [p'])" "linked h (n' # vs)"
    "distinct (us @ [p'])" "distinct (n' # vs)" "n' \<notin> set as" "p' \<notin> set bs"
    by (rule dll_cut [OF d])
  have pn: "p' = p" "n' = n" using c(1,2) p n by (metis last_snoc, metis list.sel(1))
  note c = c [unfolded pn]
  define h' where "h' = list_add_between e p n h"
  have f: "nxt h' = (nxt h)(e := n, p := e)" "prv h' = (prv h)(n := e, e := p)"
    by (simp_all add: h'_def list_add_between_def Let_def)
  have e1: "e \<notin> set (us @ [p])" "e \<notin> set (n # vs)"
    using new unfolding c(1) [symmetric] c(2) [symmetric] by auto
  have tl1: "tl (us @ [p]) = as" using c(1) by (metis list.sel(3))
  have bl: "butlast (n # vs) = bs" using c(2) by (metis butlast_snoc)
  have "linked h' (us @ [p])"
  proof (subst linked_frame [of _ _ h])
    show "nxt h' a = nxt h a" if "a \<in> set (butlast (us @ [p]))" for a
      using that e1 c(5) by (auto simp: f)
    show "prv h' b = prv h b" if "b \<in> set (tl (us @ [p]))" for b
      using that new c(7) unfolding tl1 by (auto simp: f)
  qed (rule c(3))
  moreover have "linked h' (n # vs)"
  proof (subst linked_frame [of _ _ h])
    show "nxt h' a = nxt h a" if "a \<in> set (butlast (n # vs))" for a
      using that new c(8) unfolding bl by (auto simp: f)
    show "prv h' b = prv h b" if "b \<in> set (tl (n # vs))" for b
      using that e1 c(6) by (auto simp: f)
  qed (rule c(4))
  moreover have "nxt h' p = e" "prv h' e = p" "nxt h' e = n" "prv h' n = e"
    using e1 by (auto simp: f)
  ultimately have "linked h' (us @ [p] @ e # n # vs)" by (simp add: dll_split)
  moreover have "us @ [p] @ e # n # vs = lh # (as @ e # bs) @ [lh]"
    using c(1,2) by (metis append.assoc append_Cons)
  moreover have "distinct (lh # as @ e # bs)" using d new by (auto simp: dll_def)
  ultimately show ?thesis unfolding dll_def h'_def by simp
qed

lemma dll_nxt_prv_at:
  assumes "dll h lh (as @ bs)"
  shows "nxt h (last (lh # as)) = hd (bs @ [lh])"
    and "prv h (hd (bs @ [lh])) = last (lh # as)"
proof -
  obtain us p n vs where c: "lh # as = us @ [p]" "bs @ [lh] = n # vs" "nxt h p = n" "prv h n = p"
    by (rule dll_cut [OF assms])
  show "nxt h (last (lh # as)) = hd (bs @ [lh])" "prv h (hd (bs @ [lh])) = last (lh # as)"
    using c(3,4) unfolding c(1,2) by simp_all
qed

text \<open>\<open>list_add\<close> pushes at the front, \<open>list_add_tail\<close> inserts before the given node.\<close>

lemma dll_list_add:
  assumes "dll h lh xs" and "e \<notin> set (lh # xs)"
  shows "dll (list_add e lh h) lh (e # xs)"
  using dll_insert_cut [of h lh "[]" xs e lh "nxt h lh"] assms dll_nxt_prv_at [of h lh "[]" xs]
  by (simp add: list_add_def)

lemma dll_list_add_tail_head:
  assumes "dll h lh xs" and "e \<notin> set (lh # xs)"
  shows "dll (list_add_tail e lh h) lh (xs @ [e])"
  using dll_insert_cut [of h lh xs "[]" e "prv h lh" lh] assms dll_nxt_prv_at [of h lh xs "[]"]
  by (simp add: list_add_tail_def)

lemma dll_list_add_tail_entry:
  assumes "dll h lh (as @ x # bs)" and "e \<notin> set (lh # as @ x # bs)"
  shows "dll (list_add_tail e x h) lh (as @ e # x # bs)"
  using dll_insert_cut [of h lh as "x # bs" e "prv h x" x] assms
    dll_nxt_prv_at [of h lh as "x # bs"]
  by (simp add: list_add_tail_def)

text \<open>Deletion of an entry.\<close>

lemma dll_del_between:
  assumes d: "dll h lh (as @ e # bs)"
  shows "dll (list_del_between (prv h e) (nxt h e) h) lh (as @ bs)"
proof -
  obtain us p n vs where c: "lh # as = us @ [p]" "(e # bs) @ [lh] = n # vs"
    "linked h (us @ [p])" "prv h n = p" "linked h (n # vs)"
    "distinct (us @ [p])" "distinct (n # vs)" "n \<notin> set as" "set vs \<inter> set as = {}" "p \<notin> set (e # bs)"
    by (rule dll_cut [OF d])
  have ne: "n = e" and vs: "vs = bs @ [lh]" using c(2) by auto
  obtain q ws where q: "vs = q # ws" using vs by (metis append_is_Nil_conv list.discI list.exhaust)
  from c(5) ne q have nq: "nxt h e = q" "linked h (q # ws)" by auto
  define h' where "h' = list_del_between p q h"
  have f: "nxt h' = (nxt h)(p := q)" "prv h' = (prv h)(q := p)"
    by (simp_all add: h'_def list_del_between_def)
  have tl1: "tl (us @ [p]) = as" using c(1) by (metis list.sel(3))
  have bl: "butlast (q # ws) = bs" using vs q by (metis butlast_snoc)
  have "linked h' (us @ [p])"
  proof (subst linked_frame [of _ _ h])
    show "nxt h' a = nxt h a" if "a \<in> set (butlast (us @ [p]))" for a
      using that c(6) by (auto simp: f)
    show "prv h' b = prv h b" if "b \<in> set (tl (us @ [p]))" for b
      using that c(9) q unfolding tl1 by (auto simp: f)
  qed (rule c(3))
  moreover have "linked h' (q # ws)"
  proof (subst linked_frame [of _ _ h])
    show "nxt h' a = nxt h a" if "a \<in> set (butlast (q # ws))" for a
      using that c(10) unfolding bl by (auto simp: f)
    show "prv h' b = prv h b" if "b \<in> set (tl (q # ws))" for b
      using that c(7) q by (auto simp: f)
  qed (rule nq(2))
  ultimately have "linked h' (us @ [p] @ q # ws)" by (simp add: dll_split f)
  moreover have "us @ [p] @ q # ws = lh # (as @ bs) @ [lh]"
    using c(1) vs q by (metis append.assoc append_Cons)
  moreover have "distinct (lh # as @ bs)" using d by (auto simp: dll_def)
  ultimately show ?thesis unfolding dll_def using c(4) ne nq(1) h'_def by simp
qed

lemma dll_list_del:
  "dll h lh (as @ e # bs) \<Longrightarrow> dll (list_del e h) lh (as @ bs)"
  unfolding list_del_def by (rule dll_del_between)

text \<open>Stores that agree on the cycle represent the same list.\<close>

lemma dll_cong:
  assumes "dll h lh xs"
    and "\<And>a. a \<in> set (lh # xs) \<Longrightarrow> nxt h' a = nxt h a"
    and "\<And>a. a \<in> set (lh # xs) \<Longrightarrow> prv h' a = prv h a"
  shows "dll h' lh xs"
proof -
  have "linked h' (lh # xs @ [lh]) = linked h (lh # xs @ [lh])"
    by (rule linked_frame) (use assms(2,3) in \<open>auto simp: butlast_append\<close>)
  with assms(1) show ?thesis by (simp add: dll_def)
qed

lemma dll_self: "dll (init_list_head e h) e []"
  by (simp add: dll_def init_list_head_def)

lemma dll_init_other:
  "dll h lh xs \<Longrightarrow> e \<notin> set (lh # xs) \<Longrightarrow> dll (init_list_head e h) lh xs"
  by (erule dll_cong) (auto simp: init_list_head_def)

lemma dll_list_del_init:
  assumes "dll h lh (as @ e # bs)"
  shows "dll (list_del_init e h) lh (as @ bs)" and "dll (list_del_init e h) e []"
proof -
  have "e \<notin> set (lh # as @ bs)" using assms by (auto simp: dll_def)
  with dll_del_between [OF assms] show "dll (list_del_init e h) lh (as @ bs)"
    unfolding list_del_init_def by (rule dll_init_other)
  show "dll (list_del_init e h) e []" unfolding list_del_init_def by (rule dll_self)
qed

text \<open>Unlinking an entry that is alone changes nothing.\<close>

lemma list_del_init_alone:
  assumes "dll h e []"
  shows "list_del_init e h = h"
proof -
  have "nxt h e = e" "prv h e = e" using assms by (auto simp: dll_def)
  then show ?thesis
    by (intro links.equality)
      (simp_all add: list_del_init_def list_del_between_def init_list_head_def fun_upd_idem)
qed

text \<open>Neighbours belong to the cycle; operations on one cycle leave the others alone.\<close>

lemma dll_neighbours:
  assumes "dll h lh xs" and "x \<in> set (lh # xs)"
  shows "nxt h x \<in> set (lh # xs)" and "prv h x \<in> set (lh # xs)"
proof -
  obtain as bs where s: "lh # xs = as @ x # bs" using assms(2) by (meson split_list)
  have "nxt h x \<in> set (lh # xs) \<and> prv h x \<in> set (lh # xs)"
  proof (cases as)
    case Nil
    with s have "lh = x" "xs = bs" by auto
    with assms(1) dll_nxt_prv_at [of h lh "[]" xs] dll_nxt_prv_at [of h lh xs "[]"]
    show ?thesis by (cases xs) auto
  next
    case (Cons a as')
    with s have xs: "xs = as' @ x # bs" by simp
    with assms(1) have "prv h x = last (lh # as')" and "nxt h x = hd (bs @ [lh])"
      using dll_nxt_prv_at [of h lh as' "x # bs"] dll_nxt_prv_at [of h lh "as' @ [x]" bs] by auto
    then show ?thesis unfolding xs by (cases bs) auto
  qed
  then show "nxt h x \<in> set (lh # xs)" "prv h x \<in> set (lh # xs)" by auto
qed

lemma dll_add_tail_other:
  assumes "dll h lh xs" and "dll h lh' ys" and "x \<in> set (lh # xs)"
    and "set (lh # xs) \<inter> set (lh' # ys) = {}" and "e \<notin> set (lh' # ys)"
  shows "dll (list_add_tail e x h) lh' ys"
proof -
  have "prv h x \<in> set (lh # xs)" using assms(1,3) by (rule dll_neighbours)
  then have "prv h x \<notin> set (lh' # ys)" and "x \<notin> set (lh' # ys)" using assms(3,4) by blast+
  with assms(5) show ?thesis
    by (intro dll_cong [OF assms(2)]) (auto simp: list_add_tail_def list_add_between_def Let_def)
qed

lemma dll_del_init_other:
  assumes "dll h lh xs" and "dll h lh' ys" and "e \<in> set xs"
    and "set (lh # xs) \<inter> set (lh' # ys) = {}"
  shows "dll (list_del_init e h) lh' ys"
proof -
  have "nxt h e \<in> set (lh # xs)" "prv h e \<in> set (lh # xs)"
    using dll_neighbours [OF assms(1), of e] assms(3) by auto
  then have "nxt h e \<notin> set (lh' # ys)" "prv h e \<notin> set (lh' # ys)" "e \<notin> set (lh' # ys)"
    using assms(3,4) by (blast, blast, auto)
  then show ?thesis
    by (intro dll_cong [OF assms(2)])
      (auto simp: list_del_init_def list_del_between_def init_list_head_def)
qed

lemma dll_list_empty: "dll h lh xs \<Longrightarrow> list_empty h lh = (xs = [])"
  using dll_nxt_prv_at [of h lh "[]" xs] by (cases xs) (auto simp: list_empty_def dll_def)

lemma dll_first_last:
  assumes "dll h lh xs"
  shows "nxt h lh = (if xs = [] then lh else hd xs)" and "prv h lh = (if xs = [] then lh else last xs)"
  using dll_nxt_prv_at [of h lh "[]" xs] dll_nxt_prv_at [of h lh xs "[]"] assms by auto

subsection \<open>Iteration\<close>

lemma for_each_from_dll:
  assumes "dll h lh (as @ bs)"
  shows "for_each_from h lh body (hd (bs @ [lh])) s = Some (iterate body bs s)"
  using assms
proof (induction bs arbitrary: as s)
  case Nil
  then show ?case by (simp add: for_each_from.simps)
next
  case (Cons b bs)
  have "b \<noteq> lh" using Cons.prems by (auto simp: dll_def)
  moreover have "nxt h b = hd (bs @ [lh])"
    using dll_nxt_prv_at(1) [of h lh "as @ [b]" bs] Cons.prems by simp
  ultimately show ?case
    using Cons.IH [of "as @ [b]"] Cons.prems
    by (simp add: for_each_from.simps split: sum.split)
qed

lemma dll_for_each:
  assumes "dll h lh xs"
  shows "list_for_each h lh body s = Some (iterate body xs s)"
  using for_each_from_dll [of h lh "[]" xs] assms dll_nxt_prv_at(1) [of h lh "[]" xs]
  by (simp add: list_for_each_def)

lemma dll_reversed: "dll h lh xs \<Longrightarrow> dll \<lparr>nxt = prv h, prv = nxt h\<rparr> lh (rev xs)"
  using linked_rev [of h "lh # xs @ [lh]"] by (simp add: dll_def)

lemma dll_for_each_tail:
  assumes "dll h lh xs"
  shows "list_for_each_tail h lh body s = Some (iterate body (rev xs) s)"
  using dll_for_each [OF dll_reversed [OF assms], of body s]
  by (simp add: list_for_each_def list_for_each_tail_def)

text \<open>Every entry can be unlinked on the way, in either direction, or by a body that advances itself.\<close>

lemma list_for_each_n_clears:
  "dll h lh xs \<Longrightarrow> \<exists>h'. list_for_each_n lh list_del_init h = Some h' \<and> dll h' lh []"
proof (induction xs arbitrary: h)
  case Nil
  then show ?case using dll_first_last(1) [OF Nil]
    by (simp add: list_for_each_n_def for_each_n_from.simps)
next
  case (Cons x xs)
  define h1 where "h1 = list_del_init x h"
  have x: "nxt h lh = x" "x \<noteq> lh" using dll_first_last(1) [OF Cons.prems] Cons.prems by (auto simp: dll_def)
  have d: "dll h1 lh xs" using dll_list_del_init(1) [of h lh "[]" x xs] Cons.prems by (simp add: h1_def)
  have "nxt h x = hd (xs @ [lh])" using dll_nxt_prv_at(1) [of h lh "[x]" xs] Cons.prems by simp
  moreover have "nxt h1 lh = hd (xs @ [lh])" using dll_nxt_prv_at(1) [of h1 lh "[]" xs] d by simp
  ultimately have "list_for_each_n lh list_del_init h = list_for_each_n lh list_del_init h1"
    using x unfolding list_for_each_n_def
    by (subst for_each_n_from.simps) (simp add: h1_def [symmetric])
  with Cons.IH [OF d] show ?case by simp
qed

lemma list_for_each_tail_n_clears:
  "dll h lh xs \<Longrightarrow> \<exists>h'. list_for_each_tail_n lh list_del_init h = Some h' \<and> dll h' lh []"
proof (induction xs arbitrary: h rule: rev_induct)
  case Nil
  then show ?case using dll_first_last(2) [OF Nil]
    by (simp add: list_for_each_tail_n_def for_each_n_from.simps)
next
  case (snoc x xs)
  define h1 where "h1 = list_del_init x h"
  have x: "prv h lh = x" "x \<noteq> lh" using dll_first_last(2) [OF snoc.prems] snoc.prems by (auto simp: dll_def)
  have d: "dll h1 lh xs" using dll_list_del_init(1) [of h lh xs x "[]"] snoc.prems by (simp add: h1_def)
  have "prv h x = last (lh # xs)" using dll_nxt_prv_at(2) [of h lh xs "[x]"] snoc.prems by simp
  moreover have "prv h1 lh = last (lh # xs)" using dll_nxt_prv_at(2) [of h1 lh xs "[]"] d by simp
  ultimately have "list_for_each_tail_n lh list_del_init h = list_for_each_tail_n lh list_del_init h1"
    using x unfolding list_for_each_tail_n_def
    by (subst for_each_n_from.simps) (simp add: h1_def [symmetric])
  with snoc.IH [OF d] show ?case by simp
qed

lemma list_for_each_not_clears:
  "dll h lh xs \<Longrightarrow> \<exists>h'. list_for_each_not lh (\<lambda>p h. (nxt h p, list_del_init p h)) h = Some h' \<and> dll h' lh []"
proof (induction xs arbitrary: h)
  case Nil
  then show ?case using dll_first_last(1) [OF Nil]
    by (simp add: list_for_each_not_def for_each_not_from.simps)
next
  case (Cons x xs)
  define h1 where "h1 = list_del_init x h"
  have x: "nxt h lh = x" "x \<noteq> lh" using dll_first_last(1) [OF Cons.prems] Cons.prems by (auto simp: dll_def)
  have d: "dll h1 lh xs" using dll_list_del_init(1) [of h lh "[]" x xs] Cons.prems by (simp add: h1_def)
  have "nxt h x = nxt h1 lh"
    using dll_nxt_prv_at(1) [of h lh "[x]" xs] dll_nxt_prv_at(1) [of h1 lh "[]" xs] Cons.prems d by simp
  then have "list_for_each_not lh (\<lambda>p h. (nxt h p, list_del_init p h)) h
      = list_for_each_not lh (\<lambda>p h. (nxt h p, list_del_init p h)) h1"
    using x unfolding list_for_each_not_def
    by (subst for_each_not_from.simps) (simp add: h1_def [symmetric])
  with Cons.IH [OF d] show ?case by simp
qed

subsection \<open>Splicing\<close>

lemma dll_list_splice:
  assumes l: "dll h l ys" and d: "dll h lh xs" and dis: "set (l # ys) \<inter> set (lh # xs) = {}"
  shows "dll (list_splice l lh h) lh (ys @ xs)"
proof (cases "ys = []")
  case True
  with l have "nxt h l = l" by (simp add: dll_def)
  with True d show ?thesis by (simp add: list_splice_def)
next
  case False
  define h' where "h' = list_splice l lh h"
  obtain y zs where y: "ys = y # zs" using False by (cases ys) auto
  obtain n vs where n: "xs @ [lh] = n # vs" by (cases "xs @ [lh]") auto
  have first: "nxt h l = y" "prv h l = last ys" using dll_first_last [OF l] y by auto
  have after: "nxt h lh = n" using dll_first_last [OF d] n by (cases xs) auto
  have yl: "y \<noteq> l" using l y by (auto simp: dll_def)
  have f: "nxt h' = (nxt h)(lh := y, last ys := n)" "prv h' = (prv h)(y := lh, n := last ys)"
    using first after yl by (simp_all add: h'_def list_splice_def Let_def)
  have din: "distinct ys" "linked h ys" "distinct (n # vs)" "linked h (n # vs)"
  proof -
    show "distinct ys" using l by (simp add: dll_def)
    have "(l # butlast ys) @ last ys # [l] = l # ys @ [l]"
      using append_butlast_last_id [OF False] by (metis append.assoc append_Cons append_Nil)
    then have "linked h ((l # butlast ys) @ last ys # [l])" using l by (simp only: dll_def)
    then have "linked h ((l # butlast ys) @ [last ys])" by (rule conjunct1 [OF iffD1 [OF linked_append]])
    then have "linked h (l # ys)" using append_butlast_last_id [OF False] by (metis append_Cons)
    then show "linked h ys" using y by simp
    show "distinct (n # vs)" unfolding n [symmetric] using d by (auto simp: dll_def)
    have "linked h (lh # n # vs)" using d n by (simp add: dll_def)
    then show "linked h (n # vs)" by simp
  qed
  have nin: "n \<notin> set ys" "last ys \<notin> set xs" "lh \<notin> set ys" "y \<notin> set (n # vs)" "last ys \<in> set ys"
  proof -
    have "set (n # vs) \<inter> set ys = {}" unfolding n [symmetric] using dis by auto
    then show "n \<notin> set ys" "y \<notin> set (n # vs)" using y by auto
    show "last ys \<in> set ys" using False by simp
    then show "last ys \<notin> set xs" "lh \<notin> set ys" using dis by auto
  qed
  have "linked h' ys"
  proof (subst linked_frame [of _ _ h])
    show "nxt h' a = nxt h a" if "a \<in> set (butlast ys)" for a
    proof -
      have "a \<noteq> last ys" using that din(1) False
        by (metis append_butlast_last_id distinct_append disjoint_iff list.set_intros(1))
      moreover have "a \<noteq> lh" using that nin(3) by (auto dest: in_set_butlastD)
      ultimately show ?thesis by (simp add: f)
    qed
    show "prv h' b = prv h b" if "b \<in> set (tl ys)" for b
      using that nin(1) din(1) y by (auto simp: f)
  qed (rule din(2))
  moreover have "lh \<noteq> last ys" "y \<noteq> n" using nin(1,3,5) y by auto
  then have "nxt h' lh = y" "prv h' y = lh" by (simp_all add: f)
  ultimately have "linked h' (lh # ys)" using y by simp
  then have "linked h' ((lh # butlast ys) @ [last ys])"
    using append_butlast_last_id [OF False] by simp
  moreover have "linked h' (n # vs)"
  proof (subst linked_frame [of _ _ h])
    have bl: "butlast (n # vs) = xs" using n by (metis butlast_snoc)
    show "nxt h' a = nxt h a" if "a \<in> set (butlast (n # vs))" for a
      using that nin(2) d unfolding bl by (auto simp: f dll_def)
    show "prv h' b = prv h b" if "b \<in> set (tl (n # vs))" for b
      using that nin(4) din(3) by (auto simp: f)
  qed (rule din(4))
  moreover have "nxt h' (last ys) = n" "prv h' n = last ys" by (simp_all add: f)
  ultimately have "linked h' ((lh # butlast ys) @ last ys # n # vs)" by (simp only: dll_split)
  moreover have "(lh # butlast ys) @ last ys # n # vs = lh # (ys @ xs) @ [lh]"
    using False n by simp
  moreover have "distinct (lh # ys @ xs)" using l d dis by (auto simp: dll_def)
  ultimately show ?thesis unfolding dll_def h'_def by simp
qed

section \<open>The interface of the lists\<close>

text \<open>
  What a client relies on: a representation predicate, insertion before a node, removal,
  and iteration that may stop early. \<open>rep h e []\<close> also describes an entry that is in no
  list.
\<close>

locale entry_list =
  fixes rep :: "'h \<Rightarrow> 'a \<Rightarrow> 'a list \<Rightarrow> bool"
    and add_tail :: "'a \<Rightarrow> 'a \<Rightarrow> 'h \<Rightarrow> 'h"
    and del_init :: "'a \<Rightarrow> 'h \<Rightarrow> 'h"
    and each :: "'h \<Rightarrow> 'a \<Rightarrow> ('a \<Rightarrow> unit \<Rightarrow> 'a + unit) \<Rightarrow> unit \<Rightarrow> ('a + unit) option"
  assumes rep_distinct: "rep h l xs \<Longrightarrow> distinct (l # xs)"
    and add_tail_head: "rep h l xs \<Longrightarrow> e \<notin> set (l # xs) \<Longrightarrow> rep (add_tail e l h) l (xs @ [e])"
    and add_tail_entry: "rep h l (as @ x # bs) \<Longrightarrow> e \<notin> set (l # as @ x # bs) \<Longrightarrow>
           rep (add_tail e x h) l (as @ e # x # bs)"
    and add_tail_other: "rep h l xs \<Longrightarrow> rep h l' ys \<Longrightarrow> x \<in> set (l # xs) \<Longrightarrow>
           set (l # xs) \<inter> set (l' # ys) = {} \<Longrightarrow> e \<notin> set (l' # ys) \<Longrightarrow>
           rep (add_tail e x h) l' ys"
    and del_init_entry: "rep h l (as @ e # bs) \<Longrightarrow> rep (del_init e h) l (as @ bs)"
    and del_init_detached: "rep h l (as @ e # bs) \<Longrightarrow> rep (del_init e h) e []"
    and del_init_other: "rep h l xs \<Longrightarrow> rep h l' ys \<Longrightarrow> e \<in> set xs \<Longrightarrow>
           set (l # xs) \<inter> set (l' # ys) = {} \<Longrightarrow> rep (del_init e h) l' ys"
    and del_init_alone: "rep h e [] \<Longrightarrow> del_init e h = h"
    and each_iterates: "rep h l xs \<Longrightarrow> each h l body s = Some (iterate body xs s)"
begin

text \<open>
  The insertion walk of the clients: go through the list up to the first entry that \<open>e\<close>
  precedes, insert \<open>e\<close> before it, or at the end when there is none.
\<close>

definition walk_insert :: "('a \<Rightarrow> 'a \<Rightarrow> bool) \<Rightarrow> 'a \<Rightarrow> 'a \<Rightarrow> 'h \<Rightarrow> 'h option" where
  "walk_insert before e l h =
     (case each h l (\<lambda>pos _. if before e pos then Inl pos else Inr ()) () of
        None \<Rightarrow> None
      | Some (Inl pos) \<Rightarrow> Some (add_tail e pos h)
      | Some (Inr _) \<Rightarrow> Some (add_tail e l h))"

lemma iterate_find:
  "iterate (\<lambda>pos _. if P pos then Inl pos else Inr ()) xs () =
     (case dropWhile (\<lambda>x. \<not> P x) xs of [] \<Rightarrow> Inr () | x # _ \<Rightarrow> Inl x)"
  by (induction xs) auto

lemma walk_insert_rep:
  assumes "rep h l xs" and "e \<notin> set (l # xs)"
  shows "\<exists>h'. walk_insert before e l h = Some h'
    \<and> rep h' l (takeWhile (\<lambda>x. \<not> before e x) xs @ e # dropWhile (\<lambda>x. \<not> before e x) xs)
    \<and> (\<forall>l' ys. rep h l' ys \<longrightarrow> set (l # xs) \<inter> set (l' # ys) = {} \<longrightarrow> e \<notin> set (l' # ys) \<longrightarrow> rep h' l' ys)"
proof (cases "dropWhile (\<lambda>x. \<not> before e x) xs")
  case Nil
  then have t: "takeWhile (\<lambda>x. \<not> before e x) xs = xs"
    by (metis append_Nil2 takeWhile_dropWhile_id)
  have w: "walk_insert before e l h = Some (add_tail e l h)"
    unfolding walk_insert_def each_iterates [OF assms(1)] iterate_find Nil by simp
  show ?thesis unfolding w t Nil
    using add_tail_head [OF assms] add_tail_other [OF assms(1), where x = l] by auto
next
  case (Cons x bs)
  define as where "as = takeWhile (\<lambda>x. \<not> before e x) xs"
  have xs: "xs = as @ x # bs" unfolding as_def using Cons by (metis takeWhile_dropWhile_id)
  have w: "walk_insert before e l h = Some (add_tail e x h)"
    unfolding walk_insert_def each_iterates [OF assms(1)] iterate_find Cons by simp
  have x: "x \<in> set (l # xs)" using xs by simp
  show ?thesis unfolding w Cons as_def [symmetric]
    using add_tail_entry [of h l as x bs e] assms add_tail_other [OF assms(1) _ x] xs by auto
qed

end

interpretation ecm: entry_list dll list_add_tail list_del_init list_for_each
proof unfold_locales
  show "dll h l xs \<Longrightarrow> distinct (l # xs)" for h :: "'a links" and l xs
    by (rule dll_distinct)
  show "dll (list_add_tail e x h) l' ys" if "dll h l xs" "dll h l' ys" "x \<in> set (l # xs)"
    "set (l # xs) \<inter> set (l' # ys) = {}" "e \<notin> set (l' # ys)" for h :: "'a links" and l xs l' ys x e
    using that by (rule dll_add_tail_other)
  show "dll (list_del_init e h) l' ys" if "dll h l xs" "dll h l' ys" "e \<in> set xs"
    "set (l # xs) \<inter> set (l' # ys) = {}" for h :: "'a links" and l xs l' ys e
    using that by (rule dll_del_init_other)
qed (fact dll_list_add_tail_head dll_list_add_tail_entry dll_list_del_init
      list_del_init_alone dll_for_each)+

section \<open>Properties\<close>

text \<open>Two lists on the naturals: 0 with the entries 1, 2 and 10 with the entry 11.\<close>

definition demo_links :: "nat links" where
  "demo_links =
     list_add_tail 11 10 (list_add_tail 2 0 (list_add_tail 1 0
       (init_list_head 10 (init_list_head 0 \<lparr>nxt = id, prv = id\<rparr>))))"

lemma demo_links_ok: "dll demo_links 0 [1, 2]" "dll demo_links 10 [11]"
  by (simp_all add: dll_def demo_links_def list_add_tail_def list_add_between_def init_list_head_def Let_def)

text \<open>Removing an entry that was just added gives the list back, and leaves the entry alone
  in a list of its own.\<close>

theorem list_add_then_del:
  assumes "dll h lh xs" and "e \<notin> set (lh # xs)"
  shows "dll (list_del_init e (list_add_tail e lh h)) lh xs
    \<and> dll (list_del_init e (list_add_tail e lh h)) e []"
proof -
  have "dll (list_add_tail e lh h) lh (xs @ e # [])" using dll_list_add_tail_head [OF assms] by simp
  from dll_list_del_init [OF this] show ?thesis by simp
qed

theorem list_add_then_del_witness:
  "dll (list_del_init 3 (list_add_tail 3 0 demo_links)) 0 [1, 2]
    \<and> dll (list_del_init 3 (list_add_tail 3 0 demo_links)) 3 []"
  by (rule list_add_then_del [OF demo_links_ok(1)]) simp

text \<open>\<open>list_splice\<close> puts all entries of the first list in front of those of the second.\<close>

theorem list_splice_prepends:
  assumes "dll h l ys" and "dll h lh xs" and "set (l # ys) \<inter> set (lh # xs) = {}"
  shows "dll (list_splice l lh h) lh (ys @ xs)"
  by (rule dll_list_splice [OF assms])

theorem list_splice_prepends_witness: "dll (list_splice 10 0 demo_links) 0 ([11] @ [1, 2])"
  by (rule list_splice_prepends [OF demo_links_ok(2,1)]) simp

end
