(* ===== verification/Population.thy ===== *)
theory Population
  imports Gene Ranking Ecm_List
begin

text \<open>
  The population of GA.c and its initialization: \<open>sort_gene\<close>, \<open>init_gene\<close>,
  \<open>init_populations\<close>. All genes live in the array \<open>genes\<close>; each is linked into three
  lists (by utilization, power and score) through the three \<open>list_head\<close>s inside \<open>gene_t\<close>. A
  \<open>list_head\<close> is addressed by the list it belongs to and, unless it is the head of the list,
  the index of its gene; \<open>list_entry\<close> goes back from the address to the index.
\<close>

datatype kind = By_util | By_power | By_score
datatype node = Head kind | Entry kind nat

fun list_entry :: "kind \<Rightarrow> node \<Rightarrow> nat res" where
  "list_entry k (Entry k' i) = (if k = k' then Inr i else Inl Bad_Pointer)"
| "list_entry k (Head k') = Inl Bad_Pointer"

fun key :: "kind \<Rightarrow> gene_t \<Rightarrow> f64" where
  "key By_util gene = g_util gene"
| "key By_power gene = g_power gene"
| "key By_score gene = g_score gene"

record ga =
  genes :: "gene_t list"
  links :: "node links"
  rng :: rng

section \<open>Sorted insertion\<close>

text \<open>The three functions differ in the list and the key only; this is their common body.\<close>

definition sort_gene_by :: "kind \<Rightarrow> nat \<Rightarrow> ga \<Rightarrow> ga run" where
  "sort_gene_by k i s =
     run_bind (Some (arr_get (genes s) i)) (\<lambda>gene.
     let h = list_del_init (Entry k i) (links s) in
     case list_for_each h (Head k) (\<lambda>lp _.
            case res_bind (list_entry k lp) (arr_get (genes s)) of
              Inl e \<Rightarrow> Inl (Inl e)
            | Inr gene_list \<Rightarrow> if key k gene < key k gene_list then Inl (Inr lp) else Inr ()) () of
       None \<Rightarrow> None
     | Some (Inl (Inl e)) \<Rightarrow> fail e
     | Some (Inl (Inr lp)) \<Rightarrow> ret (s\<lparr>links := list_add_tail (Entry k i) lp h\<rparr>)
     | Some (Inr _) \<Rightarrow> ret (s\<lparr>links := list_add_tail (Entry k i) (Head k) h\<rparr>))"

definition sort_gene_util :: "nat \<Rightarrow> ga \<Rightarrow> ga run" where
  "sort_gene_util = sort_gene_by By_util"

definition sort_gene_power :: "nat \<Rightarrow> ga \<Rightarrow> ga run" where
  "sort_gene_power = sort_gene_by By_power"

definition sort_gene_score :: "nat \<Rightarrow> ga \<Rightarrow> ga run" where
  "sort_gene_score = sort_gene_by By_score"

definition sort_gene :: "nat \<Rightarrow> ga \<Rightarrow> ga run" where
  "sort_gene i s =
     run_bind (sort_gene_util i s) (\<lambda>s. run_bind (sort_gene_power i s) (sort_gene_score i))"

section \<open>The initial population\<close>

definition MAX_TRY :: nat where "MAX_TRY = 10000"

definition clear_step :: "nat \<Rightarrow> taskattrs_t \<Rightarrow> taskattrs_t res" where
  "clear_step i ta = res_bind (arr_set (attrs ta) i 0) (\<lambda>as. Inr (ta\<lparr>attrs := as\<rparr>))"

text \<open>The random choices of a new gene; nothing is offloaded.\<close>

definition init_choices :: "conf \<Rightarrow> gene_t \<Rightarrow> rng \<Rightarrow> (gene_t \<times> rng) res" where
  "init_choices c gene g =
     res_bind (assign_taskattrs (n_tasks c) (taskattrs_mem gene) (of_nat (n_mems c)) g) (\<lambda>(mem, g).
     res_bind (assign_taskattrs (n_tasks c) (taskattrs_cpufreq gene) (of_nat (n_cpufreqs c)) g) (\<lambda>(cpufreq, g).
     res_bind (assign_taskattrs (n_tasks c) (taskattrs_cloud gene) (of_nat (n_clouds c)) g) (\<lambda>(cloud, g).
     res_bind (for_upto clear_step 0 (n_tasks c) (taskattrs_offloadingratio gene)) (\<lambda>ratio.
     res_bind (setup_taskattrs (n_tasks c) ratio) (\<lambda>ratio.
     Inr (gene\<lparr>taskattrs_mem := mem, taskattrs_cpufreq := cpufreq, taskattrs_cloud := cloud,
               taskattrs_offloadingratio := ratio\<rparr>, g))))))"

definition put_gene :: "nat \<Rightarrow> gene_t \<Rightarrow> ga \<Rightarrow> ga" where
  "put_gene i gene s = s\<lparr>genes := (genes s)[i := gene]\<rparr>"

definition init_nodes :: "nat \<Rightarrow> ga \<Rightarrow> ga" where
  "init_nodes i s =
     s\<lparr>links := init_list_head (Entry By_score i) (init_list_head (Entry By_power i)
                  (init_list_head (Entry By_util i) (links s)))\<rparr>"

text \<open>The loop of \<open>init_gene\<close>: \<open>t\<close> is its counter.\<close>

function init_loop :: "conf \<Rightarrow> nat \<Rightarrow> nat \<Rightarrow> ga \<Rightarrow> ga run" where
  "init_loop c i t s =
     (if t < MAX_TRY then
        let s = init_nodes i s in
        run_bind (Some (arr_get (genes s) i)) (\<lambda>gene.
        run_bind (Some (check_memusage c gene)) (\<lambda>fits.
        if \<not> fits then
          run_bind (balance_mem_types (n_tasks c) (of_nat (n_mems c)) (taskattrs_mem gene) (rng s)) (\<lambda>(ta, g).
          init_loop c i (Suc t) (put_gene i (gene\<lparr>taskattrs_mem := ta\<rparr>) (s\<lparr>rng := g\<rparr>)))
        else
          run_bind (Some (check_utilpower c gene)) (\<lambda>(ok, gene).
          if ok then sort_gene i (put_gene i gene s)
          else
            run_bind (lower_utilization c gene (rng s)) (\<lambda>(gene, g).
            init_loop c i (Suc t) (put_gene i gene (s\<lparr>rng := g\<rparr>))))))
      else fail (Fatal 3))"
  by pat_completeness auto
termination
  by (relation "measure (\<lambda>(c, i, t, s). MAX_TRY - t)") auto

declare init_loop.simps [simp del]

definition init_gene :: "conf \<Rightarrow> nat \<Rightarrow> ga \<Rightarrow> ga run" where
  "init_gene c i s =
     run_bind (Some (arr_get (genes s) i)) (\<lambda>gene.
     run_bind (Some (init_choices c gene (rng s))) (\<lambda>(gene, g).
     init_loop c i 0 (put_gene i gene (s\<lparr>rng := g\<rparr>))))"

text \<open>
  \<open>init_populations\<close>: the array comes zeroed from \<open>calloc\<close>, the list heads are empty. Beside
  the state it yields the utilization that is printed.
\<close>

function init_all :: "conf \<Rightarrow> nat \<Rightarrow> nat \<Rightarrow> ga \<times> f64 \<Rightarrow> (ga \<times> f64) run" where
  "init_all c n i su =
     (if i < n then
        run_bind (init_gene c i (fst su)) (\<lambda>s.
        run_bind (Some (arr_get (genes s) i)) (\<lambda>gene.
        init_all c n (Suc i) (s, snd su + g_util gene)))
      else ret su)"
  by pat_completeness auto
termination
  by (relation "measure (\<lambda>(c, n, i, su). n - i)") auto

declare init_all.simps [simp del]

definition init_heads :: "node links" where
  "init_heads =
     init_list_head (Head By_score) (init_list_head (Head By_power) (init_list_head (Head By_util)
       \<lparr>nxt = id, prv = id\<rparr>))"

definition init_populations :: "conf \<Rightarrow> rng \<Rightarrow> (ga \<times> f64) run" where
  "init_populations c g =
     run_bind (init_all c (unat (n_pops c)) 0
                 (\<lparr>genes = replicate (unat (n_pops c)) zero_gene, links = init_heads, rng = g\<rparr>, 0)) (\<lambda>(s, util_sum).
     ret (s, util_sum / of_u32 (n_pops c)))"

section \<open>Sorted insertion keeps the lists\<close>

definition less_by :: "kind \<Rightarrow> gene_t list \<Rightarrow> nat \<Rightarrow> nat \<Rightarrow> bool" where
  "less_by k gs i j = (key k (gs ! i) < key k (gs ! j))"

interpretation by_key: strict_less "less_by k gs" for k gs
  by unfold_locales (auto simp: less_by_def intro: f64_less_trans)

fun kind_of :: "node \<Rightarrow> kind" where
  "kind_of (Head k) = k"
| "kind_of (Entry k i) = k"

lemma iterate_map_sum:
  assumes "\<And>x. x \<in> set xs \<Longrightarrow> b1 x () = map_sum f id (b2 x ())"
  shows "iterate b1 xs () = map_sum f id (iterate b2 xs ())"
  using assms by (induction xs) (auto split: sum.splits)

text \<open>The order test of the walk, on nodes.\<close>

definition before :: "kind \<Rightarrow> gene_t list \<Rightarrow> node \<Rightarrow> node \<Rightarrow> bool" where
  "before k gs x y =
     (case (x, y) of (Entry _ i, Entry _ j) \<Rightarrow> less_by k gs i j | _ \<Rightarrow> False)"

lemma sort_gene_by_walk:
  assumes "dll (links s) (Head k) (map (Entry k) js)" and "dll (links s) (Entry k i) []"
    and "i < length (genes s)" and "\<forall>j\<in>set js. j < length (genes s)"
  shows "sort_gene_by k i s =
     (case ecm.walk_insert (before k (genes s)) (Entry k i) (Head k) (links s) of
        None \<Rightarrow> None | Some h \<Rightarrow> ret (s\<lparr>links := h\<rparr>))"
proof -
  let ?xs = "map (Entry k) js"
  have body: "iterate (\<lambda>lp _.
        case res_bind (list_entry k lp) (arr_get (genes s)) of
          Inl e \<Rightarrow> Inl (Inl e)
        | Inr gene_list \<Rightarrow> if key k (genes s ! i) < key k gene_list then Inl (Inr lp) else Inr ()) ?xs ()
    = map_sum Inr id (iterate (\<lambda>pos _. if before k (genes s) (Entry k i) pos then Inl pos else Inr ()) ?xs ())"
    by (rule iterate_map_sum) (use assms(4) in \<open>auto simp: before_def less_by_def\<close>)
  show ?thesis
    unfolding sort_gene_by_def ecm.walk_insert_def list_del_init_alone [OF assms(2)]
      ecm.each_iterates [OF assms(1)] arr_get_in [OF assms(3)] run_bind.simps Let_def
      dll_for_each [OF assms(1)] body
    by (cases "iterate (\<lambda>pos _. if before k (genes s) (Entry k i) pos then Inl pos else Inr ()) ?xs ()") auto
qed

lemma sort_gene_by_ok:
  assumes "dll (links s) (Head k) (map (Entry k) js)" and "dll (links s) (Entry k i) []"
    and "i < length (genes s)" and "\<forall>j\<in>set js. j < length (genes s)" and "i \<notin> set js"
  shows "\<exists>h. sort_gene_by k i s = ret (s\<lparr>links := h\<rparr>)
    \<and> dll h (Head k) (map (Entry k) (insort_by (less_by k (genes s)) i js))
    \<and> (\<forall>l ys. dll (links s) l ys \<longrightarrow> (\<forall>x\<in>set (l # ys). kind_of x \<noteq> k) \<longrightarrow> dll h l ys)"
proof -
  have notin: "Entry k i \<notin> set (Head k # map (Entry k) js)" using assms(5) by auto
  obtain h where h: "ecm.walk_insert (before k (genes s)) (Entry k i) (Head k) (links s) = Some h"
    "dll h (Head k) (takeWhile (\<lambda>x. \<not> before k (genes s) (Entry k i) x) (map (Entry k) js)
       @ Entry k i # dropWhile (\<lambda>x. \<not> before k (genes s) (Entry k i) x) (map (Entry k) js))"
    "\<And>l ys. dll (links s) l ys \<Longrightarrow> set (Head k # map (Entry k) js) \<inter> set (l # ys) = {} \<Longrightarrow>
       Entry k i \<notin> set (l # ys) \<Longrightarrow> dll h l ys"
    using ecm.walk_insert_rep [OF assms(1) notin, of "before k (genes s)"] by blast
  have "map (Entry k) (insort_by (less_by k (genes s)) i js) =
      takeWhile (\<lambda>x. \<not> before k (genes s) (Entry k i) x) (map (Entry k) js)
       @ Entry k i # dropWhile (\<lambda>x. \<not> before k (genes s) (Entry k i) x) (map (Entry k) js)"
    by (simp add: insort_by_takeWhile takeWhile_map dropWhile_map comp_def before_def)
  with h(1,2) have "sort_gene_by k i s = ret (s\<lparr>links := h\<rparr>)"
    "dll h (Head k) (map (Entry k) (insort_by (less_by k (genes s)) i js))"
    using sort_gene_by_walk [OF assms(1-4)] by simp_all
  moreover have "dll h l ys" if "dll (links s) l ys" "\<forall>x\<in>set (l # ys). kind_of x \<noteq> k" for l ys
    using that by (intro h(3)) auto
  ultimately show ?thesis by blast
qed

text \<open>A population: the three lists hold the same genes, each in its order.\<close>

definition lists_ok :: "ga \<Rightarrow> (kind \<Rightarrow> nat list) \<Rightarrow> bool" where
  "lists_ok s js = (\<forall>k. dll (links s) (Head k) (map (Entry k) (js k))
     \<and> ranked (less_by k (genes s)) (js k) \<and> set (js k) \<subseteq> {..<length (genes s)})"

definition detached :: "nat \<Rightarrow> ga \<Rightarrow> bool" where
  "detached i s = (\<forall>k. dll (links s) (Entry k i) [])"

lemma sort_gene_ok:
  assumes "lists_ok s js" and "detached i s" and "i < length (genes s)" and "\<And>k. i \<notin> set (js k)"
  shows "\<exists>h. sort_gene i s = ret (s\<lparr>links := h\<rparr>)
    \<and> lists_ok (s\<lparr>links := h\<rparr>) (\<lambda>k. insort_by (less_by k (genes s)) i (js k))"
proof -
  let ?ins = "\<lambda>k. map (Entry k) (insort_by (less_by k (genes s)) i (js k))"
  have js: "dll (links s) (Head k) (map (Entry k) (js k))" "ranked (less_by k (genes s)) (js k)"
    "\<forall>j\<in>set (js k). j < length (genes s)" "dll (links s) (Entry k i) []" for k
    using assms(1,2) by (auto simp: lists_ok_def detached_def)
  obtain h1 where h1: "sort_gene_util i s = ret (s\<lparr>links := h1\<rparr>)" "dll h1 (Head By_util) (?ins By_util)"
    "\<And>l ys. dll (links s) l ys \<Longrightarrow> (\<forall>x\<in>set (l # ys). kind_of x \<noteq> By_util) \<Longrightarrow> dll h1 l ys"
    using sort_gene_by_ok [OF js(1) js(4) assms(3) js(3) assms(4), of By_util]
    unfolding sort_gene_util_def by blast
  have p: "dll h1 (Head k) (map (Entry k) (js k))" "dll h1 (Entry k i) []" if "k \<noteq> By_util" for k
    using that js(1,4) by (auto intro!: h1(3))
  obtain h2 where h2: "sort_gene_power i (s\<lparr>links := h1\<rparr>) = ret (s\<lparr>links := h2\<rparr>)"
    "dll h2 (Head By_power) (?ins By_power)"
    "\<And>l ys. dll h1 l ys \<Longrightarrow> (\<forall>x\<in>set (l # ys). kind_of x \<noteq> By_power) \<Longrightarrow> dll h2 l ys"
    using sort_gene_by_ok [of "s\<lparr>links := h1\<rparr>" By_power "js By_power" i] p [of By_power] js(3) assms(3,4)
    unfolding sort_gene_power_def by auto
  have q: "dll h2 (Head By_score) (map (Entry By_score) (js By_score))" "dll h2 (Entry By_score i) []"
    "dll h2 (Head By_util) (?ins By_util)"
    using p [of By_score] h1(2) by (auto intro!: h2(3))
  obtain h3 where h3: "sort_gene_score i (s\<lparr>links := h2\<rparr>) = ret (s\<lparr>links := h3\<rparr>)"
    "dll h3 (Head By_score) (?ins By_score)"
    "\<And>l ys. dll h2 l ys \<Longrightarrow> (\<forall>x\<in>set (l # ys). kind_of x \<noteq> By_score) \<Longrightarrow> dll h3 l ys"
    using sort_gene_by_ok [of "s\<lparr>links := h2\<rparr>" By_score "js By_score" i] q js(3) assms(3,4)
    unfolding sort_gene_score_def by auto
  have "dll h3 (Head k) (?ins k)" for k
    using h3(2) q(3) h2(2) by (cases k) (auto intro!: h3(3))
  moreover have "sort_gene i s = ret (s\<lparr>links := h3\<rparr>)"
    using h1(1) h2(1) h3(1) by (simp add: sort_gene_def)
  ultimately show ?thesis
    using js(2,3) assms(3) by (auto simp: lists_ok_def by_key.ranked_insort_by)
qed

section \<open>Genes that were let into a population\<close>

text \<open>
  \<open>admitted\<close>: the choices are in range, the memories hold the tasks, the stored utilization is
  the computed one and is at most the cutoff, the stored score belongs to it, and nothing is
  offloaded.
\<close>

definition admitted :: "conf \<Rightarrow> gene_t \<Rightarrow> bool" where
  "admitted c gene =
     (gene_ok c gene \<and> check_memusage c gene = Inr True
      \<and> g_util gene = gene_util c gene (n_tasks c) \<and> g_util gene \<le> cutoff c
      \<and> g_score gene = score_of c (g_util gene) (g_total_cost gene)
      \<and> g_period_violation gene = 0 \<and> g_cost_network gene = 0)"

text \<open>The configurations the program is meant for.\<close>

definition usable :: "conf \<Rightarrow> bool" where
  "usable c = (conf_ok c \<and> 0 < n_tasks c \<and> 2 \<le> n_mems c \<and> 0 < n_cpufreqs c \<and> 0 < n_clouds c)"

lemma usableD:
  assumes "usable c"
  shows "conf_ok c" "0 < n_tasks c" "2 \<le> n_mems c" "0 < n_cpufreqs c" "0 < n_clouds c"
    "n_tasks c \<le> MAX_TASKS" "n_mems c \<le> MAX_ATTRTYPES" "n_cpufreqs c \<le> MAX_ATTRTYPES"
    "n_clouds c \<le> MAX_ATTRTYPES"
  using assms by (auto simp: usable_def conf_ok_def caps)

lemma same_choice_util: "same_choice gene gene' \<Longrightarrow> gene_util c gene' n = gene_util c gene n"
  by (simp add: gene_util_def task_up_def same_choice_def)

lemma same_choice_memusage:
  assumes "same_choice gene gene'"
  shows "check_memusage c gene' = check_memusage c gene"
proof -
  have "memusage_step c gene' = memusage_step c gene"
    using assms by (intro ext) (simp add: memusage_step_def same_choice_def)
  then show ?thesis by (simp add: check_memusage_def)
qed

text \<open>One evaluation: the program stops, or the gene is admitted, or it is left for change.\<close>

lemma evaluate_cases:
  assumes "conf_ok c" and "0 < n_cpufreqs c" and "gene_ok c gene" and "check_memusage c gene = Inr True"
  obtains "check_utilpower c gene = Inl (Fatal 3)"
  | gene' where "check_utilpower c gene = Inr (True, gene')" "admitted c gene'"
  | gene' where "check_utilpower c gene = Inr (False, gene')" "gene_ok c gene'"
proof (cases "\<forall>i<n_tasks c. task_fits c gene i")
  case False
  with check_utilpower_cases [OF assms(1) gene_ok_safe [OF assms(3)] assms(2)] that(1)
  show ?thesis by auto
next
  case True
  with check_utilpower_cases [OF assms(1) gene_ok_safe [OF assms(3)] assms(2)]
  obtain b gene' where r: "check_utilpower c gene = Inr (b, gene')" "evaluated c gene b gene'" by auto
  then have same: "same_choice gene gene'" by (simp add: evaluated_def)
  have ok: "gene_ok c gene'" using gene_ok_same [OF same assms(3)] .
  show ?thesis
  proof (cases b)
    case True
    have "all_local (n_tasks c) gene" using assms(3) by (simp add: gene_ok_def)
    then have "admitted c gene'"
      using r(2) ok True assms(4) unfolding admitted_def same_choice_util [OF same] same_choice_memusage [OF same]
      by (auto simp: evaluated_def)
    with r(1) True that(2) show ?thesis by simp
  next
    case False
    with r(1) ok that(3) show ?thesis by simp
  qed
qed

text \<open>A configuration whose every choice of memories and frequencies is feasible.\<close>

definition roomy :: "conf \<Rightarrow> bool" where
  "roomy c = (\<forall>gene. gene_ok c gene \<longrightarrow> check_memusage c gene = Inr True
     \<and> (\<forall>i<n_tasks c. task_fits c gene i) \<and> gene_util c gene (n_tasks c) \<le> cutoff c)"

lemma roomy_accepts:
  assumes "roomy c" and "conf_ok c" and "0 < n_cpufreqs c" and "gene_ok c gene"
  shows "check_memusage c gene = Inr True" and "\<exists>gene'. check_utilpower c gene = Inr (True, gene')"
  using check_utilpower_cases [OF assms(2) gene_ok_safe [OF assms(4)] assms(3)] assms(1,4)
  by (auto simp: roomy_def evaluated_def)

section \<open>Creating a gene\<close>

definition shaped :: "gene_t \<Rightarrow> bool" where
  "shaped gene =
     (length (attrs (taskattrs_mem gene)) = MAX_TASKS \<and> length (attrs (taskattrs_cloud gene)) = MAX_TASKS
      \<and> length (attrs (taskattrs_cpufreq gene)) = MAX_TASKS
      \<and> length (attrs (taskattrs_offloadingratio gene)) = MAX_TASKS)"

lemma shaped_zero: "shaped zero_gene"
  by (simp add: shaped_def zero_gene_def zero_taskattrs_def)

lemma assign_typed:
  assumes "length (attrs ta) = MAX_TASKS" and "n \<le> MAX_TASKS" and "0 < k" and "k \<le> MAX_ATTRTYPES"
  shows "\<exists>ta' g'. assign_taskattrs n ta (of_nat k) g = Inr (ta', g') \<and> typed n k ta' \<and> fair g' = fair g"
proof -
  have k: "unat (of_nat k :: u32) = k" using assms(4) by (intro unat_of_nat_u32) (simp add: caps)
  then have "(of_nat k :: u32) \<noteq> 0" using assms(3) by auto
  from assign_taskattrs_ok [OF assms(1,2) this, of g] k assms(4) show ?thesis
    by (auto simp: typed_def)
qed

lemma clear_loop:
  assumes "length (attrs ta) = MAX_TASKS" and "n \<le> MAX_TASKS"
  shows "\<exists>ta'. for_upto clear_step 0 n ta = Inr ta' \<and> length (attrs ta') = MAX_TASKS
    \<and> (\<forall>j<n. attrs ta' ! j = 0)"
proof (rule for_upto_rule [where P = "\<lambda>i ta'. length (attrs ta') = MAX_TASKS \<and> (\<forall>j<i. attrs ta' ! j = 0)"])
  fix j and s :: taskattrs_t assume "j < n" "length (attrs s) = MAX_TASKS \<and> (\<forall>i<j. attrs s ! i = 0)"
  with assms(2) show "\<exists>s'. clear_step j s = Inr s' \<and> length (attrs s') = MAX_TASKS
      \<and> (\<forall>i<Suc j. attrs s' ! i = 0)"
    by (simp add: clear_step_def nth_list_update less_Suc_eq)
qed (use assms(1) in simp_all)

lemma init_choices_ok:
  assumes "usable c" and "shaped gene"
  shows "\<exists>gene' g'. init_choices c gene g = Inr (gene', g') \<and> gene_ok c gene' \<and> fair g' = fair g"
proof -
  note u = usableD [OF assms(1)]
  have sh: "length (attrs (taskattrs_mem gene)) = MAX_TASKS" "length (attrs (taskattrs_cloud gene)) = MAX_TASKS"
    "length (attrs (taskattrs_cpufreq gene)) = MAX_TASKS"
    "length (attrs (taskattrs_offloadingratio gene)) = MAX_TASKS"
    using assms(2) by (simp_all add: shaped_def)
  have "0 < n_mems c" using u(3) by linarith
  from assign_typed [OF sh(1) u(6) this u(7), of g] obtain mem g1 where
    1: "assign_taskattrs (n_tasks c) (taskattrs_mem gene) (of_nat (n_mems c)) g = Inr (mem, g1)"
      "typed (n_tasks c) (n_mems c) mem" "fair g1 = fair g" by blast
  from assign_typed [OF sh(3) u(6) u(4) u(8), of g1] obtain freq g2 where
    2: "assign_taskattrs (n_tasks c) (taskattrs_cpufreq gene) (of_nat (n_cpufreqs c)) g1 = Inr (freq, g2)"
      "typed (n_tasks c) (n_cpufreqs c) freq" "fair g2 = fair g1" by blast
  from assign_typed [OF sh(2) u(6) u(5) u(9), of g2] obtain cloud g3 where
    3: "assign_taskattrs (n_tasks c) (taskattrs_cloud gene) (of_nat (n_clouds c)) g2 = Inr (cloud, g3)"
      "typed (n_tasks c) (n_clouds c) cloud" "fair g3 = fair g2" by blast
  from clear_loop [OF sh(4) u(6)] obtain r0 where
    4: "for_upto clear_step 0 (n_tasks c) (taskattrs_offloadingratio gene) = Inr r0"
      "length (attrs r0) = MAX_TASKS" "\<forall>j<n_tasks c. attrs r0 ! j = 0" by blast
  from 4(3) have "\<forall>j<n_tasks c. unat (attrs r0 ! j) < MAX_ATTRTYPES" by (simp add: caps)
  from setup_taskattrs_ok [OF 4(2) u(6) this] obtain ratio where
    5: "setup_taskattrs (n_tasks c) r0 = Inr ratio" "attrs ratio = attrs r0" "hist_ok (n_tasks c) ratio" by blast
  have "init_choices c gene g = Inr (gene\<lparr>taskattrs_mem := mem, taskattrs_cpufreq := freq,
      taskattrs_cloud := cloud, taskattrs_offloadingratio := ratio\<rparr>, g3)"
    by (simp add: init_choices_def 1(1) 2(1) 3(1) 4(1) 5(1))
  with 1 2 3 4(3) 5 show ?thesis by (simp add: gene_ok_def all_local_def)
qed

lemma rebalanced_typed:
  assumes "typed n k ta" and "rebalanced n w ta ta'" and "unat w = k" and "n \<le> MAX_TASKS"
  shows "typed n k ta'"
proof -
  obtain i v where v: "unat v < k" "attrs ta' = (attrs ta)[i := v]" "hist_ok n ta'"
    using assms(2,3) unfolding rebalanced_def by blast
  then have "\<forall>j<n. unat ((attrs ta)[i := v] ! j) < k"
    using assms(1,4) by (intro all_nth_update) (simp_all add: typed_def hist_ok_def)
  with v show ?thesis by (simp add: typed_def)
qed

text \<open>Gene \<open>i\<close> is free when no list holds it: then changing it disturbs no list.\<close>

lemma lists_ok_put:
  assumes "lists_ok s js" and "\<And>k. i \<notin> set (js k)"
  shows "lists_ok (put_gene i gene s) js"
proof -
  have "ranked (less_by k ((genes s)[i := gene])) (js k) = ranked (less_by k (genes s)) (js k)" for k
    using assms(2) [of k] by (intro ranked_cong) (metis less_by_def nth_list_update_neq)
  then show ?thesis using assms(1) by (simp add: lists_ok_def put_gene_def)
qed

lemma lists_ok_rng [simp]: "lists_ok (s\<lparr>rng := g\<rparr>) js = lists_ok s js"
  by (simp add: lists_ok_def)

lemma put_gene_simps [simp]:
  "links (put_gene i gene s) = links s" "rng (put_gene i gene s) = rng s"
  "length (genes (put_gene i gene s)) = length (genes s)"
  "genes (put_gene i gene s) = (genes s)[i := gene]"
  by (simp_all add: put_gene_def)

lemma init_nodes_simps [simp]:
  "genes (init_nodes i s) = genes s" "rng (init_nodes i s) = rng s"
  by (simp_all add: init_nodes_def)

lemma init_nodes_ok:
  assumes "lists_ok s js" and "\<And>k. i \<notin> set (js k)"
  shows "lists_ok (init_nodes i s) js" and "detached i (init_nodes i s)"
proof -
  have "dll (links (init_nodes i s)) (Head k) (map (Entry k) (js k))" for k
    using assms unfolding lists_ok_def
    by (auto simp: init_nodes_def intro!: dll_init_other)
  with assms(1) show "lists_ok (init_nodes i s) js" by (simp add: lists_ok_def)
  have "dll (links (init_nodes i s)) (Entry k i) []" for k
    by (cases k) (auto simp: init_nodes_def intro!: dll_self dll_init_other)
  then show "detached i (init_nodes i s)" by (simp add: detached_def)
qed

text \<open>What adding gene \<open>i\<close> to the lists means; the other genes stay.\<close>

definition joined :: "conf \<Rightarrow> nat \<Rightarrow> (kind \<Rightarrow> nat list) \<Rightarrow> ga \<Rightarrow> ga \<Rightarrow> bool" where
  "joined c i js s s' =
     (\<exists>gene. genes s' = (genes s)[i := gene] \<and> admitted c gene
      \<and> lists_ok s' (\<lambda>k. insort_by (less_by k (genes s')) i (js k)) \<and> fair (rng s'))"

lemma init_loop_ok:
  assumes "usable c" and "\<And>k. i \<notin> set (js k)"
    and "lists_ok s js" and "i < length (genes s)" and "gene_ok c (genes s ! i)" and "fair (rng s)"
  shows "init_loop c i t s = fail (Fatal 3) \<and> (roomy c \<longrightarrow> MAX_TRY \<le> t)
    \<or> (\<exists>s'. init_loop c i t s = ret s' \<and> joined c i js s s')"
  using assms(3-)
proof (induction "MAX_TRY - t" arbitrary: t s)
  case 0
  then show ?case by (simp add: init_loop.simps [of c i t s])
next
  case (Suc m)
  note u = usableD [OF assms(1)]
  define s1 where "s1 = init_nodes i s"
  have lt: "t < MAX_TRY" and m: "m = MAX_TRY - Suc t" using Suc.hyps(2) by simp_all
  have s1: "lists_ok s1 js" "detached i s1" "i < length (genes s1)" "gene_ok c (genes s1 ! i)"
    "fair (rng s1)" "genes s1 = genes s"
    unfolding s1_def using init_nodes_ok [OF Suc.prems(1) assms(2)] Suc.prems(2-) by simp_all
  define gene where "gene = genes s1 ! i"
  note easy = roomy_accepts [OF _ u(1,4) s1(4) [folded gene_def]]
  have again: "init_loop c i (Suc t) (put_gene i x (s1\<lparr>rng := g\<rparr>)) = fail (Fatal 3)
      \<or> (\<exists>s'. init_loop c i (Suc t) (put_gene i x (s1\<lparr>rng := g\<rparr>)) = ret s' \<and> joined c i js s s')"
    if "gene_ok c x" "fair g" for x g
  proof -
    have "lists_ok (put_gene i x (s1\<lparr>rng := g\<rparr>)) js"
      by (rule lists_ok_put) (use s1(1) assms(2) in simp_all)
    from Suc.hyps(1) [OF m this] that s1(3,6) show ?thesis by (auto simp: joined_def)
  qed
  obtain fits where fits: "check_memusage c gene = Inr fits"
    using check_memusage_total u(1) gene_ok_safe s1(4) unfolding gene_def by blast
  have run: "init_loop c i t s =
      (if \<not> fits then
         run_bind (balance_mem_types (n_tasks c) (of_nat (n_mems c)) (taskattrs_mem gene) (rng s1)) (\<lambda>(ta, g).
         init_loop c i (Suc t) (put_gene i (gene\<lparr>taskattrs_mem := ta\<rparr>) (s1\<lparr>rng := g\<rparr>)))
       else
         run_bind (Some (check_utilpower c gene)) (\<lambda>(ok, gene).
         if ok then sort_gene i (put_gene i gene s1)
         else
           run_bind (lower_utilization c gene (rng s1)) (\<lambda>(gene, g).
           init_loop c i (Suc t) (put_gene i gene (s1\<lparr>rng := g\<rparr>)))))"
    using lt s1(3) fits
    by (subst init_loop.simps) (simp add: s1_def [symmetric] gene_def [symmetric] Let_def)
  show ?case
  proof (cases fits)
    case False
    have tm: "typed (n_tasks c) (n_mems c) (taskattrs_mem gene)"
      using s1(4) by (simp add: gene_ok_def gene_def)
    have w: "unat (of_nat (n_mems c) :: u32) = n_mems c"
      using u(7) by (intro unat_of_nat_u32) (simp add: caps)
    have "hist_ok (n_tasks c) (taskattrs_mem gene)" using tm by (simp add: typed_def)
    then obtain ta g where b: "balance_mem_types (n_tasks c) (of_nat (n_mems c)) (taskattrs_mem gene) (rng s1)
        = ret (ta, g)" "fair g"
      "ta = taskattrs_mem gene \<or> rebalanced (n_tasks c) (of_nat (n_mems c)) (taskattrs_mem gene) ta"
      using balance_fair [of "n_tasks c" "taskattrs_mem gene" "of_nat (n_mems c)" "rng s1"] u s1(5) w by auto
    have "typed (n_tasks c) (n_mems c) ta" using b(3) tm rebalanced_typed [OF tm _ w u(6)] by blast
    then have "gene_ok c (gene\<lparr>taskattrs_mem := ta\<rparr>)"
      using s1(4) by (simp add: gene_ok_def gene_def all_local_def)
    moreover have "\<not> roomy c" using easy(1) fits False by auto
    ultimately show ?thesis using again [of "gene\<lparr>taskattrs_mem := ta\<rparr>" g] b(1,2) False by (simp add: run)
  next
    case True
    with fits have m: "check_memusage c gene = Inr True" by simp
    show ?thesis
    proof (rule evaluate_cases [OF u(1,4) s1(4) [folded gene_def] m])
      assume "check_utilpower c gene = Inl (Fatal 3)"
      with True easy(2) show ?thesis by (auto simp: run)
    next
      fix gene' assume r: "check_utilpower c gene = Inr (True, gene')" "admitted c gene'"
      have l: "lists_ok (put_gene i gene' s1) js" by (rule lists_ok_put [OF s1(1) assms(2)])
      have d: "detached i (put_gene i gene' s1)" using s1(2) by (simp add: detached_def)
      obtain h where "sort_gene i (put_gene i gene' s1) = ret (put_gene i gene' s1\<lparr>links := h\<rparr>)"
        "lists_ok (put_gene i gene' s1\<lparr>links := h\<rparr>)
           (\<lambda>k. insort_by (less_by k (genes (put_gene i gene' s1))) i (js k))"
        using sort_gene_ok [OF l d _ assms(2)] s1(3) by auto
      with r True s1(5,6) show ?thesis by (auto simp: run joined_def)
    next
      fix gene' assume r: "check_utilpower c gene = Inr (False, gene')" "gene_ok c gene'"
      obtain gene2 g where l: "lower_utilization c gene' (rng s1) = ret (gene2, g)" "gene_ok c gene2"
        "fair g = fair (rng s1)"
        using lower_utilization_cases [OF u(1) r(2) u(2,4)] by blast
      have "\<not> roomy c" using easy(2) r(1) by auto
      with again [OF l(2)] l(1,3) s1(5) r(1) True show ?thesis by (simp add: run)
    qed
  qed
qed

section \<open>Populations\<close>

text \<open>
  \<open>pop c A js s\<close>: the genes with index in \<open>A\<close> were admitted, and \<open>js k\<close> is the list of kind
  \<open>k\<close>, a permutation of \<open>A\<close> in the order of its key.
\<close>

definition pop :: "conf \<Rightarrow> nat set \<Rightarrow> (kind \<Rightarrow> nat list) \<Rightarrow> ga \<Rightarrow> bool" where
  "pop c A js s =
     (lists_ok s js \<and> (\<forall>k. set (js k) = A) \<and> (\<forall>i\<in>A. admitted c (genes s ! i)) \<and> fair (rng s))"

lemma lists_ok_distinct: "lists_ok s js \<Longrightarrow> distinct (js k)"
  using dll_distinct [of "links s" "Head k" "map (Entry k) (js k)"]
  by (simp add: lists_ok_def distinct_map)

lemma joined_pop:
  assumes "pop c A js s" and "joined c i js s s'" and "i < length (genes s)" and "i \<notin> A"
  shows "pop c (insert i A) (\<lambda>k. insort_by (less_by k (genes s')) i (js k)) s'"
    and "length (genes s') = length (genes s)"
  using assms by (auto simp: joined_def pop_def nth_list_update)

definition fresh :: "nat \<Rightarrow> ga \<Rightarrow> bool" where
  "fresh i s = (\<forall>j<length (genes s). i \<le> j \<longrightarrow> genes s ! j = zero_gene)"

lemma init_gene_ok:
  assumes "usable c" and "pop c {..<i} js s" and "fresh i s" and "i < length (genes s)"
  shows "init_gene c i s = fail (Fatal 3) \<and> \<not> roomy c
    \<or> (\<exists>s' js'. init_gene c i s = ret s' \<and> pop c {..<Suc i} js' s' \<and> fresh (Suc i) s'
         \<and> length (genes s') = length (genes s))"
proof -
  have z: "genes s ! i = zero_gene" using assms(3,4) by (simp add: fresh_def)
  have P: "lists_ok s js" "\<And>k. i \<notin> set (js k)" "fair (rng s)"
    using assms(2) by (simp_all add: pop_def)
  obtain gene g where c: "init_choices c zero_gene (rng s) = Inr (gene, g)" "gene_ok c gene" "fair g"
    using init_choices_ok [OF assms(1) shaped_zero, of "rng s"] P(3) by blast
  define s1 where "s1 = put_gene i gene (s\<lparr>rng := g\<rparr>)"
  have s1: "lists_ok s1 js" unfolding s1_def by (rule lists_ok_put) (use P in simp_all)
  have run: "init_gene c i s = init_loop c i 0 s1"
    using assms(4) c(1) z by (simp add: init_gene_def s1_def)
  have "init_loop c i 0 s1 = fail (Fatal 3) \<and> (roomy c \<longrightarrow> MAX_TRY \<le> 0)
      \<or> (\<exists>s'. init_loop c i 0 s1 = ret s' \<and> joined c i js s1 s')"
    by (rule init_loop_ok [OF assms(1) P(2) s1]) (use assms(4) c in \<open>simp_all add: s1_def\<close>)
  then show ?thesis
  proof
    assume "\<exists>s'. init_loop c i 0 s1 = ret s' \<and> joined c i js s1 s'"
    then obtain s' where s': "init_gene c i s = ret s'" "joined c i js s1 s'" using run by auto
    have "pop c {..<i} js s1" using assms(2) s1 c(3) by (auto simp: pop_def s1_def)
    from joined_pop [OF this s'(2)] assms(4)
    have "pop c (insert i {..<i}) (\<lambda>k. insort_by (less_by k (genes s')) i (js k)) s'"
      "length (genes s') = length (genes s)" by (simp_all add: s1_def)
    moreover have "fresh (Suc i) s'" using assms(3) s'(2) by (auto simp: fresh_def joined_def s1_def)
    ultimately show ?thesis using s'(1) by (auto simp: lessThan_Suc)
  qed (simp add: run MAX_TRY_def)
qed

lemma init_all_ok:
  assumes "usable c" and "pop c {..<i} js s" and "fresh i s" and "length (genes s) = n" and "i \<le> n"
  shows "init_all c n i (s, u) = fail (Fatal 3) \<and> \<not> roomy c
    \<or> (\<exists>s' js' u'. init_all c n i (s, u) = ret (s', u') \<and> pop c {..<n} js' s' \<and> length (genes s') = n)"
  using assms(2-)
proof (induction "n - i" arbitrary: i js s u)
  case 0
  then show ?case by (auto simp: init_all.simps)
next
  case (Suc m)
  then have lt: "i < n" and m: "m = n - Suc i" by simp_all
  from init_gene_ok [OF assms(1) Suc.prems(1,2)] lt Suc.prems(3)
  consider "init_gene c i s = fail (Fatal 3)" "\<not> roomy c"
    | s' js' where "init_gene c i s = ret s'" "pop c {..<Suc i} js' s'" "fresh (Suc i) s'"
      "length (genes s') = n" by auto
  then show ?case
  proof cases
    case 1
    with lt show ?thesis by (simp add: init_all.simps [of c n i])
  next
    case (2 s' js')
    from Suc.hyps(1) [OF m 2(2-4), of "u + g_util (genes s' ! i)"] lt 2(1,4) show ?thesis
      by (simp add: init_all.simps [of c n i])
  qed
qed

lemma init_heads_ok: "dll init_heads (Head k) []"
  by (cases k) (auto simp: init_heads_def intro!: dll_self dll_init_other)

lemma init_populations_cases:
  assumes "usable c" and "fair g"
  shows "init_populations c g = fail (Fatal 3) \<and> \<not> roomy c
    \<or> (\<exists>s js u. init_populations c g = ret (s, u) \<and> pop c {..<unat (n_pops c)} js s
         \<and> length (genes s) = unat (n_pops c))"
proof -
  define s0 where "s0 = \<lparr>genes = replicate (unat (n_pops c)) zero_gene, links = init_heads, rng = g\<rparr>"
  have "pop c {..<0} (\<lambda>_. []) s0"
    using assms(2) init_heads_ok by (simp add: pop_def lists_ok_def s0_def)
  moreover have "fresh 0 s0" by (simp add: fresh_def s0_def)
  ultimately have "init_all c (unat (n_pops c)) 0 (s0, 0) = fail (Fatal 3) \<and> \<not> roomy c
    \<or> (\<exists>s' js' u'. init_all c (unat (n_pops c)) 0 (s0, 0) = ret (s', u')
         \<and> pop c {..<unat (n_pops c)} js' s' \<and> length (genes s') = unat (n_pops c))"
    by (intro init_all_ok [OF assms(1)]) (simp_all add: s0_def)
  then show ?thesis by (auto simp: init_populations_def s0_def)
qed

section \<open>A concrete population\<close>

text \<open>
  A configuration with two tasks, two memories and three genes, and a population for it: one
  admitted gene, three times.
\<close>

definition small_conf :: conf where
  "small_conf =
     (let task = zero_task\<lparr>t_wcet := 500, t_period := 2000, t_memreq := 10\<rparr>;
          mem = zero_mem\<lparr>m_typestr := Some ''dram'', m_max_capacity := 1000, m_wcet_scale := 1\<rparr>
      in init_conf\<lparr>max_gen := 5, n_pops := 3, cutoff := 1,
           tasks := [task\<lparr>t_no := 1\<rparr>, task\<lparr>t_no := 2\<rparr>], mems := [mem, mem],
           cpufreqs := [zero_cpufreq\<lparr>cf_wcet_scale := 1\<rparr>], offloadingratios := [0],
           clouds := [zero_cloud\<lparr>cl_typestr := Some ''mec'', cl_computation_power := 1\<rparr>]\<rparr>)"

definition two_tasks :: taskattrs_t where
  "two_tasks = \<lparr>attrs = replicate MAX_TASKS 0, n_tasks_per_type = (replicate MAX_ATTRTYPES 0)[0 := 2],
     max_type = 0\<rparr>"

definition small_choices :: gene_t where
  "small_choices = zero_gene\<lparr>taskattrs_mem := two_tasks, taskattrs_cloud := two_tasks,
     taskattrs_cpufreq := two_tasks, taskattrs_offloadingratio := two_tasks\<rparr>"

definition small_gene :: gene_t where
  "small_gene = small_choices\<lparr>g_util := Fin False (1 / 2), g_total_cost := Fin False 56, g_score := Fin False 56\<rparr>"

lemma small_conf_sizes [simp]:
  "n_tasks small_conf = 2" "n_mems small_conf = 2" "n_cpufreqs small_conf = 1"
  "n_clouds small_conf = 1" "n_pops small_conf = 3" "max_gen small_conf = 5"
  by (simp_all add: small_conf_def init_conf_def Let_def)

lemma small_conf_usable: "usable small_conf"
  by (auto simp: usable_def conf_ok_def small_conf_def init_conf_def Let_def caps numbered_def zero_task_def
      less_Suc_eq numeral_2_eq_2)

lemma small_choices_ok: "gene_ok small_conf small_choices"
proof -
  have two: "replicate 2 x = [x, x]" for x :: u8 by (simp add: numeral_2_eq_2)
  have "hist_ok 2 two_tasks"
    by (auto simp: hist_ok_def two_tasks_def caps tally_def nth_list_update two)
  moreover have "i < 200 \<Longrightarrow> attrs two_tasks ! i = 0" for i
    by (simp add: two_tasks_def caps)
  ultimately show ?thesis
    by (simp add: gene_ok_def typed_def all_local_def small_choices_def)
qed

lemma upt_2: "[0..<2] = [0, 1 :: nat]"
  by (simp add: upt_rec)

text \<open>Every choice is feasible: the memories are equal and there is one frequency.\<close>

lemma small_rows:
  assumes "gene_ok small_conf gene" and "i < 2"
  shows "row zero_cpufreq (cpufreqs small_conf) (unat (freq_of gene i)) = zero_cpufreq\<lparr>cf_wcet_scale := 1\<rparr>"
    and "row zero_mem (mems small_conf) (unat (mem_of gene i)) = mems small_conf ! 0"
    and "row 0 (offloadingratios small_conf) (unat (ratio_of gene i)) = 0"
    and "tasks small_conf ! i = (tasks small_conf ! 0)\<lparr>t_no := t_no (tasks small_conf ! i)\<rparr>"
proof -
  have b: "unat (freq_of gene i) < 1" "unat (mem_of gene i) < 2" "ratio_of gene i = 0"
    using assms by (auto simp: gene_ok_def typed_def all_local_def)
  show "row zero_cpufreq (cpufreqs small_conf) (unat (freq_of gene i)) = zero_cpufreq\<lparr>cf_wcet_scale := 1\<rparr>"
    using b(1) by (simp add: row_def small_conf_def init_conf_def Let_def)
  show "row zero_mem (mems small_conf) (unat (mem_of gene i)) = mems small_conf ! 0"
    using b(2) by (auto simp: row_def small_conf_def init_conf_def Let_def less_2_cases_iff)
  show "row 0 (offloadingratios small_conf) (unat (ratio_of gene i)) = 0"
    using b(3) by (simp add: row_def small_conf_def init_conf_def Let_def)
  show "tasks small_conf ! i = (tasks small_conf ! 0)\<lparr>t_no := t_no (tasks small_conf ! i)\<rparr>"
    using assms(2) by (auto simp: small_conf_def init_conf_def Let_def less_2_cases_iff)
qed

lemma small_task:
  assumes "i < 2"
  shows "t_wcet (tasks small_conf ! i) = 500" "t_period (tasks small_conf ! i) = 2000"
    "t_memreq (tasks small_conf ! i) = 10" "m_wcet_scale (mems small_conf ! 0) = 1"
  using assms by (auto simp: small_conf_def init_conf_def Let_def less_2_cases_iff)

lemma small_ws:
  assumes "gene_ok small_conf gene" and "i < 2"
  shows "wcet_scaled_of (tasks small_conf ! i)
      (row zero_cpufreq (cpufreqs small_conf) (unat (freq_of gene i)))
      (row zero_mem (mems small_conf) (unat (mem_of gene i))) = of_u32 500"
  unfolding small_rows(1,2) [OF assms] wcet_scaled_of_def small_task [OF assms(2)]
  by (simp add: one_over_one f64_mult_one wf64_of_u32)

lemma small_fits:
  assumes "gene_ok small_conf gene"
  shows "\<forall>i<n_tasks small_conf. task_fits small_conf gene i"
proof -
  have "\<not> of_u32 2000 \<le> of_u32 500" by (simp add: of_u32_def less_eq_f64_def fle_def)
  then show ?thesis using small_ws [OF assms] small_task by (simp add: task_fits_def)
qed

lemma small_util:
  assumes "gene_ok small_conf gene"
  shows "gene_util small_conf gene 2 = Fin False (1 / 2)"
proof -
  have mk4: "mk False (1 / 4) = Fin False (1 / 4)" "mk False (1 / 2) = Fin False (1 / 2)"
    using mk_exact [of 1 "-2" False] mk_exact [of 1 "-1" False] by (simp_all add: power_int_minus)
  have up: "up_util (task_up small_conf gene i) = Fin False (1 / 4)" if i: "i < 2" for i
  proof -
    have nc: "row zero_net_commander (net_commanders small_conf) i = zero_net_commander"
      by (simp add: small_conf_def init_conf_def row_def Let_def)
    have "up_util (task_up small_conf gene i) =
        (of_u32 500 * 1 + 1 * of_u32 0 * 0) / of_u32 2000"
      unfolding task_up_def utilpower_of_sel(1) small_ws [OF assms i]
      unfolding small_rows(1) [OF assms i] small_task [OF i] nc one_minus_real_offloading
      by (simp add: zero_net_commander_def real_offloading_def one_over_one)
    also have "\<dots> = Fin False (1 / 4)"
      using mk_int [of 500 False] mk4(1)
      by (simp add: f64_mult_one wf64_of_u32) (simp add: of_u32_def f64_ops lit_def)
    finally show ?thesis .
  qed
  have "gene_util small_conf gene 2 = 0 + Fin False (1 / 4) + Fin False (1 / 4)"
    by (simp add: gene_util_def up upt_2)
  then show ?thesis using mk4 by (simp add: f64_ops lit_def)
qed

lemma small_memory:
  assumes "gene_ok small_conf gene"
  shows "check_memusage small_conf gene = Inr True"
proof -
  have m: "task_mem small_conf gene i = Fin False 10" if "i < 2" for i
    unfolding task_mem_def small_rows(3) [OF assms that] small_task(3) [OF that]
    by (simp add: f64_diff_zero [OF wf64_one nnan_one] f64_mult_one wf64_of_u32) (simp add: of_u32_def)
  have "mem_load small_conf gene 2 k \<in> {Fin False 0, Fin False 10, Fin False 20}" for k
    using m [of 0] m [of 1] mk_int [of 10 False] mk_int [of 20 False]
    by (auto simp: mem_load_def upt_2 f64_ops lit_def)
  then have "\<not> of_u32 1000 < mem_load small_conf gene 2 k" for k
    by (auto simp: of_u32_def less_f64_def dest: meta_spec [of _ k])
  moreover have "m_max_capacity (mems small_conf ! k) = 1000" if "k < 2" for k
    using that by (auto simp: small_conf_def init_conf_def Let_def less_2_cases_iff)
  ultimately show ?thesis
    using small_conf_usable check_memusage_eq gene_ok_safe [OF assms]
    by (simp add: usable_def)
qed

lemma small_cutoff: "cutoff small_conf = 1"
  by (simp add: small_conf_def init_conf_def Let_def)

lemma small_roomy: "roomy small_conf"
  unfolding roomy_def using small_memory small_fits small_util
  by (simp add: small_cutoff f64_ops)

lemma small_gene_admitted: "admitted small_conf small_gene"
proof -
  have same: "same_choice small_choices small_gene" by (simp add: same_choice_def small_gene_def)
  note ok = gene_ok_same [OF same small_choices_ok]
  have half: "\<not> 1 \<le> Fin False (1 / 2)" "Fin False (1 / 2) \<le> (1 :: f64)" by (simp_all add: f64_ops)
  have net: "g_period_violation small_gene = 0" "g_cost_network small_gene = 0"
    by (simp_all add: small_gene_def small_choices_def zero_gene_def)
  have sel: "g_util small_gene = Fin False (1 / 2)" "g_total_cost small_gene = Fin False 56"
    "g_score small_gene = Fin False 56" by (simp_all add: small_gene_def)
  show ?thesis
    using ok half net small_memory [OF ok] small_util [OF ok]
    by (simp add: admitted_def score_of_def small_cutoff sel)
qed

text \<open>The state after the first \<open>n\<close> genes were sorted in.\<close>

definition small_start :: ga where
  "small_start = \<lparr>genes = replicate 3 small_gene, links = init_heads, rng = counter\<rparr>"

primrec enrolled :: "nat \<Rightarrow> ga run" where
  "enrolled 0 = ret small_start"
| "enrolled (Suc i) = run_bind (enrolled i) (\<lambda>s. sort_gene i (init_nodes i s))"

definition small_pop :: "nat \<Rightarrow> ga" where
  "small_pop n = (case enrolled n of Some (Inr s) \<Rightarrow> s | _ \<Rightarrow> small_start)"

lemma enrolled_ok:
  assumes "n \<le> 3"
  shows "\<exists>s js. enrolled n = ret s \<and> lists_ok s js \<and> (\<forall>k. set (js k) = {..<n})
    \<and> genes s = replicate 3 small_gene \<and> rng s = counter"
  using assms
proof (induction n)
  case 0
  have "lists_ok small_start (\<lambda>_. [])" using init_heads_ok by (simp add: lists_ok_def small_start_def)
  then show ?case by (auto simp: small_start_def intro!: exI [of _ "\<lambda>_. []"])
next
  case (Suc i)
  then obtain s js where s: "enrolled i = ret s" "lists_ok s js" "\<And>k. set (js k) = {..<i}"
    "genes s = replicate 3 small_gene" "rng s = counter" by auto
  have n: "i \<notin> set (js k)" for k using s(3) by simp
  note l = init_nodes_ok [OF s(2) n]
  obtain h where "sort_gene i (init_nodes i s) = ret (init_nodes i s\<lparr>links := h\<rparr>)"
    "lists_ok (init_nodes i s\<lparr>links := h\<rparr>) (\<lambda>k. insort_by (less_by k (genes (init_nodes i s))) i (js k))"
    using sort_gene_ok [OF l _ n] Suc.prems s(4) by auto
  moreover have "set (insort_by (less_by k (genes (init_nodes i s))) i (js k)) = {..<Suc i}" for k
    using s(3) by (auto simp: lessThan_Suc)
  ultimately show ?case using s by auto
qed

lemma small_pop_lists:
  assumes "n \<le> 3"
  shows "\<exists>js. lists_ok (small_pop n) js \<and> (\<forall>k. set (js k) = {..<n})
    \<and> genes (small_pop n) = replicate 3 small_gene \<and> fair (rng (small_pop n))"
  using enrolled_ok [OF assms] fair_counter by (auto simp: small_pop_def)

lemma small_pop_ok:
  "\<exists>js. pop small_conf {..<3} js (small_pop 3) \<and> length (genes (small_pop 3)) = 3"
  using small_pop_lists [of 3] small_gene_admitted by (auto simp: pop_def)

text \<open>Its scores are numbers.\<close>

lemma small_score: "g_score small_gene \<noteq> NaN"
  by (simp add: small_gene_def)

lemma small_pop_scores: "i < 3 \<Longrightarrow> g_score (genes (small_pop 3) ! i) \<noteq> NaN"
  using small_pop_lists [of 3] small_score by auto

section \<open>Properties\<close>

text \<open>C19. \<open>sort_gene\<close> puts a gene that is in no list into the three sorted lists, each time
  before the first gene with a greater key, and changes nothing else; the other genes keep
  their order and the lists stay well formed.\<close>

theorem sort_gene_inserts:
  assumes "lists_ok s js" and "detached i s" and "i < length (genes s)" and "\<forall>k. i \<notin> set (js k)"
  shows "\<exists>h. sort_gene i s = ret (s\<lparr>links := h\<rparr>)
    \<and> lists_ok (s\<lparr>links := h\<rparr>) (\<lambda>k. insort_by (less_by k (genes s)) i (js k))"
  using sort_gene_ok [OF assms(1-3)] assms(4) by blast

theorem sort_gene_inserts_witness:
  "\<exists>h. sort_gene 0 (init_nodes 0 small_start) = ret (init_nodes 0 small_start\<lparr>links := h\<rparr>)
    \<and> lists_ok (init_nodes 0 small_start\<lparr>links := h\<rparr>)
        (\<lambda>k. insort_by (less_by k (genes (init_nodes 0 small_start))) 0 [])"
proof (rule sort_gene_inserts)
  have "lists_ok small_start (\<lambda>_. [])" using init_heads_ok by (simp add: lists_ok_def small_start_def)
  from init_nodes_ok [OF this, of 0]
  show "lists_ok (init_nodes 0 small_start) (\<lambda>_. [])" "detached 0 (init_nodes 0 small_start)" by simp_all
qed (simp_all add: small_start_def)

text \<open>C12. For a usable configuration and a fair generator \<open>init_populations\<close> ends: either with
  \<open>FATAL(3)\<close>, which a configuration with only feasible choices excludes, or with \<open>n_pops\<close> genes that
  were all admitted and are all in the three sorted lists. No other error and no endless loop is
  possible.\<close>

theorem init_populations_total:
  assumes "usable c" and "fair g"
  shows "init_populations c g = fail (Fatal 3) \<and> \<not> roomy c
    \<or> (\<exists>s js u. init_populations c g = ret (s, u) \<and> pop c {..<unat (n_pops c)} js s
         \<and> length (genes s) = unat (n_pops c))"
  by (rule init_populations_cases [OF assms])

theorem init_populations_total_witness:
  "\<exists>s js u. init_populations small_conf counter = ret (s, u)
     \<and> pop small_conf {..<unat (n_pops small_conf)} js s \<and> length (genes s) = unat (n_pops small_conf)"
  using init_populations_total [OF small_conf_usable fair_counter] small_roomy by blast

end
