(* ===== verification/Selection.thy ===== *)
theory Selection
  imports Tables Rand
begin

text \<open>
  \<open>select_position\<close> of GA.c: the rank of the gene to select, from one random number. The code
  takes a square root in double precision; here it is shown to be the integer square root
  for every argument, so that the ranks and their bounds can be computed exactly.
\<close>

section \<open>The function\<close>

definition M_SEL :: u32 where "M_SEL = 4"

text \<open>All products and sums are \<open>unsigned\<close>: they wrap at \<open>2^32\<close>.\<close>

definition kvalue_of :: "u32 \<Rightarrow> u32 \<Rightarrow> u32 res" where
  "kvalue_of n alpha = to_u32 ((fsqrt (of_u32 (1 + 8 * alpha * n div M_SEL)) - 1) / lit 2)"

definition select_position :: "u32 \<Rightarrow> rng \<Rightarrow> (u32 \<times> rng) res" where
  "select_position n g =
     (let max = M_SEL * (n + 1) div 2 in
      res_bind (get_rand max g) (\<lambda>(alpha, g).
      res_bind (kvalue_of n alpha) (\<lambda>kvalue.
      if kvalue < n then Inr (n - kvalue - 1, g) else Inl Assert_Failed)))"

section \<open>The square root is exact\<close>

lemma fin_minus_one: "Fin False m - 1 = lit (m - 1)" if "0 \<le> m"
  using that by (simp add: minus_f64_def one_f64_def)

lemma sqrt_shift_bounds:
  assumes "1 \<le> w" and "w < 2 ^ 32"
  shows "18 \<le> sqrt_shift (of_int w)"
proof -
  have "ilog2 (of_int w) < 32"
    using assms of_int_less_iff [of w "2 ^ 32", where ?'a = rat]
    by (intro ilog2_less) (simp_all add: power_int_def)
  then show ?thesis by (simp add: sqrt_shift_def)
qed

lemma fsqrt_between:
  assumes "1 \<le> w" and "w < 2 ^ 32"
  defines "s \<equiv> isqrt w"
  shows "\<exists>m. fsqrt (Fin False (of_int w)) = Fin False m \<and> of_int s \<le> m
    \<and> m \<le> of_int ((s + 1) * 2 ^ 18 - 1) * 2 powi - 18"
proof -
  define K where "K = sqrt_shift (of_int w)"
  define hi :: rat where "hi = of_int ((s + 1) * 2 ^ 18 - 1) * 2 powi - 18"
  have K: "18 \<le> K" using sqrt_shift_bounds [OF assms(1,2)] by (simp add: K_def)
  have s: "0 \<le> s" "s\<^sup>2 \<le> w" "w < (s + 1)\<^sup>2"
    using isqrt_correct [of w] assms(1) by (simp_all add: s_def)
  have "s\<^sup>2 < (2 ^ 16)\<^sup>2" using s(2) assms(2) by simp
  then have s16: "s < 2 ^ 16" by (rule power_less_imp_less_base) simp
  have hi_eq: "hi = of_int (s + 1) - 1 / 2 ^ 18"
    by (simp add: hi_def power_int_minus field_simps)
  have "(of_int w :: rat) \<le> of_int ((s + 1)\<^sup>2 - 1)" using s(3) by (simp only: of_int_le_iff)
  moreover have "(of_int ((s + 1)\<^sup>2 - 1) :: rat) \<le> hi\<^sup>2"
  proof -
    have "2 * (of_int (s + 1) :: rat) * (1 / 2 ^ 18) \<le> 1" using s16 by simp
    moreover have "hi\<^sup>2 = (of_int (s + 1))\<^sup>2 - 2 * of_int (s + 1) * (1 / 2 ^ 18) + (1 / 2 ^ 18)\<^sup>2"
      unfolding hi_eq by (simp only: power2_diff)

    moreover have "(0::rat) \<le> (1 / 2 ^ 18)\<^sup>2" by simp
    moreover have "(of_int ((s + 1)\<^sup>2 - 1) :: rat) = (of_int (s + 1))\<^sup>2 - 1" by simp
    ultimately show ?thesis by linarith
  qed
  ultimately have le: "(of_int w :: rat) \<le> hi\<^sup>2" by (rule order_trans)
  have hi0: "0 \<le> hi" using s(1) by (simp add: hi_eq)
  define q where "q = sqrt_scaled (of_int w) / 2 powi K"
  have "(of_int s)\<^sup>2 \<le> (of_int w :: rat)" using s(2) by (metis of_int_power of_int_le_iff)
  then have q_ge: "of_int s \<le> q"
    unfolding q_def K_def using s(1) assms(1) K
    by (intro sqrt_scaled_ge [where j = "s * 2 ^ nat K"]) (simp_all add: K_def powi_two_nat)
  have "of_int (((s + 1) * 2 ^ 18 - 1) * 2 ^ nat (K - 18)) = hi * 2 powi K"
    using K powi_two_nat [of "K - 18"] unfolding hi_def
    by (simp add: power_int_diff power_int_minus)
  then have q_le: "q \<le> hi"
    unfolding q_def K_def using le hi0 assms(1)
    by (intro sqrt_scaled_le [where j = "((s + 1) * 2 ^ 18 - 1) * 2 ^ nat (K - 18)"]) (simp_all add: K_def)
  have q0: "0 \<le> q" using q_ge s(1) by (meson of_int_0_le_iff order_trans)
  have "hi \<le> 2 ^ 52" using s16 by (simp add: hi_eq)
  then have mk: "mk False q = Fin False (rnd q)" using q_le q0 by (intro mk_small) auto
  have "of_int s * 2 powi 0 \<le> rnd q"
    using q_ge s(1) s16 by (intro rnd_ge_int) simp_all
  moreover have "rnd q \<le> of_int ((s + 1) * 2 ^ 18 - 1) * 2 powi - 18"
    using q0 q_le s(1) s16 unfolding hi_def by (intro rnd_le_int) simp_all
  moreover have "fsqrt (Fin False (of_int w)) = Fin False (rnd q)"
    using assms(1) mk by (simp add: q_def K_def)
  ultimately show ?thesis by auto
qed

lemma kvalue_isqrt:
  assumes "1 \<le> w" and "w < 2 ^ 32"
  shows "to_u32 ((fsqrt (Fin False (of_int w)) - 1) / lit 2) = Inr (of_int ((isqrt w - 1) div 2))"
proof -
  define s where "s = isqrt w"
  have sq: "0 \<le> s" "s\<^sup>2 \<le> w" "w < (s + 1)\<^sup>2"
    using isqrt_correct [of w] assms(1) by (simp_all add: s_def)
  have s1: "1 \<le> s" using sq assms(1) by (cases "s = 0") auto
  have "s\<^sup>2 < (2 ^ 16)\<^sup>2" using sq(2) assms(2) by simp
  then have s16: "s < 2 ^ 16" by (rule power_less_imp_less_base) simp
  obtain m where m: "fsqrt (Fin False (of_int w)) = Fin False m" "of_int s \<le> m"
    "m \<le> of_int ((s + 1) * 2 ^ 18 - 1) * 2 powi - 18"
    using fsqrt_between [OF assms] unfolding s_def by blast
  have b1: "of_int (s - 1) * 2 powi 0 \<le> m - 1" "m - 1 \<le> of_int (s * 2 ^ 18 - 1) * 2 powi - 18"
    using m(2,3) by (simp_all add: power_int_minus field_simps)
  have "0 \<le> m - 1" using m(2) s1 by (meson diff_ge_0_iff_ge of_int_1_le_iff order_trans)
  moreover have "(of_int (s * 2 ^ 18 - 1) :: rat) * 2 powi - 18 \<le> 2 ^ 17"
    using s16 by (simp add: power_int_minus field_simps)
  ultimately have r1: "lit (m - 1) = Fin False (rnd (m - 1))"
    using b1(2) by (simp add: lit_def mk_small)
  have b2: "of_int (s - 1) * 2 powi 0 \<le> rnd (m - 1)"
    "rnd (m - 1) \<le> of_int (s * 2 ^ 18 - 1) * 2 powi - 18"
    using b1 \<open>0 \<le> m - 1\<close> s1 s16 by (intro rnd_ge_int rnd_le_int; simp)+
  have two: "lit 2 = Fin False 2"
    using mk_int [of 2 False] by (simp add: lit_def)
  define q where "q = rnd (m - 1) / 2"
  have b3: "of_int (s - 1) * 2 powi - 1 \<le> q" "q \<le> of_int (s * 2 ^ 18 - 1) * 2 powi - 19"
    using b2 by (simp_all add: q_def power_int_minus field_simps)
  have q0: "0 \<le> q" using rnd_nonneg [OF \<open>0 \<le> m - 1\<close>] by (simp add: q_def)
  have "(of_int (s * 2 ^ 18 - 1) :: rat) * 2 powi - 19 \<le> 2 ^ 16"
    using s16 by (simp add: power_int_minus field_simps)
  then have mk: "mk False q = Fin False (rnd q)" using b3(2) q0 by (intro mk_small) simp_all
  have b4: "of_int (s - 1) * 2 powi - 1 \<le> rnd q" "rnd q \<le> of_int (s * 2 ^ 18 - 1) * 2 powi - 19"
    using b3 q0 s1 s16 by (intro rnd_ge_int rnd_le_int; simp)+
  have "2 * ((s - 1) div 2) \<le> s - 1" by presburger
  then have "(of_int (2 * ((s - 1) div 2)) :: rat) \<le> of_int (s - 1)" by (simp only: of_int_le_iff)
  then have "of_int ((s - 1) div 2) \<le> rnd q"
    using b4(1) by (simp add: power_int_minus field_simps)
  moreover have "rnd q < of_int ((s - 1) div 2) + 1"
  proof -
    have "s \<le> 2 * ((s - 1) div 2) + 2" by presburger
    then have "(of_int s :: rat) \<le> of_int (2 * ((s - 1) div 2) + 2)" by (simp only: of_int_le_iff)
    then show ?thesis using b4(2) by (simp add: power_int_minus field_simps)
  qed
  ultimately have fl: "\<lfloor>rnd q\<rfloor> = (s - 1) div 2" by (simp add: floor_unique)
  have "(s - 1) div 2 < 2 ^ 32" using s16 by simp
  moreover have m0: "0 \<le> m" using \<open>0 \<le> m - 1\<close> by simp
  moreover have "(fsqrt (Fin False (of_int w)) - 1) / lit 2 = Fin False (rnd q)"
    unfolding m(1) fin_minus_one [OF m0] r1 two using mk by (simp add: divide_f64_def q_def)
  ultimately show ?thesis by (simp add: fl s_def Let_def)
qed

section \<open>The ranks\<close>

lemma isqrt_unique:
  assumes "0 \<le> s" and "s\<^sup>2 \<le> n" and "n < (s + 1)\<^sup>2"
  shows "isqrt n = s"
proof -
  have i: "0 \<le> isqrt n" "(isqrt n)\<^sup>2 \<le> n" "n < (isqrt n + 1)\<^sup>2"
    using isqrt_correct [of n] order_trans [OF zero_le_power2 assms(2)] by simp_all
  have "(isqrt n)\<^sup>2 < (s + 1)\<^sup>2" using i(2) assms(3) by linarith
  then have "isqrt n < s + 1" by (rule power_less_imp_less_base) (use assms(1) in simp)
  moreover have "s\<^sup>2 < (isqrt n + 1)\<^sup>2" using i(3) assms(2) by linarith
  then have "s < isqrt n + 1" by (rule power_less_imp_less_base) (use i(1) in simp)
  ultimately show ?thesis by simp
qed

text \<open>\<open>rank_of n a\<close>: the rank for random number \<open>a\<close>, counted from the best gene.\<close>

definition rank_of :: "int \<Rightarrow> int \<Rightarrow> int" where
  "rank_of n a = n - 1 - (isqrt (1 + 2 * a * n) - 1) div 2"

lemma isqrt_upper:
  assumes "0 < n" and "0 \<le> a" and "a < 2 * (n + 1)"
  shows "1 \<le> isqrt (1 + 2 * a * n)" and "isqrt (1 + 2 * a * n) \<le> 2 * n"
proof -
  define w where "w = 1 + 2 * a * n"
  have w: "1 \<le> w" using assms by (simp add: w_def)
  have i: "0 \<le> isqrt w" "(isqrt w)\<^sup>2 \<le> w" "w < (isqrt w + 1)\<^sup>2"
    using isqrt_correct [of w] w by simp_all
  from i w show "1 \<le> isqrt (1 + 2 * a * n)"
    unfolding w_def [symmetric] by (cases "isqrt w = 0") auto
  have "a * n \<le> (2 * n + 1) * n" using assms by (intro mult_right_mono) simp_all
  then have "w < (2 * n + 1)\<^sup>2" using assms(1) by (simp add: w_def power2_eq_square algebra_simps)
  with i(2) have "(isqrt w)\<^sup>2 < (2 * n + 1)\<^sup>2" by linarith
  then have "isqrt w < 2 * n + 1" by (rule power_less_imp_less_base) (use assms(1) in simp)
  then show "isqrt (1 + 2 * a * n) \<le> 2 * n" unfolding w_def by simp
qed

lemma rank_of_bounds:
  assumes "0 < n" and "0 \<le> a" and "a < 2 * (n + 1)"
  shows "0 \<le> rank_of n a" and "rank_of n a < n"
proof -
  define s where "s = isqrt (1 + 2 * a * n)"
  have "1 \<le> s" "s \<le> 2 * n" using isqrt_upper [OF assms] by (simp_all add: s_def)
  then have "0 \<le> (s - 1) div 2" "(s - 1) div 2 \<le> n - 1" by presburger+
  then show "0 \<le> rank_of n a" "rank_of n a < n" by (simp_all add: rank_of_def s_def)
qed

text \<open>The extreme draws give the worst and the best rank.\<close>

lemma rank_of_extremes:
  assumes "0 < n"
  shows "rank_of n 0 = n - 1" and "rank_of n (2 * n + 1) = 0"
proof -
  have "isqrt 1 = 1" by (rule isqrt_unique) simp_all
  then show "rank_of n 0 = n - 1" by (simp add: rank_of_def)
  have "isqrt (1 + 2 * (2 * n + 1) * n) = 2 * n"
    using assms by (intro isqrt_unique) (simp_all add: power2_eq_square algebra_simps)
  moreover have "(2 * n - 1) div 2 = n - 1" by presburger
  ultimately show "rank_of n (2 * n + 1) = 0" by (simp add: rank_of_def)
qed

section \<open>The selected position\<close>

text \<open>
  For up to 16383 genes nothing wraps: the largest argument of the root is
  \<open>1 + 2 * n * (2 * n + 1)\<close>, and \<open>8 * n * (2 * n + 1)\<close> stays below \<open>2^32\<close>.
\<close>

lemma max_draw:
  assumes "unat n \<le> 16383"
  shows "unat (M_SEL * (n + 1) div 2) = 2 * (unat n + 1)"
proof -
  have n1: "unat (n + 1) = unat n + 1" using assms by (intro unat_inc) simp
  then have "unat (M_SEL * (n + 1)) = 4 * (unat n + 1)"
    using assms by (subst unat_mult_lem [THEN iffD1]) (simp_all add: M_SEL_def)
  then show ?thesis by (simp add: unat_div_distrib)
qed

lemma root_argument:
  assumes "unat n \<le> 16383" and "unat alpha < 2 * (unat n + 1)"
  shows "uint (1 + 8 * alpha * n div M_SEL) = 1 + 2 * uint alpha * uint n"
proof -
  have a: "unat (8 * alpha) = 8 * unat alpha"
    using assms by (subst unat_mult_lem [THEN iffD1]) simp_all
  have "8 * unat alpha * unat n \<le> 8 * (2 * 16383 + 1) * 16383"
    using assms by (intro mult_mono) simp_all
  then have "unat (8 * alpha * n) = 8 * unat alpha * unat n"
    using a by (subst unat_mult_lem [THEN iffD1]) simp_all
  then have "unat (8 * alpha * n div M_SEL) = 2 * unat alpha * unat n"
    by (simp add: unat_div_distrib M_SEL_def)
  moreover have "2 * unat alpha * unat n \<le> 2 * (2 * 16383 + 1) * 16383"
    using assms by (intro mult_mono) simp_all
  ultimately have "unat (8 * alpha * n div M_SEL + 1) = 2 * unat alpha * unat n + 1"
    by (subst unat_inc) simp_all
  then have "int (unat (1 + 8 * alpha * n div M_SEL)) = int (1 + 2 * unat alpha * unat n)"
    by (simp add: add.commute)
  then show ?thesis by simp
qed

lemma select_position_eq:
  assumes "n \<noteq> 0" and "unat n \<le> 16383"
  shows "\<exists>p. select_position n g = Inr (p, \<lambda>i. g (Suc i)) \<and> p < n
    \<and> uint p = rank_of (uint n) (uint (drawn (M_SEL * (n + 1) div 2) g 0))"
proof -
  define w where "w = M_SEL * (n + 1) div 2"
  define a where "a = drawn w g 0"
  have w: "unat w = 2 * (unat n + 1)" unfolding w_def by (rule max_draw [OF assms(2)])
  have w0: "w \<noteq> 0" using w by auto
  have a: "unat a < 2 * (unat n + 1)"
    using u32_mod_less [OF w0] w by (simp add: a_def drawn_def word_less_nat_alt)
  have draw: "get_rand w g = Inr (a, \<lambda>i. g (Suc i))"
    using w0 by (simp add: get_rand_eq drawn_def a_def)
  define N where "N = uint n"
  define A where "A = uint a"
  have NA: "int (unat n) = N" "int (unat a) = A" by (simp_all add: N_def A_def)
  have N: "0 < N" "N \<le> 16383"
    using assms(2) unat_gt_0 [of n] assms(1) NA by linarith+
  have A: "0 \<le> A" "A < 2 * (N + 1)"
  proof -
    have "int (unat a) < int (2 * (unat n + 1))" using a by (simp only: of_nat_less_iff)
    then show "0 \<le> A" "A < 2 * (N + 1)" using NA by (simp_all add: A_def)
  qed
  define v where "v = 1 + 2 * A * N"
  have root: "uint (1 + 8 * a * n div M_SEL) = v"
    unfolding v_def A_def N_def by (rule root_argument [OF assms(2) a])
  define k where "k = (isqrt v - 1) div 2"
  have "1 \<le> isqrt v" "isqrt v \<le> 2 * N"
    using isqrt_upper [OF N(1) A] by (simp_all add: v_def)
  then have k: "0 \<le> k" "k < N" by (simp_all add: k_def)
  have v: "1 \<le> v" "v < 2 ^ 32"
    using A N uint_bounded [of "1 + 8 * a * n div M_SEL"] by (simp_all add: v_def root [unfolded v_def])
  have kv: "kvalue_of n a = Inr (word_of_int k)"
    unfolding kvalue_of_def of_u32_def root k_def by (rule kvalue_isqrt [OF v])
  have uk: "uint (word_of_int k :: u32) = k"
    using k N by (simp add: uint_word_of_int_eq take_bit_int_eq_self)
  have lt: "(word_of_int k :: u32) < n"
    using k(2) by (simp add: word_less_def uk N_def)
  have "(n - word_of_int k - 1 :: u32) = word_of_int (N - k - 1)"
    by (simp add: N_def)
  moreover have "uint (word_of_int (N - k - 1) :: u32) = N - k - 1"
    by (rule uint_u32_of_int) (use k N in simp_all)
  ultimately have p: "uint (n - word_of_int k - 1) = N - 1 - k" by simp
  then have "n - word_of_int k - 1 < n" using k by (simp add: word_less_def N_def)
  moreover have "select_position n g = Inr (n - word_of_int k - 1, \<lambda>i. g (Suc i))"
    using draw kv lt by (simp add: select_position_def w_def Let_def)
  moreover have "N - 1 - k = rank_of N A" by (simp add: rank_of_def k_def v_def)
  ultimately show ?thesis using p by (auto simp: N_def A_def a_def w_def)
qed

text \<open>C20. Up to 16383 genes the assertion of \<open>select_position\<close> holds and no conversion fails:
  one number is drawn, and the position is exactly the rank that integer arithmetic gives,
  between 0 and \<open>n_pops - 1\<close>.\<close>

theorem select_position_rank:
  assumes "n \<noteq> 0" and "unat n \<le> 16383"
  shows "\<exists>p. select_position n g = Inr (p, \<lambda>i. g (Suc i)) \<and> p < n
    \<and> uint p = rank_of (uint n) (uint (drawn (M_SEL * (n + 1) div 2) g 0))"
  by (rule select_position_eq [OF assms])

theorem select_position_rank_witness:
  "\<exists>p. select_position 100 (\<lambda>_. 7) = Inr (p, \<lambda>i. 7) \<and> p < 100
    \<and> uint p = rank_of (uint (100 :: u32)) (uint (drawn (M_SEL * (100 + 1) div 2) (\<lambda>_. 7) 0))"
  by (rule select_position_rank) simp_all

text \<open>The bound is tight: with 16384 genes the product \<open>8 * alpha * n_pops\<close> wraps for the
  draw 32768, and the position is that of the worst gene instead of the best one's, 0.\<close>

theorem select_position_wraps:
  assumes "g 0 = 32768"
  shows "select_position 16384 g = Inr (16383, \<lambda>i. g (Suc i)) \<and> rank_of 16384 32768 = 0"
proof
  have "kvalue_of 16384 32768 = Inr 0"
  proof -
    have "isqrt 1 = 1" by (rule isqrt_unique) simp_all
    then show ?thesis
      using kvalue_isqrt [of 1] by (simp add: kvalue_of_def of_u32_def M_SEL_def)
  qed
  moreover have "get_rand 32770 g = Inr (32768, \<lambda>i. g (Suc i))"
    using assms by (simp add: get_rand_eq)
  ultimately show "select_position 16384 g = Inr (16383, \<lambda>i. g (Suc i))"
    by (simp add: select_position_def M_SEL_def Let_def)
  have "isqrt 1073741825 = 32768" by (rule isqrt_unique) simp_all
  then show "rank_of 16384 32768 = 0" by (simp add: rank_of_def)
qed

theorem select_position_wraps_witness:
  "select_position 16384 (\<lambda>_. 32768) = Inr (16383, \<lambda>_. 32768) \<and> rank_of 16384 32768 = 0"
  by (rule select_position_wraps) simp

end
