(* ===== verification/Crossover.thy ===== *)
theory Crossover
  imports Population Selection
begin

text \<open>
  One generation of GA.c: the gene with the worst score is taken out of the lists and becomes
  the child of two selected genes; after at most \<open>MAX_TRY\<close> refused children the program stops.
\<close>

section \<open>Selection and crossover\<close>

definition select_gene :: "conf \<Rightarrow> ga \<Rightarrow> (nat \<times> ga) run" where
  "select_gene c s =
     run_bind (Some (select_position (n_pops c) (rng s))) (\<lambda>(position, g).
     let s = s\<lparr>rng := g\<rparr> in
     case list_for_each (links s) (Head By_score) (\<lambda>lp position.
            if position = 0 then Inl lp else Inr (position - 1)) position of
       None \<Rightarrow> None
     | Some (Inl lp) \<Rightarrow> run_bind (Some (list_entry By_score lp)) (\<lambda>i. ret (i, s))
     | Some (Inr _) \<Rightarrow>
         run_bind (Some (list_entry By_score (prv (links s) (Head By_score)))) (\<lambda>i. ret (i, s)))"

definition get_newborn :: "ga \<Rightarrow> (nat \<times> ga) res" where
  "get_newborn s =
     res_bind (list_entry By_score (prv (links s) (Head By_score))) (\<lambda>i.
     Inr (i, s\<lparr>links := list_del_init (Entry By_score i) (list_del_init (Entry By_power i)
                          (list_del_init (Entry By_util i) (links s)))\<rparr>))"

text \<open>The three \<open>inherit_values\<close> calls; the cloud choices are not inherited.\<close>

definition inherit_genes ::
  "nat \<Rightarrow> gene_t \<Rightarrow> gene_t \<Rightarrow> gene_t \<Rightarrow> u32 \<Rightarrow> u32 \<Rightarrow> u32 \<Rightarrow> gene_t res" where
  "inherit_genes n newborn gene1 gene2 crosspt_ratio crosspt_cpufreq crosspt_mem =
     res_bind (inherit_values n (taskattrs_mem newborn) (taskattrs_mem gene1) (taskattrs_mem gene2)
                 crosspt_mem) (\<lambda>mem.
     res_bind (inherit_values n (taskattrs_offloadingratio newborn) (taskattrs_offloadingratio gene1)
                 (taskattrs_offloadingratio gene2) crosspt_ratio) (\<lambda>ratio.
     res_bind (inherit_values n (taskattrs_cpufreq newborn) (taskattrs_cpufreq gene1)
                 (taskattrs_cpufreq gene2) crosspt_cpufreq) (\<lambda>cpufreq.
     Inr (newborn\<lparr>taskattrs_mem := mem, taskattrs_offloadingratio := ratio, taskattrs_cpufreq := cpufreq\<rparr>))))"

definition do_crossover ::
  "conf \<Rightarrow> nat \<Rightarrow> nat \<Rightarrow> nat \<Rightarrow> u32 \<Rightarrow> u32 \<Rightarrow> u32 \<Rightarrow> ga \<Rightarrow> (bool \<times> ga) run" where
  "do_crossover c nb i1 i2 crosspt_ratio crosspt_cpufreq crosspt_mem s =
     run_bind (Some (arr_get (genes s) nb)) (\<lambda>newborn.
     run_bind (Some (arr_get (genes s) i1)) (\<lambda>gene1.
     run_bind (Some (arr_get (genes s) i2)) (\<lambda>gene2.
     run_bind (Some (inherit_genes (n_tasks c) newborn gene1 gene2 crosspt_ratio crosspt_cpufreq
                       crosspt_mem)) (\<lambda>newborn.
     run_bind (Some (check_memusage c newborn)) (\<lambda>fits.
     if \<not> fits then ret (False, put_gene nb newborn s)
     else
       run_bind (Some (check_utilpower c newborn)) (\<lambda>(ok, newborn).
       let s = put_gene nb newborn s in
       if \<not> ok then ret (False, s)
       else
         run_bind (Some (arr_get (genes s) i1)) (\<lambda>gene1.
         run_bind (Some (arr_get (genes s) i2)) (\<lambda>gene2.
         if g_score gene1 < g_score newborn \<or> g_score gene2 < g_score newborn then ret (False, s)
         else run_bind (sort_gene nb s) (\<lambda>s. ret (True, s))))))))))"

partial_function (option) select_other :: "conf \<Rightarrow> nat \<Rightarrow> ga \<Rightarrow> (nat \<times> ga) run" where
  "select_other c i1 s =
     run_bind (select_gene c s) (\<lambda>(i2, s).
       if i1 = i2 then select_other c i1 s else ret (i2, s))"

definition draw_crosspt :: "conf \<Rightarrow> ga \<Rightarrow> (u32 \<times> ga) run" where
  "draw_crosspt c s =
     run_bind (Some (get_rand (of_nat (n_tasks c) - 1) (rng s))) (\<lambda>(v, g). ret (v + 1, s\<lparr>rng := g\<rparr>))"

definition crossover_try :: "conf \<Rightarrow> nat \<Rightarrow> ga \<Rightarrow> (bool \<times> ga) run" where
  "crossover_try c newborn s =
     run_bind (select_gene c s) (\<lambda>(gene1, s).
     run_bind (select_other c gene1 s) (\<lambda>(gene2, s).
     run_bind (draw_crosspt c s) (\<lambda>(crosspt_ratio, s).
     run_bind (draw_crosspt c s) (\<lambda>(crosspt_cpufreq, s).
     run_bind (draw_crosspt c s) (\<lambda>(crosspt_mem, s).
     do_crossover c newborn gene1 gene2 crosspt_ratio crosspt_cpufreq crosspt_mem s)))))"

function crossover_loop :: "conf \<Rightarrow> nat \<Rightarrow> nat \<Rightarrow> ga \<Rightarrow> ga run" where
  "crossover_loop c newborn t s =
     (if t < MAX_TRY then
        run_bind (crossover_try c newborn s) (\<lambda>(done, s).
        if done then ret s else crossover_loop c newborn (Suc t) s)
      else fail (Fatal 3))"
  by pat_completeness auto
termination
  by (relation "measure (\<lambda>(c, i, t, s). MAX_TRY - t)") auto

declare crossover_loop.simps [simp del]

definition crossover :: "conf \<Rightarrow> ga \<Rightarrow> ga run" where
  "crossover c s =
     run_bind (Some (get_newborn s)) (\<lambda>(newborn, s). crossover_loop c newborn 0 s)"

section \<open>Selection\<close>

lemma walk_position:
  "iterate (\<lambda>lp position. if position = 0 then Inl lp else Inr (position - 1)) xs (p :: u32) =
     (if unat p < length xs then Inl (xs ! unat p) else Inr (p - of_nat (length xs)))"
proof (induction xs arbitrary: p)
  case Nil
  then show ?case by simp
next
  case (Cons x xs)
  show ?case
  proof (cases "p = 0")
    case False
    then have "unat p = Suc (unat (p - 1))" by (metis Suc_pred' unat_gt_0 unat_minus_one)
    with False Cons.IH [of "p - 1"] show ?thesis by simp
  qed simp
qed

definition selected :: "nat list \<Rightarrow> nat \<Rightarrow> nat" where
  "selected xs p = (if p < length xs then xs ! p else last xs)"

lemma select_gene_eq:
  assumes "lists_ok s js" and "js By_score \<noteq> []" and "select_position (n_pops c) (rng s) = Inr (p, g)"
  shows "select_gene c s = ret (selected (js By_score) (unat p), s\<lparr>rng := g\<rparr>)"
proof -
  have d: "dll (links s) (Head By_score) (map (Entry By_score) (js By_score))"
    using assms(1) by (simp add: lists_ok_def)
  have "prv (links s) (Head By_score) = Entry By_score (last (js By_score))"
    using dll_first_last(2) [OF d] assms(2) by (simp add: last_map)
  then show ?thesis
    using assms(2,3)
    by (simp add: select_gene_def Let_def dll_for_each [OF d] walk_position selected_def)
qed

lemma selected_in: "xs \<noteq> [] \<Longrightarrow> selected xs p \<in> set xs"
  by (simp add: selected_def)

text \<open>Bounds under which selection always works, and two different parents exist.\<close>

definition ready :: "conf \<Rightarrow> bool" where
  "ready c = (usable c \<and> 2 \<le> n_tasks c \<and> 3 \<le> unat (n_pops c) \<and> unat (n_pops c) \<le> 16383)"

abbreviation draw_range :: "conf \<Rightarrow> u32" where
  "draw_range c \<equiv> M_SEL * (n_pops c + 1) div 2"

definition rank_nat :: "conf \<Rightarrow> u32 \<Rightarrow> nat" where
  "rank_nat c a = nat (rank_of (uint (n_pops c)) (uint a))"

lemma select_gene_total:
  assumes "n_pops c \<noteq> 0" and "unat (n_pops c) \<le> 16383" and "lists_ok s js" and "js By_score \<noteq> []"
  shows "select_gene c s =
     ret (selected (js By_score) (rank_nat c (drawn (draw_range c) (rng s) 0)), s\<lparr>rng := \<lambda>i. rng s (Suc i)\<rparr>)"
proof -
  obtain p where p: "select_position (n_pops c) (rng s) = Inr (p, \<lambda>i. rng s (Suc i))"
    "uint p = rank_of (uint (n_pops c)) (uint (drawn (draw_range c) (rng s) 0))"
    using select_position_eq [OF assms(1,2)] by blast
  have "unat p = rank_nat c (drawn (draw_range c) (rng s) 0)"
    unfolding rank_nat_def p(2) [symmetric] by simp
  with select_gene_eq [OF assms(3,4) p(1)] show ?thesis by simp
qed

text \<open>Some draw selects a gene different from any given one, if the list has two.\<close>

lemma some_draw_differs:
  assumes "3 \<le> unat (n_pops c)" and "unat (n_pops c) \<le> 16383" and "distinct xs" and "2 \<le> length xs"
    and "length xs < unat (n_pops c)"
  shows "\<exists>v. v < draw_range c \<and> unat (draw_range c) \<le> 2 ^ 31 \<and> selected xs (rank_nat c v) \<noteq> x"
proof -
  define n where "n = unat (n_pops c)"
  have W: "unat (draw_range c) = 2 * (n + 1)" unfolding n_def by (rule max_draw [OF assms(2)])
  have N: "uint (n_pops c) = int n" by (simp add: n_def)
  have n: "0 < int n" using assms(1) unfolding n_def by linarith
  have "rank_of (int n) 0 = int n - 1" by (rule rank_of_extremes(1) [OF n])
  then have "rank_nat c 0 = n - 1" by (simp add: rank_nat_def N)
  then have "\<not> rank_nat c 0 < length xs" using assms(5) unfolding n_def by linarith
  then have last: "selected xs (rank_nat c 0) = last xs" by (simp add: selected_def)
  define top :: u32 where "top = of_nat (2 * n + 1)"
  have ut: "unat top = 2 * n + 1"
    unfolding top_def using assms(2) by (intro unat_of_nat_u32) (simp add: n_def)
  have "uint top = int (2 * n + 1)" using ut by (metis uint_nat)
  then have "rank_nat c top = 0"
    using rank_of_extremes(2) [OF n] by (simp add: rank_nat_def N algebra_simps)
  then have first: "selected xs (rank_nat c top) = hd xs"
    using assms(4) by (cases xs) (simp_all add: selected_def)
  have "hd xs \<noteq> last xs" using assms(3,4) by (cases xs) auto
  then have "selected xs (rank_nat c 0) \<noteq> x \<or> selected xs (rank_nat c top) \<noteq> x"
    using first last by auto
  moreover have "0 < draw_range c" "top < draw_range c" "unat (draw_range c) \<le> 2 ^ 31"
    using W ut assms(2) by (simp_all add: word_less_nat_alt n_def)
  ultimately show ?thesis by blast
qed

lemma select_other_ok:
  assumes "3 \<le> unat (n_pops c) \<and> unat (n_pops c) \<le> 16383" and "lists_ok s js" and "2 \<le> length (js By_score)"
    and "length (js By_score) < unat (n_pops c)" and "fair (rng s)"
  shows "\<exists>i2 g. select_other c i1 s = ret (i2, s\<lparr>rng := g\<rparr>) \<and> fair g
    \<and> i2 \<in> set (js By_score) \<and> i2 \<noteq> i1"
proof -
  have n: "n_pops c \<noteq> 0" "3 \<le> unat (n_pops c)" "unat (n_pops c) \<le> 16383"
    using assms(1) by auto
  have ne: "js By_score \<noteq> []" using assms(3) by auto
  obtain v where v: "v < draw_range c" "unat (draw_range c) \<le> 2 ^ 31"
    "selected (js By_score) (rank_nat c v) \<noteq> i1"
    using some_draw_differs [OF n(2,3) lists_ok_distinct [OF assms(2)] assms(3,4)] by blast
  obtain m where "drawn (draw_range c) (rng s) m = v"
    using fair_draws [OF assms(5) v(1,2), of 0] by blast
  with assms(2,5) show ?thesis
  proof (induction m arbitrary: s)
    case 0
    then have "select_gene c s = ret (selected (js By_score) (rank_nat c v), s\<lparr>rng := \<lambda>i. rng s (Suc i)\<rparr>)"
      using select_gene_total [OF n(1,3) 0(1) ne] by simp
    with 0 v(3) selected_in [OF ne] show ?case by (subst select_other.simps) auto
  next
    case (Suc m)
    define i2 where "i2 = selected (js By_score) (rank_nat c (drawn (draw_range c) (rng s) 0))"
    have sel: "select_gene c s = ret (i2, s\<lparr>rng := \<lambda>i. rng s (Suc i)\<rparr>)"
      unfolding i2_def by (rule select_gene_total [OF n(1,3) Suc.prems(1) ne])
    show ?case
    proof (cases "i1 = i2")
      case True
      have "drawn (draw_range c) (\<lambda>i. rng s (Suc i)) m = v" using Suc.prems(3) by (simp add: drawn_def)
      then have "\<exists>i2 g. select_other c i1 (s\<lparr>rng := \<lambda>i. rng s (Suc i)\<rparr>) = ret (i2, s\<lparr>rng := g\<rparr>)
          \<and> fair g \<and> i2 \<in> set (js By_score) \<and> i2 \<noteq> i1"
        using Suc.IH [of "s\<lparr>rng := \<lambda>i. rng s (Suc i)\<rparr>"] Suc.prems(1,2) by simp
      with True sel show ?thesis by (subst select_other.simps) simp
    next
      case False
      with sel Suc.prems(2) selected_in [OF ne] show ?thesis
        by (subst select_other.simps) (auto simp: i2_def)
    qed
  qed
qed

section \<open>The newborn\<close>

lemma del_init_kind:
  assumes "dll h (Head k) (map (Entry k) xs)" and "i \<in> set xs"
  shows "dll (list_del_init (Entry k i) h) (Head k) (map (Entry k) (remove1 i xs))"
    and "dll (list_del_init (Entry k i) h) (Entry k i) []"
    and "dll h l ys \<Longrightarrow> (\<forall>x\<in>set (l # ys). kind_of x \<noteq> k) \<Longrightarrow> dll (list_del_init (Entry k i) h) l ys"
proof -
  obtain as bs where s: "xs = as @ i # bs" "i \<notin> set as" using assms(2) by (meson split_list_first)
  then have r: "remove1 i xs = as @ bs" by (simp add: remove1_append)
  have d: "dll h (Head k) (map (Entry k) as @ Entry k i # map (Entry k) bs)" using assms(1) s by simp
  show "dll (list_del_init (Entry k i) h) (Head k) (map (Entry k) (remove1 i xs))"
    unfolding r using ecm.del_init_entry [OF d] by simp
  show "dll (list_del_init (Entry k i) h) (Entry k i) []" by (rule ecm.del_init_detached [OF d])
  show "dll (list_del_init (Entry k i) h) l ys"
    if "dll h l ys" "\<forall>x\<in>set (l # ys). kind_of x \<noteq> k"
    by (rule ecm.del_init_other [OF assms(1) that(1)]) (use assms(2) that(2) in auto)
qed

lemma ranked_remove1: "ranked lt xs \<Longrightarrow> ranked lt (remove1 x xs)"
  by (cases "x \<in> set xs") (auto dest!: split_list_first simp: remove1_append remove1_idem
      intro: ranked_append_delete)

lemma get_newborn_ok:
  assumes "lists_ok s js" and "js By_score \<noteq> []" and "\<And>k. set (js k) = A"
  defines "nb \<equiv> last (js By_score)"
  shows "\<exists>h. get_newborn s = Inr (nb, s\<lparr>links := h\<rparr>)
    \<and> lists_ok (s\<lparr>links := h\<rparr>) (\<lambda>k. remove1 nb (js k)) \<and> detached nb (s\<lparr>links := h\<rparr>)"
proof -
  have d: "dll (links s) (Head k) (map (Entry k) (js k))" for k
    using assms(1) by (simp add: lists_ok_def)
  have nb: "nb \<in> set (js k)" for k using assms(2) assms(3) unfolding nb_def by (metis last_in_set)
  have "prv (links s) (Head By_score) = Entry By_score nb"
    using dll_first_last(2) [OF d] assms(2) by (simp add: last_map nb_def)
  then have run: "get_newborn s = Inr (nb, s\<lparr>links := list_del_init (Entry By_score nb)
      (list_del_init (Entry By_power nb) (list_del_init (Entry By_util nb) (links s)))\<rparr>)"
    by (simp add: get_newborn_def)
  define h1 where "h1 = list_del_init (Entry By_util nb) (links s)"
  define h2 where "h2 = list_del_init (Entry By_power nb) h1"
  define h3 where "h3 = list_del_init (Entry By_score nb) h2"
  note r1 = del_init_kind [OF d [of By_util] nb, folded h1_def]
  have p: "dll h1 (Head k) (map (Entry k) (js k))" if "k \<noteq> By_util" for k
    using that d by (auto intro!: r1(3))
  note r2 = del_init_kind [OF p [of By_power] nb, simplified, folded h2_def]
  have q: "dll h2 (Head By_score) (map (Entry By_score) (js By_score))"
    "dll h2 (Head By_util) (map (Entry By_util) (remove1 nb (js By_util)))" "dll h2 (Entry By_util nb) []"
    using p [of By_score] r1(1,2) by (auto intro!: r2(3))
  note r3 = del_init_kind [OF q(1) nb, folded h3_def]
  have "dll h3 (Head k) (map (Entry k) (remove1 nb (js k)))" "dll h3 (Entry k nb) []" for k
    using q(2,3) r2(1,2) r3(1,2) by (cases k; auto intro!: r3(3))+
  then have "lists_ok (s\<lparr>links := h3\<rparr>) (\<lambda>k. remove1 nb (js k))" "detached nb (s\<lparr>links := h3\<rparr>)"
    using assms(1) set_remove1_subset by (fastforce simp: lists_ok_def detached_def ranked_remove1)+
  with run show ?thesis unfolding h1_def h2_def h3_def by blast
qed

lemma inherit_typed:
  assumes "typed n k ta1" and "typed n k ta2" and "length (attrs newborn) = MAX_TASKS"
    and "n \<le> MAX_TASKS" and "unat cp \<le> n"
  shows "\<exists>ta'. inherit_values n newborn ta1 ta2 cp = Inr ta' \<and> typed n k ta'
    \<and> (\<forall>i<n. attrs ta' ! i = (if i < unat cp then attrs ta1 ! i else attrs ta2 ! i))"
  using inherit_values_ok [of n ta1 ta2 newborn cp] assms unfolding typed_def by fastforce

text \<open>The child of two genes: its choices come from the parents, the clouds stay its own.\<close>

definition child_of :: "nat \<Rightarrow> gene_t \<Rightarrow> gene_t \<Rightarrow> u32 \<Rightarrow> u32 \<Rightarrow> u32 \<Rightarrow> gene_t \<Rightarrow> bool" where
  "child_of n gene1 gene2 kr kf km gene =
     (\<forall>i<n. mem_of gene i = mem_of (if i < unat km then gene1 else gene2) i
        \<and> freq_of gene i = freq_of (if i < unat kf then gene1 else gene2) i
        \<and> ratio_of gene i = ratio_of (if i < unat kr then gene1 else gene2) i)"

lemma inherit_genes_ok:
  assumes "gene_ok c newborn" and "gene_ok c gene1" and "gene_ok c gene2" and "n_tasks c \<le> MAX_TASKS"
    and "unat kr \<le> n_tasks c" and "unat kf \<le> n_tasks c" and "unat km \<le> n_tasks c"
  shows "\<exists>gene'. inherit_genes (n_tasks c) newborn gene1 gene2 kr kf km = Inr gene'
    \<and> gene_ok c gene' \<and> child_of (n_tasks c) gene1 gene2 kr kf km gene'"
proof -
  have l: "length (attrs (taskattrs_mem newborn)) = MAX_TASKS"
    "length (attrs (taskattrs_cpufreq newborn)) = MAX_TASKS"
    "length (attrs (taskattrs_offloadingratio newborn)) = MAX_TASKS"
    using assms(1) by (simp_all add: gene_ok_def typed_def hist_ok_def)
  obtain mem where m: "inherit_values (n_tasks c) (taskattrs_mem newborn) (taskattrs_mem gene1)
      (taskattrs_mem gene2) km = Inr mem" "typed (n_tasks c) (n_mems c) mem"
    "\<forall>i<n_tasks c. attrs mem ! i = (if i < unat km then mem_of gene1 i else mem_of gene2 i)"
    using inherit_typed [OF _ _ l(1) assms(4,7)] assms(2,3) unfolding gene_ok_def by blast
  obtain freq where f: "inherit_values (n_tasks c) (taskattrs_cpufreq newborn) (taskattrs_cpufreq gene1)
      (taskattrs_cpufreq gene2) kf = Inr freq" "typed (n_tasks c) (n_cpufreqs c) freq"
    "\<forall>i<n_tasks c. attrs freq ! i = (if i < unat kf then freq_of gene1 i else freq_of gene2 i)"
    using inherit_typed [OF _ _ l(2) assms(4,6)] assms(2,3) unfolding gene_ok_def by blast
  obtain ratio where r: "inherit_values (n_tasks c) (taskattrs_offloadingratio newborn)
      (taskattrs_offloadingratio gene1) (taskattrs_offloadingratio gene2) kr = Inr ratio"
    "hist_ok (n_tasks c) ratio"
    "\<forall>i<n_tasks c. attrs ratio ! i = (if i < unat kr then ratio_of gene1 i else ratio_of gene2 i)"
    using inherit_values_ok [OF _ _ l(3) assms(4,5)] assms(2,3) unfolding gene_ok_def by blast
  have "all_local (n_tasks c) (newborn\<lparr>taskattrs_mem := mem, taskattrs_offloadingratio := ratio,
      taskattrs_cpufreq := freq\<rparr>)"
    using r(3) assms(2,3) by (simp add: all_local_def gene_ok_def)
  with m f r assms(1) show ?thesis
    by (simp add: inherit_genes_def gene_ok_def child_of_def)
qed

text \<open>
  Outcomes of \<open>do_crossover\<close>: the program stops; the newborn is refused, and the lists are as
  before; or it is admitted, no worse than its parents, and joins the lists.
\<close>

lemma do_crossover_cases:
  assumes "usable c" and "lists_ok s js" and "detached nb s" and "\<And>k. nb \<notin> set (js k)"
    and "nb < length (genes s)" and "gene_ok c (genes s ! nb)"
    and "i1 \<in> set (js By_score)" and "i2 \<in> set (js By_score)"
    and "gene_ok c (genes s ! i1)" and "gene_ok c (genes s ! i2)"
    and "unat kr \<le> n_tasks c" and "unat kf \<le> n_tasks c" and "unat km \<le> n_tasks c" and "fair (rng s)"
  obtains "do_crossover c nb i1 i2 kr kf km s = fail (Fatal 3)"
  | gene where "do_crossover c nb i1 i2 kr kf km s = ret (False, put_gene nb gene s)" "gene_ok c gene"
  | s' where "do_crossover c nb i1 i2 kr kf km s = ret (True, s')" "joined c nb js s s'"
      "child_of (n_tasks c) (genes s ! i1) (genes s ! i2) kr kf km (genes s' ! nb)"
      "\<not> g_score (genes s ! i1) < g_score (genes s' ! nb)" "\<not> g_score (genes s ! i2) < g_score (genes s' ! nb)"
proof -
  note u = usableD [OF assms(1)]
  have lt: "i1 < length (genes s)" "i2 < length (genes s)" and ne: "i1 \<noteq> nb" "i2 \<noteq> nb"
    using assms(2,4,7,8) by (auto simp: lists_ok_def)
  obtain g0 where g0: "inherit_genes (n_tasks c) (genes s ! nb) (genes s ! i1) (genes s ! i2) kr kf km = Inr g0"
    "gene_ok c g0" "child_of (n_tasks c) (genes s ! i1) (genes s ! i2) kr kf km g0"
    using inherit_genes_ok [OF assms(6,9,10) u(6) assms(11-13)] by blast
  obtain fits where fits: "check_memusage c g0 = Inr fits"
    using check_memusage_total [OF u(1) gene_ok_safe [OF g0(2)]] by blast
  have run: "do_crossover c nb i1 i2 kr kf km s =
      (if \<not> fits then ret (False, put_gene nb g0 s)
       else
         run_bind (Some (check_utilpower c g0)) (\<lambda>(ok, newborn).
         let s = put_gene nb newborn s in
         if \<not> ok then ret (False, s)
         else
           run_bind (Some (arr_get (genes s) i1)) (\<lambda>gene1.
           run_bind (Some (arr_get (genes s) i2)) (\<lambda>gene2.
           if g_score gene1 < g_score newborn \<or> g_score gene2 < g_score newborn then ret (False, s)
           else run_bind (sort_gene nb s) (\<lambda>s. ret (True, s))))))"
    by (simp add: do_crossover_def assms(5) lt g0(1) fits)
  show ?thesis
  proof (cases fits)
    case False
    with that(2) [of g0] g0(2) show ?thesis by (simp add: run)
  next
    case True
    with fits have m: "check_memusage c g0 = Inr True" by simp
    show ?thesis
    proof (rule evaluate_cases [OF u(1,4) g0(2) m])
      assume "check_utilpower c g0 = Inl (Fatal 3)"
      with True that(1) show ?thesis by (simp add: run)
    next
      fix g1 assume "check_utilpower c g0 = Inr (False, g1)" "gene_ok c g1"
      with True that(2) [of g1] show ?thesis by (simp add: run)
    next
      fix g1 assume r: "check_utilpower c g0 = Inr (True, g1)" "admitted c g1"
      have same: "same_choice g0 g1"
        using check_utilpower_cases [OF u(1) gene_ok_safe [OF g0(2)] u(4)] r(1)
        by (auto simp: evaluated_def split: if_splits)
      show ?thesis
      proof (cases "g_score (genes s ! i1) < g_score g1 \<or> g_score (genes s ! i2) < g_score g1")
        case worse: True
        have "gene_ok c g1" using r(2) by (simp add: admitted_def)
        with True worse r(1) lt ne that(2) [of g1] show ?thesis by (simp add: run)
      next
        case better: False
        have l: "lists_ok (put_gene nb g1 s) js" by (rule lists_ok_put [OF assms(2,4)])
        have d: "detached nb (put_gene nb g1 s)" using assms(3) by (simp add: detached_def)
        obtain h where h: "sort_gene nb (put_gene nb g1 s) = ret (put_gene nb g1 s\<lparr>links := h\<rparr>)"
          "lists_ok (put_gene nb g1 s\<lparr>links := h\<rparr>)
             (\<lambda>k. insort_by (less_by k (genes (put_gene nb g1 s))) nb (js k))"
          using sort_gene_ok [OF l d _ assms(4)] assms(5) by auto
        have "do_crossover c nb i1 i2 kr kf km s = ret (True, put_gene nb g1 s\<lparr>links := h\<rparr>)"
          using True better r(1) lt ne h(1) by (simp add: run)
        moreover have "joined c nb js s (put_gene nb g1 s\<lparr>links := h\<rparr>)"
          using h(2) r(2) assms(14) by (auto simp: joined_def)
        moreover have "child_of (n_tasks c) (genes s ! i1) (genes s ! i2) kr kf km g1"
          using g0(3) same by (simp add: child_of_def same_choice_def)
        ultimately show ?thesis using better assms(5) by (intro that(3)) auto
      qed
    qed
  qed
qed

section \<open>One generation\<close>

text \<open>The newborn is out of the lists; \<open>waiting\<close> is the invariant of the tries.\<close>

definition waiting :: "conf \<Rightarrow> nat \<Rightarrow> (kind \<Rightarrow> nat list) \<Rightarrow> ga \<Rightarrow> bool" where
  "waiting c nb js s =
     (lists_ok s js \<and> detached nb s \<and> (\<forall>k. nb \<notin> set (js k)) \<and> nb < length (genes s)
      \<and> gene_ok c (genes s ! nb) \<and> (\<forall>i\<in>set (js By_score). admitted c (genes s ! i)) \<and> fair (rng s))"

text \<open>A successful try: the newborn joins, child of two different listed genes, no worse.\<close>

definition born :: "conf \<Rightarrow> nat \<Rightarrow> (kind \<Rightarrow> nat list) \<Rightarrow> ga \<Rightarrow> ga \<Rightarrow> bool" where
  "born c nb js s s' =
     (joined c nb js s s' \<and>
      (\<exists>i1\<in>set (js By_score). \<exists>i2\<in>set (js By_score). i1 \<noteq> i2
         \<and> \<not> g_score (genes s' ! i1) < g_score (genes s' ! nb)
         \<and> \<not> g_score (genes s' ! i2) < g_score (genes s' ! nb)
         \<and> (\<exists>kr kf km. {unat kr, unat kf, unat km} \<subseteq> {1..<n_tasks c}
              \<and> child_of (n_tasks c) (genes s' ! i1) (genes s' ! i2) kr kf km (genes s' ! nb))))"

lemma draw_crosspt_ok:
  assumes "2 \<le> n_tasks c" and "n_tasks c \<le> MAX_TASKS"
  shows "\<exists>v g. draw_crosspt c s = ret (v, s\<lparr>rng := g\<rparr>) \<and> unat v \<in> {1..<n_tasks c} \<and> fair g = fair (rng s)"
proof -
  define w :: u32 where "w = of_nat (n_tasks c) - 1"
  have n: "unat (of_nat (n_tasks c) :: u32) = n_tasks c"
    using assms(2) by (intro unat_of_nat_u32) (simp add: caps)
  then have "0 < unat (of_nat (n_tasks c) :: u32)" using assms(1) by linarith
  then have w: "unat w = n_tasks c - 1" unfolding w_def by (simp only: unat_dec32 n)
  have w0: "w \<noteq> 0" using w assms(1) by auto
  obtain v g where v: "get_rand w (rng s) = Inr (v, g)" "v < w" by (rule get_rand_ok [OF w0])
  have "unat v < n_tasks c - 1" using v(2) w by (simp add: word_less_nat_alt)
  moreover from this have "unat (v + 1) = unat v + 1"
    using assms(2) by (intro unat_inc) (simp add: caps)
  ultimately have "unat (v + 1) \<in> {1..<n_tasks c}" by simp
  moreover have "draw_crosspt c s = ret (v + 1, s\<lparr>rng := g\<rparr>)"
    using v(1) by (simp add: draw_crosspt_def w_def)
  ultimately show ?thesis using get_rand_fair [OF v(1)] by blast
qed

lemma waiting_rng: "waiting c nb js s \<Longrightarrow> fair g \<Longrightarrow> waiting c nb js (s\<lparr>rng := g\<rparr>)"
  by (simp add: waiting_def detached_def)

lemma crossover_try_cases:
  assumes "ready c" and "waiting c nb js s" and "2 \<le> length (js By_score)"
    and "length (js By_score) < unat (n_pops c)"
  obtains "crossover_try c nb s = fail (Fatal 3)"
  | gene g where "crossover_try c nb s = ret (False, put_gene nb gene (s\<lparr>rng := g\<rparr>))"
      "waiting c nb js (put_gene nb gene (s\<lparr>rng := g\<rparr>))"
  | s' where "crossover_try c nb s = ret (True, s')" "born c nb js s s'"
proof -
  have u: "usable c" "2 \<le> n_tasks c" "n_pops c \<noteq> 0" "unat (n_pops c) \<le> 16383" "n_tasks c \<le> MAX_TASKS"
    using assms(1) usableD(6) by (auto simp: ready_def)
  have w: "lists_ok s js" "detached nb s" "\<And>k. nb \<notin> set (js k)" "nb < length (genes s)"
    "gene_ok c (genes s ! nb)" "\<And>i. i \<in> set (js By_score) \<Longrightarrow> admitted c (genes s ! i)" "fair (rng s)"
    using assms(2) by (auto simp: waiting_def)
  have ne: "js By_score \<noteq> []" using assms(3) by auto
  define i1 where "i1 = selected (js By_score) (rank_nat c (drawn (draw_range c) (rng s) 0))"
  define g1 where "g1 = (\<lambda>i. rng s (Suc i))"
  have 1: "select_gene c s = ret (i1, s\<lparr>rng := g1\<rparr>)"
    unfolding i1_def g1_def by (rule select_gene_total [OF u(3,4) w(1) ne])
  have i1: "i1 \<in> set (js By_score)" unfolding i1_def by (rule selected_in [OF ne])
  have f1: "fair g1" using w(7) by (simp add: g1_def)
  obtain i2 g2 where 2: "select_other c i1 (s\<lparr>rng := g1\<rparr>) = ret (i2, s\<lparr>rng := g2\<rparr>)" "fair g2"
    "i2 \<in> set (js By_score)" "i2 \<noteq> i1"
    using select_other_ok [of c "s\<lparr>rng := g1\<rparr>" js i1] assms(1,3,4) w(1) f1 by (auto simp: ready_def)
  obtain kr g3 where 3: "draw_crosspt c (s\<lparr>rng := g2\<rparr>) = ret (kr, s\<lparr>rng := g3\<rparr>)"
    "unat kr \<in> {1..<n_tasks c}" "fair g3"
    using draw_crosspt_ok [OF u(2,5), of "s\<lparr>rng := g2\<rparr>"] 2(2) by auto
  obtain kf g4 where 4: "draw_crosspt c (s\<lparr>rng := g3\<rparr>) = ret (kf, s\<lparr>rng := g4\<rparr>)"
    "unat kf \<in> {1..<n_tasks c}" "fair g4"
    using draw_crosspt_ok [OF u(2,5), of "s\<lparr>rng := g3\<rparr>"] 3(3) by auto
  obtain km g5 where 5: "draw_crosspt c (s\<lparr>rng := g4\<rparr>) = ret (km, s\<lparr>rng := g5\<rparr>)"
    "unat km \<in> {1..<n_tasks c}" "fair g5"
    using draw_crosspt_ok [OF u(2,5), of "s\<lparr>rng := g4\<rparr>"] 4(3) by auto
  define s5 where "s5 = s\<lparr>rng := g5\<rparr>"
  have run: "crossover_try c nb s = do_crossover c nb i1 i2 kr kf km s5"
    by (simp add: crossover_try_def 1 2(1) 3(1) 4(1) 5(1) s5_def)
  have w5: "waiting c nb js s5" unfolding s5_def by (rule waiting_rng [OF assms(2) 5(3)])
  have ok: "gene_ok c (genes s5 ! i1)" "gene_ok c (genes s5 ! i2)"
    using w(6) i1 2(3) by (simp_all add: s5_def admitted_def)
  have le: "unat kr \<le> n_tasks c" "unat kf \<le> n_tasks c" "unat km \<le> n_tasks c"
    using 3(2) 4(2) 5(2) by simp_all
  have s5: "lists_ok s5 js" "detached nb s5" "nb < length (genes s5)" "gene_ok c (genes s5 ! nb)" "fair (rng s5)"
    using w5 by (simp_all add: waiting_def)
  show ?thesis
  proof (rule do_crossover_cases [OF u(1) s5(1,2) w(3) s5(3,4) i1 2(3) ok le s5(5)])
    assume "do_crossover c nb i1 i2 kr kf km s5 = fail (Fatal 3)"
    with that(1) run show ?thesis by simp
  next
    fix gene assume r: "do_crossover c nb i1 i2 kr kf km s5 = ret (False, put_gene nb gene s5)" "gene_ok c gene"
    have "lists_ok (put_gene nb gene s5) js" by (rule lists_ok_put [OF s5(1) w(3)])
    then have "waiting c nb js (put_gene nb gene s5)"
      using w5 r(2) by (auto simp: waiting_def detached_def nth_list_update)
    with that(2) r(1) run show ?thesis by (simp add: s5_def)
  next
    fix s' assume r: "do_crossover c nb i1 i2 kr kf km s5 = ret (True, s')" "joined c nb js s5 s'"
      "child_of (n_tasks c) (genes s5 ! i1) (genes s5 ! i2) kr kf km (genes s' ! nb)"
      "\<not> g_score (genes s5 ! i1) < g_score (genes s' ! nb)"
      "\<not> g_score (genes s5 ! i2) < g_score (genes s' ! nb)"
    have "i1 \<noteq> nb" "i2 \<noteq> nb" using i1 2(3) w(3) by auto
    then have same: "genes s' ! i1 = genes s5 ! i1" "genes s' ! i2 = genes s5 ! i2"
      using r(2) by (auto simp: joined_def)
    have "joined c nb js s s'" using r(2) by (simp add: joined_def s5_def)
    then have "born c nb js s s'"
      unfolding born_def using i1 2(3,4) 3(2) 4(2) 5(2) r(3-5)
      by (intro conjI bexI [of _ i1] bexI [of _ i2] exI [of _ kr] exI [of _ kf] exI [of _ km]) (auto simp: same)
    with that(3) r(1) run show ?thesis by simp
  qed
qed

lemma crossover_loop_ok:
  assumes "ready c" and "2 \<le> length (js By_score)" and "length (js By_score) < unat (n_pops c)"
    and "waiting c nb js s"
  shows "crossover_loop c nb t s = fail (Fatal 3)
    \<or> (\<exists>s'. crossover_loop c nb t s = ret s' \<and> born c nb js s s')"
  using assms(4)
proof (induction "MAX_TRY - t" arbitrary: t s)
  case 0
  then show ?case by (simp add: crossover_loop.simps [of c nb t s])
next
  case (Suc m)
  then have lt: "t < MAX_TRY" and m: "m = MAX_TRY - Suc t" by simp_all
  show ?case
  proof (rule crossover_try_cases [OF assms(1) Suc.prems assms(2,3)])
    assume "crossover_try c nb s = fail (Fatal 3)"
    with lt show ?thesis by (simp add: crossover_loop.simps [of c nb t s])
  next
    fix gene g assume r: "crossover_try c nb s = ret (False, put_gene nb gene (s\<lparr>rng := g\<rparr>))"
      "waiting c nb js (put_gene nb gene (s\<lparr>rng := g\<rparr>))"
    have "born c nb js s s'" if "born c nb js (put_gene nb gene (s\<lparr>rng := g\<rparr>)) s'" for s'
      using that by (auto simp: born_def joined_def)
    with Suc.hyps(1) [OF m r(2)] lt r(1) show ?thesis
      by (auto simp: crossover_loop.simps [of c nb t s])
  next
    fix s' assume "crossover_try c nb s = ret (True, s')" "born c nb js s s'"
    with lt show ?thesis by (simp add: crossover_loop.simps [of c nb t s])
  qed
qed

text \<open>
  What \<open>crossover\<close> does to the population: the gene with the worst score is replaced by a child
  of two others, and put back into the three lists at its place.
\<close>

definition replaced :: "conf \<Rightarrow> (kind \<Rightarrow> nat list) \<Rightarrow> ga \<Rightarrow> (kind \<Rightarrow> nat list) \<Rightarrow> ga \<Rightarrow> bool" where
  "replaced c js s js' s' =
     (let nb = last (js By_score); rest = (\<lambda>k. remove1 nb (js k)) in
      born c nb rest s s' \<and> js' = (\<lambda>k. insort_by (less_by k (genes s')) nb (rest k)))"

definition full_pop :: "conf \<Rightarrow> (kind \<Rightarrow> nat list) \<Rightarrow> ga \<Rightarrow> bool" where
  "full_pop c js s =
     (pop c {..<unat (n_pops c)} js s \<and> length (genes s) = unat (n_pops c))"

lemma full_pop_length: "full_pop c js s \<Longrightarrow> length (js k) = unat (n_pops c)"
  using lists_ok_distinct [of s js k] distinct_card [of "js k"]
  by (simp add: full_pop_def pop_def)

lemma crossover_cases:
  assumes "ready c" and "full_pop c js s"
  shows "crossover c s = fail (Fatal 3)
    \<or> (\<exists>s' js'. crossover c s = ret s' \<and> full_pop c js' s' \<and> replaced c js s js' s')"
proof -
  let ?n = "unat (n_pops c)"
  have n: "3 \<le> ?n" using assms(1) by (simp add: ready_def)
  have p: "lists_ok s js" "\<And>k. set (js k) = {..<?n}" "\<And>i. i < ?n \<Longrightarrow> admitted c (genes s ! i)"
    "fair (rng s)" "length (genes s) = ?n"
    using assms(2) by (auto simp: full_pop_def pop_def)
  have len: "length (js k) = ?n" for k by (rule full_pop_length [OF assms(2)])
  have ne: "js By_score \<noteq> []" using len [of By_score] n by auto
  define nb where "nb = last (js By_score)"
  define rest where "rest = (\<lambda>k. remove1 nb (js k))"
  obtain h where h: "get_newborn s = Inr (nb, s\<lparr>links := h\<rparr>)"
    "lists_ok (s\<lparr>links := h\<rparr>) rest" "detached nb (s\<lparr>links := h\<rparr>)"
    using get_newborn_ok [OF p(1) ne p(2)] unfolding nb_def rest_def by blast
  have nb: "nb < ?n" using last_in_set [OF ne] p(2) by (auto simp: nb_def)
  have rest: "set (rest k) = {..<?n} - {nb}" "length (rest k) = ?n - 1" for k
    using lists_ok_distinct [OF p(1), of k] p(2) [of k] nb len [of k]
    by (simp_all add: rest_def set_remove1_eq length_remove1)
  have gk: "gene_ok c (genes s ! nb)" using p(3) [OF nb] by (simp add: admitted_def)
  have w: "waiting c nb rest (s\<lparr>links := h\<rparr>)"
    using h(2,3) rest p(3-5) nb gk by (auto simp: waiting_def)
  have run: "crossover c s = crossover_loop c nb 0 (s\<lparr>links := h\<rparr>)"
    by (simp add: crossover_def h(1))
  have "crossover_loop c nb 0 (s\<lparr>links := h\<rparr>) = fail (Fatal 3)
    \<or> (\<exists>s'. crossover_loop c nb 0 (s\<lparr>links := h\<rparr>) = ret s' \<and> born c nb rest (s\<lparr>links := h\<rparr>) s')"
    by (rule crossover_loop_ok [OF assms(1) _ _ w]) (use rest(2) n in simp_all)
  then show ?thesis
  proof
    assume "\<exists>s'. crossover_loop c nb 0 (s\<lparr>links := h\<rparr>) = ret s' \<and> born c nb rest (s\<lparr>links := h\<rparr>) s'"
    then obtain s' where s': "crossover c s = ret s'" "born c nb rest (s\<lparr>links := h\<rparr>) s'"
      using run by auto
    define js' where "js' = (\<lambda>k. insort_by (less_by k (genes s')) nb (rest k))"
    have b: "born c nb rest s s'" using s'(2) by (simp add: born_def joined_def)
    then have j: "joined c nb rest s s'" by (simp add: born_def)
    then obtain gene where g: "genes s' = (genes s)[nb := gene]" "admitted c gene" "fair (rng s')"
      "lists_ok s' js'" unfolding joined_def js'_def by blast
    have "set (js' k) = {..<?n}" for k using rest(1) [of k] nb by (auto simp: js'_def)
    moreover have "admitted c (genes s' ! i)" if "i < ?n" for i
      using that p(3,5) g(1,2) nb by (simp add: nth_list_update)
    ultimately have "full_pop c js' s'" using g p(5) by (simp add: full_pop_def pop_def)
    moreover have "replaced c js s js' s'"
      using b unfolding replaced_def Let_def js'_def rest_def nb_def by blast
    ultimately show ?thesis using s'(1) by blast
  qed (simp add: run)
qed

text \<open>The best gene: first in the list by score.\<close>

definition best :: "(kind \<Rightarrow> nat list) \<Rightarrow> ga \<Rightarrow> gene_t" where
  "best js s = genes s ! hd (js By_score)"

lemma replaced_best:
  assumes "full_pop c js s" and "3 \<le> unat (n_pops c)" and "replaced c js s js' s'"
  shows "best js' s' = best js s \<or> g_score (best js' s') < g_score (best js s)"
proof -
  define nb where "nb = last (js By_score)"
  define xs where "xs = js By_score"
  have d: "distinct xs" and len: "length xs = unat (n_pops c)"
    using assms(1) lists_ok_distinct full_pop_length by (auto simp: full_pop_def pop_def xs_def)
  obtain x y zs where xs: "xs = x # y # zs" using len assms(2) by (cases xs; cases "tl xs") auto
  then have ne: "nb \<noteq> x" using d last_in_set [of "y # zs"] by (auto simp: nb_def xs_def [symmetric])
  then have rm: "remove1 nb xs = x # remove1 nb (y # zs)" by (simp add: xs)
  have js': "js' By_score = insort_by (less_by By_score (genes s')) nb (remove1 nb xs)"
    and g: "\<exists>gene. genes s' = (genes s)[nb := gene]"
    using assms(3) by (auto simp: replaced_def Let_def born_def joined_def nb_def xs_def)
  have same: "genes s' ! x = genes s ! x" using g ne by auto
  have b: "best js s = genes s ! x" using xs by (simp add: best_def xs_def)
  have "hd (js' By_score) = (if less_by By_score (genes s') nb x then nb else x)"
    unfolding js' rm hd_insort_by by simp
  then have "best js' s' = (if g_score (genes s' ! nb) < g_score (genes s' ! x) then genes s' ! nb else genes s' ! x)"
    by (simp add: best_def less_by_def)
  then show ?thesis unfolding b same by simp
qed

text \<open>
  The score at a rank. One generation lowers none of them below the last, if none is NaN: the
  newborn is put in its place and the last gene falls out.
\<close>

definition score_at :: "(kind \<Rightarrow> nat list) \<Rightarrow> ga \<Rightarrow> nat \<Rightarrow> f64" where
  "score_at js s r = g_score (genes s ! (js By_score ! r))"

lemma replaced_ranks:
  assumes "full_pop c js s" and "replaced c js s js' s'"
    and "\<forall>r. Suc r < unat (n_pops c) \<longrightarrow> score_at js s r \<noteq> NaN" and "Suc r < unat (n_pops c)"
  shows "score_at js' s' r \<le> score_at js s r"
proof -
  define xs where "xs = butlast (js By_score)"
  define nb where "nb = last (js By_score)"
  have d: "distinct (js By_score)" and rk: "ranked (less_by By_score (genes s)) (js By_score)"
    using assms(1) lists_ok_distinct by (auto simp: full_pop_def pop_def lists_ok_def)
  have len: "length (js By_score) = unat (n_pops c)" by (rule full_pop_length [OF assms(1)])
  have js: "js By_score = xs @ [nb]" using len assms(4) by (cases "js By_score" rule: rev_cases) (auto simp: xs_def nb_def)
  with d have nb: "nb \<notin> set xs" "remove1 nb (js By_score) = xs" by (simp_all add: remove1_append)
  have js': "js' By_score = insort_by (less_by By_score (genes s')) nb xs"
    and g: "\<exists>gene. genes s' = (genes s)[nb := gene]"
    using assms(2) nb by (auto simp: replaced_def Let_def born_def joined_def nb_def)
  then have same: "genes s' ! x = genes s ! x" if "x \<in> set xs" for x using that nb(1) g by (cases "x = nb") auto
  have r: "r < length xs" and n: "length xs = unat (n_pops c) - 1" using assms(4) len js by simp_all
  have nan: "g_score (genes s' ! x) \<noteq> NaN" if x: "x \<in> set xs" for x
  proof -
    obtain k where k: "k < length xs" "x = xs ! k" using x by (auto simp: in_set_conv_nth)
    then have "score_at js s k \<noteq> NaN" using assms(3) n by simp
    with k js same [OF x] show ?thesis by (simp add: score_at_def nth_append)
  qed
  have "ranked (less_by By_score (genes s)) xs" using ranked_butlast [OF rk] by (simp add: xs_def)
  then have "ranked (less_by By_score (genes s')) xs"
    using ranked_cong [of xs "less_by By_score (genes s')" "less_by By_score (genes s)"] same
    by (simp add: less_by_def)
  then have "g_score (genes s' ! (js' By_score ! r)) \<le> g_score (genes s' ! (xs ! r))"
    unfolding js' using r
    by (rule insort_by_nth) (auto simp: less_by_def nan f64_less_le f64_not_less_le f64_le_refl)
  with same r js show ?thesis by (simp add: score_at_def nth_append)
qed

section \<open>Populations that are too small\<close>

lemma select_other_alone:
  assumes "n_pops c \<noteq> 0" and "unat (n_pops c) \<le> 16383" and "lists_ok s js" and "js By_score = [i]"
  shows "select_other c i s = None"
proof (rule ccontr)
  assume "select_other c i s \<noteq> None"
  then obtain r where r: "select_other c i s = Some r" by auto
  let ?P = "\<lambda>c' i' s r. c' = c \<longrightarrow> i' = i \<longrightarrow> \<not> lists_ok s js"
  have "?P c i s r"
  proof (rule select_other.raw_induct [where P = "?P", OF _ r])
    fix f c' i' s r
    assume IH: "\<And>c' i' s r. f c' i' s = Some r \<Longrightarrow> ?P c' i' s r"
      and eq: "run_bind (select_gene c' s) (\<lambda>(i2, s). if i' = i2 then f c' i' s else ret (i2, s)) = Some r"
    show "?P c' i' s r"
    proof (intro impI notI)
      assume c: "c' = c" "i' = i" and l: "lists_ok s js"
      have "select_gene c s = ret (i, s\<lparr>rng := \<lambda>i. rng s (Suc i)\<rparr>)"
        using select_gene_total [OF assms(1,2) l] assms(4) by (simp add: selected_def)
      with eq c have "f c i (s\<lparr>rng := \<lambda>i. rng s (Suc i)\<rparr>) = Some r" by simp
      from IH [OF this] l show False by simp
    qed
  qed
  with assms(3) show False by simp
qed

lemma crossover_after_newborn:
  assumes "lists_ok s js" and "js By_score \<noteq> []" and "\<And>k. set (js k) = A"
  shows "\<exists>h. crossover c s = crossover_loop c (last (js By_score)) 0 (s\<lparr>links := h\<rparr>)
    \<and> lists_ok (s\<lparr>links := h\<rparr>) (\<lambda>k. remove1 (last (js By_score)) (js k))"
  using get_newborn_ok [OF assms] by (auto simp: crossover_def)

lemma crossover_two_genes:
  assumes "n_pops c = 2" and "lists_ok s js" and "\<forall>k. set (js k) = {..<2}"
  shows "crossover c s = None"
proof -
  have n: "n_pops c \<noteq> 0" "unat (n_pops c) \<le> 16383" using assms(1) by simp_all
  have d: "distinct (js By_score)" by (rule lists_ok_distinct [OF assms(2)])
  have len: "length (js By_score) = 2" using distinct_card [OF d] assms(3) by simp
  then have ne: "js By_score \<noteq> []" by auto
  define nb where "nb = last (js By_score)"
  obtain h where h: "crossover c s = crossover_loop c nb 0 (s\<lparr>links := h\<rparr>)"
    "lists_ok (s\<lparr>links := h\<rparr>) (\<lambda>k. remove1 nb (js k))"
    using crossover_after_newborn [OF assms(2) ne] assms(3) unfolding nb_def by blast
  have "length (remove1 nb (js By_score)) = 1" using len ne by (simp add: nb_def length_remove1)
  then obtain i where i: "remove1 nb (js By_score) = [i]" by (auto simp: length_Suc_conv)
  have sel: "select_gene c (s\<lparr>links := h\<rparr>) = ret (i, s\<lparr>links := h, rng := \<lambda>i. rng s (Suc i)\<rparr>)"
    using select_gene_total [OF n h(2)] i by (simp add: selected_def)
  have "select_other c i (s\<lparr>links := h, rng := \<lambda>i. rng s (Suc i)\<rparr>) = None"
    using select_other_alone [OF n, where js = "\<lambda>k. remove1 nb (js k)"] i h(2) lists_ok_rng by blast
  then have "crossover_try c nb (s\<lparr>links := h\<rparr>) = None"
    by (simp add: crossover_try_def sel)
  then show ?thesis unfolding h(1) by (subst crossover_loop.simps) (simp add: MAX_TRY_def)
qed

lemma crossover_one_task:
  assumes "n_tasks c = 1" and "3 \<le> unat (n_pops c)" and "unat (n_pops c) \<le> 16383"
    and "lists_ok s js" and "\<forall>k. set (js k) = {..<unat (n_pops c)}" and "fair (rng s)"
  shows "crossover c s = fail Div_By_Zero"
proof -
  have n0: "n_pops c \<noteq> 0" using assms(2) by auto
  have d: "distinct (js By_score)" by (rule lists_ok_distinct [OF assms(4)])
  have len: "length (js By_score) = unat (n_pops c)" using distinct_card [OF d] assms(5) by simp
  have ne: "js By_score \<noteq> []" using len assms(2) by auto
  define nb where "nb = last (js By_score)"
  obtain h where h: "crossover c s = crossover_loop c nb 0 (s\<lparr>links := h\<rparr>)"
    "lists_ok (s\<lparr>links := h\<rparr>) (\<lambda>k. remove1 nb (js k))"
    using crossover_after_newborn [OF assms(4) ne] assms(5) unfolding nb_def by blast
  define xs where "xs = remove1 nb (js By_score)"
  have lxs: "length xs = unat (n_pops c) - 1" using len ne by (simp add: xs_def nb_def length_remove1)
  then have xs: "2 \<le> length xs" "length xs < unat (n_pops c)" "xs \<noteq> []" using assms(2) by auto
  define i1 where "i1 = selected xs (rank_nat c (drawn (draw_range c) (rng s) 0))"
  define s1 where "s1 = s\<lparr>links := h, rng := \<lambda>i. rng s (Suc i)\<rparr>"
  have sel: "select_gene c (s\<lparr>links := h\<rparr>) = ret (i1, s1)"
    using select_gene_total [OF n0 assms(3) h(2)] xs(3) by (simp add: i1_def s1_def xs_def)
  have l1: "lists_ok s1 (\<lambda>k. remove1 nb (js k))"
    using h(2) lists_ok_rng unfolding s1_def by blast
  obtain i2 g where "select_other c i1 s1 = ret (i2, s1\<lparr>rng := g\<rparr>)"
    using select_other_ok [OF conjI [OF assms(2,3)] l1, of i1] xs assms(6) by (auto simp: xs_def s1_def)
  then have "crossover_try c nb (s\<lparr>links := h\<rparr>) = fail Div_By_Zero"
    using assms(1) by (simp add: crossover_try_def sel draw_crosspt_def get_rand_def rand_next_def)
  then show ?thesis unfolding h(1) by (subst crossover_loop.simps) (simp add: MAX_TRY_def)
qed

section \<open>Properties\<close>

lemma small_ready: "ready small_conf"
  using small_conf_usable by (simp add: ready_def)

lemma small_full_pop: "\<exists>js. full_pop small_conf js (small_pop 3)"
  using small_pop_ok by (auto simp: full_pop_def)

text \<open>\<open>select_gene\<close> returns after one draw, with the gene at the drawn rank of the list by
  score, or the last one when the list is shorter (the newborn is out); it is always a listed
  gene.\<close>

theorem select_gene_selects:
  assumes "n_pops c \<noteq> 0" and "unat (n_pops c) \<le> 16383" and "lists_ok s js" and "js By_score \<noteq> []"
  shows "\<exists>i. select_gene c s = ret (i, s\<lparr>rng := \<lambda>i. rng s (Suc i)\<rparr>) \<and> i \<in> set (js By_score)
    \<and> i = selected (js By_score) (rank_nat c (drawn (draw_range c) (rng s) 0))"
  using select_gene_total [OF assms] selected_in [OF assms(4)] by blast

theorem select_gene_selects_witness:
  "\<exists>js i. lists_ok (small_pop 3) js
    \<and> select_gene small_conf (small_pop 3) = ret (i, small_pop 3\<lparr>rng := \<lambda>i. rng (small_pop 3) (Suc i)\<rparr>)
    \<and> i \<in> set (js By_score)
    \<and> i = selected (js By_score) (rank_nat small_conf (drawn (draw_range small_conf) (rng (small_pop 3)) 0))"
proof -
  obtain js where js: "lists_ok (small_pop 3) js" "set (js By_score) = {..<3}"
    using small_pop_lists [of 3] by auto
  have "0 \<in> set (js By_score)" using js(2) by simp
  then have ne: "js By_score \<noteq> []" by fastforce
  have "n_pops small_conf \<noteq> 0" "unat (n_pops small_conf) \<le> 16383" by simp_all
  from select_gene_selects [OF this js(1) ne] show ?thesis
    by (elim exE) (rule exI [of _ js], rule exI, rule conjI [OF js(1)], assumption)
qed

text \<open>C7. One generation: from a population, \<open>crossover\<close> ends, either with \<open>FATAL(3)\<close> or with a
  population of the same size in which the gene that was last by score is now a child of two
  different other genes, was admitted, is not worse than either parent, and stands at its place
  in the three lists; all other genes are unchanged.\<close>

theorem crossover_total:
  assumes "ready c" and "full_pop c js s"
  shows "crossover c s = fail (Fatal 3)
    \<or> (\<exists>s' js'. crossover c s = ret s' \<and> full_pop c js' s' \<and> replaced c js s js' s')"
  by (rule crossover_cases [OF assms])

theorem crossover_total_witness:
  "\<exists>js. full_pop small_conf js (small_pop 3)
    \<and> (crossover small_conf (small_pop 3) = fail (Fatal 3)
       \<or> (\<exists>s' js'. crossover small_conf (small_pop 3) = ret s' \<and> full_pop small_conf js' s'
            \<and> replaced small_conf js (small_pop 3) js' s'))"
  using small_full_pop crossover_total [OF small_ready] by blast

text \<open>Elitism: after a generation the first gene by score is the same one as before, or one
  with a strictly lower score.\<close>

theorem crossover_keeps_best:
  assumes "ready c" and "full_pop c js s"
  shows "crossover c s = fail (Fatal 3)
    \<or> (\<exists>s' js'. crossover c s = ret s' \<and> full_pop c js' s'
         \<and> (best js' s' = best js s \<or> g_score (best js' s') < g_score (best js s)))"
proof -
  have "3 \<le> unat (n_pops c)" using assms(1) by (simp add: ready_def)
  with crossover_cases [OF assms] replaced_best [OF assms(2)] show ?thesis by blast
qed

theorem crossover_keeps_best_witness:
  "\<exists>js. full_pop small_conf js (small_pop 3)
    \<and> (crossover small_conf (small_pop 3) = fail (Fatal 3)
       \<or> (\<exists>s' js'. crossover small_conf (small_pop 3) = ret s' \<and> full_pop small_conf js' s'
            \<and> (best js' s' = best js (small_pop 3) \<or> g_score (best js' s') < g_score (best js (small_pop 3)))))"
  using small_full_pop crossover_keeps_best [OF small_ready] by blast

text \<open>With two genes \<open>crossover\<close> never returns: without the newborn one gene is left, and
  the loop that looks for a second parent finds no other.\<close>

theorem crossover_of_two_loops:
  assumes "n_pops c = 2" and "lists_ok s js" and "\<forall>k. set (js k) = {..<2}"
  shows "crossover c s = None"
  by (rule crossover_two_genes [OF assms])

theorem crossover_of_two_loops_witness: "crossover (small_conf\<lparr>n_pops := 2\<rparr>) (small_pop 2) = None"
proof -
  obtain js where "lists_ok (small_pop 2) js" "\<forall>k. set (js k) = {..<2}"
    using small_pop_lists [of 2] by auto
  then show ?thesis by (intro crossover_of_two_loops) simp_all
qed

text \<open>With a single task \<open>crossover\<close> divides by zero: the crossing points are drawn modulo
  \<open>n_tasks - 1\<close>.\<close>

theorem crossover_of_one_task_traps:
  assumes "n_tasks c = 1" and "3 \<le> unat (n_pops c)" and "unat (n_pops c) \<le> 16383"
    and "lists_ok s js" and "\<forall>k. set (js k) = {..<unat (n_pops c)}" and "fair (rng s)"
  shows "crossover c s = fail Div_By_Zero"
  by (rule crossover_one_task [OF assms])

theorem crossover_of_one_task_traps_witness:
  "crossover (demo_conf\<lparr>n_pops := 3\<rparr>) (small_pop 3) = fail Div_By_Zero"
proof -
  obtain js where "lists_ok (small_pop 3) js" "\<forall>k. set (js k) = {..<3}" "fair (rng (small_pop 3))"
    using small_pop_lists [of 3] by auto
  then show ?thesis by (intro crossover_of_one_task_traps) (simp_all add: demo_conf_def init_conf_def)
qed

end
