(* ===== verification/Report.thy ===== *)
theory Report
  imports Crossover
begin

text \<open>
  report.c and \<open>run_GA\<close>: what is written to report.txt and task.txt, as data, and the main
  loop. Output makes text of the numbers. Whether a file can be opened is the
  argument \<open>can_open\<close>.
\<close>

section \<open>The report\<close>

record report_line =
  rl_gen :: u32
  rl_fit_min :: f64
  rl_fit_avg :: f64
  rl_fit_max :: f64
  rl_penalty_min :: f64
  rl_penalty_avg :: f64
  rl_penalty_max :: f64
  rl_cost_min :: f64
  rl_cost_avg :: f64
  rl_cost_max :: f64
  rl_util_min :: f64
  rl_util_avg :: f64
  rl_util_max :: f64

text \<open>The state of report.c: the static counter and the lines of the open file.\<close>

record report =
  n_report_intervals :: u32
  rep_lines :: "report_line list"

definition N_REPORTS :: u32 where "N_REPORTS = 1000"

record stats =
  util_sum :: f64
  cost_sum :: f64
  fit_sum :: f64
  penalty_sum :: f64
  fit_min :: f64
  fit_max :: f64
  penalty_min :: f64
  penalty_max :: f64
  n_valid_genes :: u32

definition init_stats :: stats where
  "init_stats = \<lparr>util_sum = 0, cost_sum = 0, fit_sum = 0, penalty_sum = 0,
     fit_min = lit (10 ^ 18), fit_max = lit (- (10 ^ 18)),
     penalty_min = lit (10 ^ 18), penalty_max = lit (- (10 ^ 18)), n_valid_genes = 0\<rparr>"

definition add_stats :: "gene_t \<Rightarrow> stats \<Rightarrow> stats" where
  "add_stats gene st =
     (let st = st\<lparr>util_sum := util_sum st + g_util gene\<rparr>
      in if g_util gene \<le> lit 3 then
           st\<lparr>cost_sum := cost_sum st + g_score gene,
              fit_sum := fit_sum st + g_fitness gene,
              penalty_sum := penalty_sum st + g_constraint_penalty gene,
              fit_min := (if g_fitness gene < fit_min st then g_fitness gene else fit_min st),
              fit_max := (if fit_max st < g_fitness gene then g_fitness gene else fit_max st),
              penalty_min := (if g_constraint_penalty gene < penalty_min st
                              then g_constraint_penalty gene else penalty_min st),
              penalty_max := (if penalty_max st < g_constraint_penalty gene
                              then g_constraint_penalty gene else penalty_max st),
              n_valid_genes := n_valid_genes st + 1\<rparr>
         else st)"

definition stats_step :: "gene_t list \<Rightarrow> nat \<Rightarrow> stats \<Rightarrow> stats res" where
  "stats_step gs i st = res_bind (arr_get gs i) (\<lambda>gene. Inr (add_stats gene st))"

text \<open>The gene behind the first or the last node of a list.\<close>

definition first_gene :: "kind \<Rightarrow> ga \<Rightarrow> gene_t res" where
  "first_gene k s = res_bind (list_entry k (nxt (links s) (Head k))) (arr_get (genes s))"

definition last_gene :: "kind \<Rightarrow> ga \<Rightarrow> gene_t res" where
  "last_gene k s = res_bind (list_entry k (prv (links s) (Head k))) (arr_get (genes s))"

text \<open>
  The loop over \<open>genes_by_score\<close>: its body reads \<open>genes_by_score.next\<close>, not the loop
  variable, so every round looks at the first gene.
\<close>

definition cost_min_loop :: "ga \<Rightarrow> f64 run" where
  "cost_min_loop s =
     (case list_for_each (links s) (Head By_score) (\<lambda>lp _.
             case first_gene By_score s of
               Inl e \<Rightarrow> Inl (Inl e)
             | Inr gene \<Rightarrow> if g_util gene \<le> lit 3 then Inl (Inr (g_score gene)) else Inr ()) () of
        None \<Rightarrow> None
      | Some (Inl r) \<Rightarrow> Some r
      | Some (Inr _) \<Rightarrow> ret (lit (- 1)))"

definition report_now :: "conf \<Rightarrow> u32 \<Rightarrow> ga \<Rightarrow> report_line run" where
  "report_now c gen s =
     run_bind (Some (for_upto (stats_step (genes s)) 0 (unat (n_pops c)) init_stats)) (\<lambda>st.
     let util_avg = util_sum st / of_u32 (n_pops c);
         avg = (\<lambda>x other. if 0 < n_valid_genes st then x / of_u32 (n_valid_genes st) else other);
         cost_avg = avg (cost_sum st) (lit (- 1));
         fit_avg = avg (fit_sum st) 0;
         penalty_avg = avg (penalty_sum st) 0
     in run_bind (Some (first_gene By_util s)) (\<lambda>gene_util_min.
        run_bind (Some (last_gene By_util s)) (\<lambda>gene_util_max.
        run_bind (cost_min_loop s) (\<lambda>cost_min.
        run_bind (Some (last_gene By_score s)) (\<lambda>worst.
        let cost_max = g_score worst in
        ret \<lparr>rl_gen = gen, rl_fit_min = fit_min st, rl_fit_avg = fit_avg, rl_fit_max = fit_max st,
             rl_penalty_min = penalty_min st, rl_penalty_avg = penalty_avg,
             rl_penalty_max = penalty_max st,
             rl_cost_min = (if cost_min < 0 then cost_max else cost_min),
             rl_cost_avg = (if cost_avg < 0 then cost_max else cost_avg),
             rl_cost_max = cost_max,
             rl_util_min = g_util gene_util_min, rl_util_avg = util_avg,
             rl_util_max = g_util gene_util_max\<rparr>)))))"

definition add_report :: "conf \<Rightarrow> u32 \<Rightarrow> ga \<Rightarrow> report \<Rightarrow> report run" where
  "add_report c gen s rep =
     (let first = n_report_intervals rep = 0;
          rep = (if first then
                   rep\<lparr>n_report_intervals := (if max_gen c div N_REPORTS = 0 then 1
                                              else max_gen c div N_REPORTS)\<rparr>
                 else rep)
      in if \<not> first \<and> gen mod n_report_intervals rep \<noteq> 0 \<and> gen \<noteq> max_gen c then ret rep
         else run_bind (report_now c gen s) (\<lambda>l. ret (rep\<lparr>rep_lines := rep_lines rep @ [l]\<rparr>)))"

definition init_report :: "(string \<Rightarrow> bool) \<Rightarrow> report res" where
  "init_report can_open =
     (if can_open ''report.txt'' then Inr \<lparr>n_report_intervals = 0, rep_lines = []\<rparr>
      else Inl (Fatal 2))"

section \<open>The result\<close>

text \<open>The rows of task.txt, and the counts that are printed with the gene.\<close>

record task_infos =
  ti_gene :: gene_t
  ti_rows :: "(u32 \<times> u32 \<times> u32 \<times> u32) list"
  ti_n_offloading :: int
  ti_cpufreqs :: "int list"

definition infos_step :: "gene_t \<Rightarrow> nat \<Rightarrow> task_infos \<Rightarrow> task_infos res" where
  "infos_step gene i t =
     res_bind (arr_get (attrs (taskattrs_mem gene)) i) (\<lambda>m.
     res_bind (arr_get (attrs (taskattrs_cpufreq gene)) i) (\<lambda>f.
     res_bind (arr_get (attrs (taskattrs_cloud gene)) i) (\<lambda>cl.
     res_bind (arr_get (attrs (taskattrs_offloadingratio gene)) i) (\<lambda>r.
     let t = t\<lparr>ti_rows := ti_rows t @ [(u32_of_u8 m, u32_of_u8 f, u32_of_u8 cl, u32_of_u8 r)]\<rparr> in
     if u32_of_u8 r \<noteq> 0 then Inr (t\<lparr>ti_n_offloading := ti_n_offloading t + 1\<rparr>)
     else
       let j = (if u32_of_u8 f < 4 then unat f else 4) in
       Inr (t\<lparr>ti_cpufreqs := (ti_cpufreqs t)[j := ti_cpufreqs t ! j + 1]\<rparr>)))))"

definition save_task_infos :: "(string \<Rightarrow> bool) \<Rightarrow> conf \<Rightarrow> ga \<Rightarrow> task_infos res" where
  "save_task_infos can_open c s =
     (if \<not> can_open ''task.txt'' then Inl (Fatal 2)
      else res_bind (first_gene By_score s) (\<lambda>gene.
        if lit 2 < g_util gene then Inl (Fatal 2)
        else for_upto (infos_step gene) 0 (n_tasks c)
               \<lparr>ti_gene = gene, ti_rows = [], ti_n_offloading = 0, ti_cpufreqs = [0, 0, 0, 0, 0]\<rparr>))"

definition close_report :: "(string \<Rightarrow> bool) \<Rightarrow> conf \<Rightarrow> ga \<Rightarrow> task_infos res" where
  "close_report = save_task_infos"

section \<open>The main loop\<close>

text \<open>\<open>while (gen <= max_gen)\<close>, with \<open>gen\<close> an \<open>unsigned\<close> that wraps.\<close>

partial_function (option) ga_loop :: "conf \<Rightarrow> u32 \<Rightarrow> ga \<Rightarrow> report \<Rightarrow> (ga \<times> report) run" where
  "ga_loop c gen s rep =
     (if gen \<le> max_gen c then
        run_bind (crossover c s) (\<lambda>s.
        run_bind (add_report c (gen + 1) s rep) (\<lambda>rep.
        ga_loop c (gen + 1) s rep))
      else ret (s, rep))"

definition run_GA :: "(string \<Rightarrow> bool) \<Rightarrow> conf \<Rightarrow> rng \<Rightarrow> (ga \<times> report \<times> task_infos) run" where
  "run_GA can_open c g =
     run_bind (Some (init_report can_open)) (\<lambda>rep.
     run_bind (init_populations c g) (\<lambda>(s, _).
     run_bind (add_report c 1 s rep) (\<lambda>rep.
     run_bind (ga_loop c 1 s rep) (\<lambda>(s, rep).
     run_bind (Some (close_report can_open c s)) (\<lambda>infos.
     ret (s, rep, infos))))))"

section \<open>Reports of a population\<close>

lemma full_popD:
  assumes "full_pop c js s" and "n_pops c \<noteq> 0"
  shows "dll (links s) (Head k) (map (Entry k) (js k))" and "js k \<noteq> []"
    and "set (js k) = {..<length (genes s)}" and "length (genes s) = unat (n_pops c)"
    and "ranked (less_by k (genes s)) (js k)"
proof -
  show "js k \<noteq> []" using full_pop_length [OF assms(1), of k] assms(2) by (auto simp: unat_eq_0)
qed (use assms(1) in \<open>auto simp: full_pop_def pop_def lists_ok_def\<close>)

lemma first_last_gene:
  assumes "full_pop c js s" and "n_pops c \<noteq> 0"
  shows "first_gene k s = Inr (genes s ! hd (js k))" and "last_gene k s = Inr (genes s ! last (js k))"
proof -
  note f = full_popD(1-3) [OF assms, of k]
  have "hd (js k) < length (genes s)" "last (js k) < length (genes s)"
    using f(2,3) hd_in_set last_in_set by blast+
  then show "first_gene k s = Inr (genes s ! hd (js k))" "last_gene k s = Inr (genes s ! last (js k))"
    using dll_first_last [OF f(1)] f(2) by (simp_all add: first_gene_def last_gene_def hd_map last_map)
qed

lemma iterate_const:
  "iterate (\<lambda>_ _. r) xs () = (if xs = [] then Inr () else case r of Inl a \<Rightarrow> Inl a | Inr _ \<Rightarrow> Inr ())"
  by (induction xs) (auto split: sum.splits)

lemma cost_min_loop_eq:
  assumes "full_pop c js s" and "n_pops c \<noteq> 0"
  shows "cost_min_loop s = ret (if g_util (best js s) \<le> lit 3 then g_score (best js s) else lit (- 1))"
  unfolding cost_min_loop_def first_last_gene(1) [OF assms] sum.case
    dll_for_each [OF full_popD(1) [OF assms]] iterate_const
  using full_popD(2) [OF assms, of By_score] by (simp add: best_def)

lemma stats_loop:
  assumes "length gs = n"
  shows "\<exists>st. for_upto (stats_step gs) 0 n init_stats = Inr st"
  using for_upto_rule [of "\<lambda>_ _. True" 0 init_stats n "stats_step gs"] assms
  by (simp add: stats_step_def)

text \<open>What a line of the report says about the population.\<close>

definition line_of :: "(kind \<Rightarrow> nat list) \<Rightarrow> ga \<Rightarrow> report_line \<Rightarrow> bool" where
  "line_of js s l =
     (rl_util_min l = g_util (genes s ! hd (js By_util))
      \<and> rl_util_max l = g_util (genes s ! last (js By_util))
      \<and> rl_cost_max l = g_score (genes s ! last (js By_score))
      \<and> rl_cost_min l =
          (let x = (if g_util (best js s) \<le> lit 3 then g_score (best js s) else lit (- 1))
           in if x < 0 then rl_cost_max l else x))"

lemma report_now_ok:
  assumes "full_pop c js s" and "n_pops c \<noteq> 0"
  shows "\<exists>l. report_now c gen s = ret l \<and> rl_gen l = gen \<and> line_of js s l"
proof -
  obtain st where "for_upto (stats_step (genes s)) 0 (unat (n_pops c)) init_stats = Inr st"
    using stats_loop [OF full_popD(4) [OF assms]] by blast
  then show ?thesis
    by (simp add: report_now_def first_last_gene [OF assms] cost_min_loop_eq [OF assms] line_of_def Let_def)
qed

lemma add_report_ok:
  assumes "full_pop c js s" and "n_pops c \<noteq> 0"
  shows "\<exists>rep'. add_report c gen s rep = ret rep'"
  using report_now_ok [OF assms, of gen] by (auto simp: add_report_def Let_def)

text \<open>The rows and the counts of the final report.\<close>

definition infos_of :: "nat \<Rightarrow> gene_t \<Rightarrow> task_infos \<Rightarrow> bool" where
  "infos_of n gene t =
     (ti_gene t = gene
      \<and> ti_rows t = map (\<lambda>i. (u32_of_u8 (mem_of gene i), u32_of_u8 (freq_of gene i),
                              u32_of_u8 (cloud_of gene i), u32_of_u8 (ratio_of gene i))) [0..<n]
      \<and> ti_n_offloading t = 0 \<and> length (ti_cpufreqs t) = 5
      \<and> (\<forall>j<5. ti_cpufreqs t ! j = int (card {i. i < n \<and> unat (freq_of gene i) = j})))"

lemma card_filter_Suc:
  "card {i. i < Suc n \<and> P i} = card {i. i < n \<and> P i} + (if P n then 1 else 0)"
proof (cases "P n")
  case True
  then have "{i. i < Suc n \<and> P i} = insert n {i. i < n \<and> P i}"
    using less_Suc_eq by blast
  with True show ?thesis by simp
next
  case False
  then have "{i. i < Suc n \<and> P i} = {i. i < n \<and> P i}" using less_Suc_eq by blast
  with False show ?thesis by simp
qed

lemma infos_loop:
  assumes "gene_ok c gene" and "n_tasks c \<le> MAX_TASKS" and "n_cpufreqs c \<le> MAX_CPU_FREQS"
  shows "\<exists>t. for_upto (infos_step gene) 0 (n_tasks c)
      \<lparr>ti_gene = gene, ti_rows = [], ti_n_offloading = 0, ti_cpufreqs = [0, 0, 0, 0, 0]\<rparr> = Inr t
    \<and> infos_of (n_tasks c) gene t"
proof (rule for_upto_rule [where P = "\<lambda>i. infos_of i gene"])
  show "infos_of 0 gene \<lparr>ti_gene = gene, ti_rows = [], ti_n_offloading = 0, ti_cpufreqs = [0, 0, 0, 0, 0]\<rparr>"
    by (auto simp: infos_of_def less_Suc_eq numeral_eq_Suc)
  fix i t assume i: "i < n_tasks c" and t: "infos_of i gene t"
  note r = gene_safe_reads [OF gene_ok_safe [OF assms(1)] i assms(2)]
  have z: "ratio_of gene i = 0" using assms(1) i by (simp add: gene_ok_def all_local_def)
  define j where "j = unat (freq_of gene i)"
  have f: "(if u32_of_u8 (freq_of gene i) < 4 then unat (freq_of gene i) else 4) = j" and j: "j < 5"
    using r(7) by (auto simp: j_def word_less_nat_alt)
  have "infos_step gene i t = Inr (t\<lparr>ti_rows := ti_rows t @
      [(u32_of_u8 (mem_of gene i), u32_of_u8 (freq_of gene i), u32_of_u8 (cloud_of gene i),
        u32_of_u8 (ratio_of gene i))], ti_cpufreqs := (ti_cpufreqs t)[j := ti_cpufreqs t ! j + 1]\<rparr>)"
    by (simp add: infos_step_def r(1-4) z f Let_def)
  moreover have "infos_of (Suc i) gene (t\<lparr>ti_rows := ti_rows t @
      [(u32_of_u8 (mem_of gene i), u32_of_u8 (freq_of gene i), u32_of_u8 (cloud_of gene i),
        u32_of_u8 (ratio_of gene i))], ti_cpufreqs := (ti_cpufreqs t)[j := ti_cpufreqs t ! j + 1]\<rparr>)"
    using t j unfolding infos_of_def card_filter_Suc by (auto simp: j_def nth_list_update)
  ultimately show "\<exists>t'. infos_step gene i t = Inr t' \<and> infos_of (Suc i) gene t'" by blast
qed simp

lemma save_task_infos_cases:
  assumes "usable c" and "full_pop c js s" and "n_pops c \<noteq> 0"
  shows "if can_open ''task.txt'' \<and> \<not> lit 2 < g_util (best js s)
    then \<exists>t. save_task_infos can_open c s = Inr t \<and> infos_of (n_tasks c) (best js s) t
    else save_task_infos can_open c s = Inl (Fatal 2)"
proof -
  have "hd (js By_score) \<in> set (js By_score)" by (rule hd_in_set [OF full_popD(2) [OF assms(2,3)]])
  then have "hd (js By_score) < unat (n_pops c)"
    unfolding full_popD(3,4) [OF assms(2,3)] by simp
  then have "gene_ok c (best js s)"
    using assms(2) by (simp add: full_pop_def pop_def best_def admitted_def)
  from infos_loop [OF this] usableD [OF assms(1)] show ?thesis
    using first_last_gene(1) [OF assms(2,3), of By_score]
    by (auto simp: save_task_infos_def best_def conf_ok_def)
qed

lemma save_task_infos_ok:
  assumes "usable c" and "full_pop c js s" and "n_pops c \<noteq> 0"
  shows "save_task_infos can_open c s = Inl (Fatal 2) \<and> (can_open ''task.txt'' \<longrightarrow> lit 2 < g_util (best js s))
    \<or> (\<exists>t. save_task_infos can_open c s = Inr t \<and> infos_of (n_tasks c) (best js s) t)"
  using save_task_infos_cases [OF assms] by (metis (full_types))

section \<open>The main loop ends, or does not\<close>

text \<open>The best gene only changes for a strictly better one.\<close>

definition at_least_as_good :: "gene_t \<Rightarrow> gene_t \<Rightarrow> bool" where
  "at_least_as_good new old = (new = old \<or> g_score new < g_score old)"

lemma at_least_as_good_trans:
  "at_least_as_good x y \<Longrightarrow> at_least_as_good y z \<Longrightarrow> at_least_as_good x z"
  by (auto simp: at_least_as_good_def intro: f64_less_trans)

text \<open>Whatever every generation keeps holds at the end of the loop.\<close>

lemma ga_loop_invariant:
  assumes "ready c" and "max_gen c \<noteq> - 1" and "full_pop c js s" and "I js s"
    and step: "\<And>js s js' s'. full_pop c js s \<Longrightarrow> I js s \<Longrightarrow> replaced c js s js' s' \<Longrightarrow> I js' s'"
  shows "ga_loop c gen s rep = fail (Fatal 3)
    \<or> (\<exists>s' js' rep'. ga_loop c gen s rep = ret (s', rep') \<and> full_pop c js' s' \<and> I js' s')"
  using assms(3,4)
proof (induction "unat (max_gen c) + 1 - unat gen" arbitrary: gen js s rep)
  case 0
  then have "\<not> gen \<le> max_gen c" by (simp add: word_le_nat_alt)
  with 0 show ?case by (subst ga_loop.simps) (auto simp: ga_loop.simps)
next
  case (Suc m)
  have n: "n_pops c \<noteq> 0" using assms(1) by (auto simp: ready_def)
  have le: "gen \<le> max_gen c" using Suc.hyps(2) by (simp add: word_le_nat_alt)
  have "unat (max_gen c) < unat (- 1 :: u32)"
    using assms(2) word_order.extremum_strict [of "max_gen c"] word_order.not_eq_extremum
    by (auto simp: word_less_nat_alt)
  then have "unat gen < 2 ^ 32 - 1" using le
    by (simp add: word_le_nat_alt unsigned_minus_1_eq_mask mask_eq_exp_minus_1)
  then have m: "m = unat (max_gen c) + 1 - unat (gen + 1)"
    using Suc.hyps(2) by (simp add: unat_inc)
  from crossover_cases [OF assms(1) Suc.prems(1)]
  show ?case
  proof
    assume "crossover c s = fail (Fatal 3)"
    with le show ?thesis by (subst ga_loop.simps) simp
  next
    assume "\<exists>s' js'. crossover c s = ret s' \<and> full_pop c js' s' \<and> replaced c js s js' s'"
    then obtain s1 js1 where 1: "crossover c s = ret s1" "full_pop c js1 s1" "replaced c js s js1 s1" by blast
    have I: "I js1 s1" by (rule step [OF Suc.prems 1(3)])
    obtain rep1 where r: "add_report c (gen + 1) s1 rep = ret rep1"
      using add_report_ok [OF 1(2) n] by blast
    have "ga_loop c gen s rep = ga_loop c (gen + 1) s1 rep1"
      using le 1(1) r by (subst ga_loop.simps) simp
    with Suc.hyps(1) [OF m 1(2) I, of rep1] show ?thesis by simp
  qed
qed

lemma ga_loop_ok:
  assumes "ready c" and "max_gen c \<noteq> - 1" and "full_pop c js s"
  shows "ga_loop c gen s rep = fail (Fatal 3)
    \<or> (\<exists>s' js' rep'. ga_loop c gen s rep = ret (s', rep') \<and> full_pop c js' s'
         \<and> at_least_as_good (best js' s') (best js s))"
proof (rule ga_loop_invariant [OF assms])
  have n: "3 \<le> unat (n_pops c)" using assms(1) by (simp add: ready_def)
  show "at_least_as_good (best js2 s2) (best js s)"
    if "full_pop c js1 s1" "at_least_as_good (best js1 s1) (best js s)" "replaced c js1 s1 js2 s2" for js1 s1 js2 s2
    using replaced_best [OF that(1) n that(3)] that(2) at_least_as_good_trans by (auto simp: at_least_as_good_def)
qed (simp add: at_least_as_good_def)

lemma ga_loop_endless:
  assumes "max_gen c = - 1"
  shows "ga_loop c gen s rep \<noteq> ret r"
proof
  assume r: "ga_loop c gen s rep = ret r"
  let ?P = "\<lambda>c' gen s rep x. max_gen c' = - 1 \<longrightarrow> x \<noteq> (Inr r :: err + ga \<times> report)"
  have "?P c gen s rep (Inr r)"
  proof (rule ga_loop.raw_induct [where P = ?P, OF _ r])
    fix f c' gen s rep x
    assume IH: "\<And>c' gen s rep x. f c' gen s rep = Some x \<Longrightarrow> ?P c' gen s rep x"
      and eq: "(if gen \<le> max_gen c' then
          run_bind (crossover c' s) (\<lambda>s. run_bind (add_report c' (gen + 1) s rep) (\<lambda>rep. f c' (gen + 1) s rep))
        else ret (s, rep)) = Some x"
    show "?P c' gen s rep x"
    proof (intro impI notI)
      assume m: "max_gen c' = - 1" and x: "x = Inr r"
      have "run_bind (crossover c' s) (\<lambda>s. run_bind (add_report c' (gen + 1) s rep)
          (\<lambda>rep. f c' (gen + 1) s rep)) = ret r"
        using eq x m by simp
      then obtain s1 rep1 where "f c' (gen + 1) s1 rep1 = ret r" by auto
      from IH [OF this] m show False by simp
    qed
  qed
  with assms show False by simp
qed

lemma init_report_cases:
  "init_report can_open = Inl (Fatal 2) \<or> (\<exists>rep. init_report can_open = Inr rep)"
  by (simp add: init_report_def)

lemma run_GA_cases:
  assumes "ready c" and "max_gen c \<noteq> - 1" and "fair g"
  shows "run_GA can_open c g = fail (Fatal 3) \<or> run_GA can_open c g = fail (Fatal 2)
    \<or> (\<exists>s rep t js. run_GA can_open c g = ret (s, rep, t) \<and> full_pop c js s
         \<and> infos_of (n_tasks c) (best js s) t)"
proof -
  have u: "usable c" "n_pops c \<noteq> 0" using assms(1) by (auto simp: ready_def)
  show ?thesis
  proof (cases "init_report can_open")
    case (Inl e)
    then show ?thesis using init_report_cases [of can_open] by (auto simp: run_GA_def)
  next
    case (Inr rep0)
    from init_populations_cases [OF u(1) assms(3)] show ?thesis
    proof
      assume "init_populations c g = fail (Fatal 3) \<and> \<not> roomy c"
      with Inr show ?thesis by (simp add: run_GA_def)
    next
      assume "\<exists>s js u. init_populations c g = ret (s, u) \<and> pop c {..<unat (n_pops c)} js s
         \<and> length (genes s) = unat (n_pops c)"
      then obtain s0 js0 ut where 0: "init_populations c g = ret (s0, ut)" "full_pop c js0 s0"
        by (auto simp: full_pop_def)
      obtain rep1 where 1: "add_report c 1 s0 rep0 = ret rep1" using add_report_ok [OF 0(2) u(2)] by blast
      have run: "run_GA can_open c g = run_bind (ga_loop c 1 s0 rep1) (\<lambda>(s, rep).
          run_bind (Some (close_report can_open c s)) (\<lambda>infos. ret (s, rep, infos)))"
        by (simp add: run_GA_def Inr 0(1) 1)
      from ga_loop_ok [OF assms(1,2) 0(2), of 1 rep1] show ?thesis
      proof
        assume "ga_loop c 1 s0 rep1 = fail (Fatal 3)"
        then show ?thesis by (simp add: run)
      next
        assume "\<exists>s' js' rep'. ga_loop c 1 s0 rep1 = ret (s', rep') \<and> full_pop c js' s'
         \<and> at_least_as_good (best js' s') (best js0 s0)"
        then obtain s js rep where 2: "ga_loop c 1 s0 rep1 = ret (s, rep)" "full_pop c js s" by blast
        from save_task_infos_ok [OF u(1) 2(2) u(2), of can_open] 2 show ?thesis
          by (auto simp: run close_report_def)
      qed
    qed
  qed
qed

section \<open>Properties\<close>

text \<open>The extremes in a line of the report are the extremes of the population: no gene has
  a utilization below \<open>util_min\<close> or above \<open>util_max\<close>, and none a score above \<open>cost_max\<close>.\<close>

theorem report_extremes:
  assumes "full_pop c js s" and "n_pops c \<noteq> 0"
  shows "\<exists>l. report_now c gen s = ret l \<and> rl_gen l = gen
    \<and> (\<forall>i<unat (n_pops c). \<not> g_util (genes s ! i) < rl_util_min l
         \<and> \<not> rl_util_max l < g_util (genes s ! i) \<and> \<not> rl_cost_max l < g_score (genes s ! i))"
proof -
  obtain l where l: "report_now c gen s = ret l" "rl_gen l = gen" "line_of js s l"
    using report_now_ok [OF assms] by blast
  have i: "i \<in> set (js k)" if "i < unat (n_pops c)" for i k
    unfolding full_popD(3) [OF assms] full_popD(4) [OF assms] using that by simp
  have "\<not> g_util (genes s ! i) < rl_util_min l" "\<not> rl_util_max l < g_util (genes s ! i)"
    "\<not> rl_cost_max l < g_score (genes s ! i)" if "i < unat (n_pops c)" for i
    using l(3) by_key.ranked_first_minimal [OF full_popD(5) [OF assms] i [OF that], of By_util]
      by_key.ranked_last_maximal [OF full_popD(5) [OF assms] i [OF that], of By_util]
      by_key.ranked_last_maximal [OF full_popD(5) [OF assms] i [OF that], of By_score]
    by (simp_all add: line_of_def less_by_def)
  with l(1,2) show ?thesis by blast
qed

theorem report_extremes_witness:
  "\<exists>l. report_now small_conf 7 (small_pop 3) = ret l \<and> rl_gen l = 7
    \<and> (\<forall>i<unat (n_pops small_conf). \<not> g_util (genes (small_pop 3) ! i) < rl_util_min l
         \<and> \<not> rl_util_max l < g_util (genes (small_pop 3) ! i)
         \<and> \<not> rl_cost_max l < g_score (genes (small_pop 3) ! i))"
proof -
  obtain js where "full_pop small_conf js (small_pop 3)" using small_full_pop by blast
  then show ?thesis by (rule report_extremes) simp
qed

text \<open>The loop for the smallest cost never looks past the first gene: \<open>cost_min\<close> is that
  gene's score if its utilization is at most 3.0, and otherwise the initial -1, whatever the
  other genes are.\<close>

theorem cost_min_looks_at_first_only:
  assumes "full_pop c js s" and "n_pops c \<noteq> 0"
  shows "cost_min_loop s = ret (if g_util (best js s) \<le> lit 3 then g_score (best js s) else lit (- 1))"
  by (rule cost_min_loop_eq [OF assms])

theorem cost_min_looks_at_first_only_witness:
  "\<exists>js. full_pop small_conf js (small_pop 3) \<and> cost_min_loop (small_pop 3)
    = ret (if g_util (best js (small_pop 3)) \<le> lit 3 then g_score (best js (small_pop 3)) else lit (- 1))"
proof -
  obtain js where js: "full_pop small_conf js (small_pop 3)" using small_full_pop by blast
  from js have "cost_min_loop (small_pop 3)
    = ret (if g_util (best js (small_pop 3)) \<le> lit 3 then g_score (best js (small_pop 3)) else lit (- 1))"
    by (rule cost_min_looks_at_first_only) simp
  with js show ?thesis by (intro exI [of _ js] conjI)
qed

lemma small_best_util:
  assumes "full_pop small_conf js (small_pop 3)"
  shows "\<not> lit 2 < g_util (best js (small_pop 3))"
proof -
  have "js By_score \<noteq> []" "set (js By_score) = {..<3}"
    using full_pop_length [OF assms, of By_score] assms by (auto simp: full_pop_def pop_def)
  with hd_in_set [of "js By_score"] have "hd (js By_score) < 3" by simp
  then show ?thesis
    using small_pop_lists [of 3] by (auto simp: best_def small_gene_def lit_def mk_int [of 2 False, simplified] f64_ops)
qed

text \<open>C39. \<open>save_task_infos\<close> stops the program with \<open>FATAL(2)\<close> when task.txt cannot be opened or the
  best gene is over-utilized (above 2.0), and only then; otherwise task.txt holds the choices of
  the best gene task by task, the number of offloaded tasks is 0 and the five frequency counters
  are the histogram.\<close>

theorem save_task_infos_result:
  assumes "usable c" and "full_pop c js s" and "n_pops c \<noteq> 0"
  shows "if can_open ''task.txt'' \<and> \<not> lit 2 < g_util (best js s)
    then \<exists>t. save_task_infos can_open c s = Inr t \<and> infos_of (n_tasks c) (best js s) t
    else save_task_infos can_open c s = Inl (Fatal 2)"
  by (rule save_task_infos_cases [OF assms])

theorem save_task_infos_result_witness:
  "\<exists>js t. full_pop small_conf js (small_pop 3)
    \<and> save_task_infos (\<lambda>name. name \<noteq> ''task.txt'') small_conf (small_pop 3) = Inl (Fatal 2)
    \<and> save_task_infos (\<lambda>_. True) small_conf (small_pop 3) = Inr t
    \<and> infos_of (n_tasks small_conf) (best js (small_pop 3)) t"
proof -
  obtain js where js: "full_pop small_conf js (small_pop 3)" using small_full_pop by blast
  have "n_pops small_conf \<noteq> 0" by simp
  from save_task_infos_result [OF small_conf_usable js this, of "\<lambda>name. name \<noteq> ''task.txt''"]
    save_task_infos_result [OF small_conf_usable js this, of "\<lambda>_. True"] small_best_util [OF js] js
  show ?thesis by auto
qed

text \<open>C6. The whole run, for a configuration with at least two tasks and memories, 3 to 16383
  genes, a bounded number of generations and a fair generator, ends: with \<open>FATAL(3)\<close> (no
  feasible gene, or no acceptable child), with \<open>FATAL(2)\<close> (a file, or an over-utilized result),
  or with a population of admitted genes whose best gene is reported. No endless loop, no
  failed assertion, no access out of bounds, no division by zero.\<close>

theorem run_GA_total:
  assumes "ready c" and "max_gen c \<noteq> - 1" and "fair g"
  shows "run_GA can_open c g = fail (Fatal 3) \<or> run_GA can_open c g = fail (Fatal 2)
    \<or> (\<exists>s rep t js. run_GA can_open c g = ret (s, rep, t) \<and> full_pop c js s
         \<and> infos_of (n_tasks c) (best js s) t)"
  by (rule run_GA_cases [OF assms])

theorem run_GA_total_witness:
  "run_GA (\<lambda>_. True) small_conf counter = fail (Fatal 3) \<or> run_GA (\<lambda>_. True) small_conf counter = fail (Fatal 2)
    \<or> (\<exists>s rep t js. run_GA (\<lambda>_. True) small_conf counter = ret (s, rep, t) \<and> full_pop small_conf js s
         \<and> infos_of (n_tasks small_conf) (best js s) t)"
  by (rule run_GA_total [OF small_ready _ fair_counter]) simp

text \<open>With the largest \<open>max_gen\<close> the program never completes: \<open>gen <= max_gen\<close> always
  holds for an \<open>unsigned\<close>.\<close>

theorem run_GA_endless:
  assumes "max_gen c = - 1"
  shows "run_GA can_open c g \<noteq> ret r"
  using ga_loop_endless [OF assms] by (auto simp: run_GA_def)

theorem run_GA_endless_witness:
  "\<forall>r. run_GA (\<lambda>_. True) (small_conf\<lparr>max_gen := - 1\<rparr>) counter \<noteq> ret r"
  by (intro allI run_GA_endless) simp

text \<open>C31. Over the generations the best gene is kept or replaced by one with a lower score.\<close>

theorem ga_loop_improves:
  assumes "ready c" and "max_gen c \<noteq> - 1" and "full_pop c js s"
  shows "ga_loop c gen s rep = fail (Fatal 3)
    \<or> (\<exists>s' js' rep'. ga_loop c gen s rep = ret (s', rep') \<and> full_pop c js' s'
         \<and> at_least_as_good (best js' s') (best js s))"
  by (rule ga_loop_ok [OF assms])

theorem ga_loop_improves_witness:
  "\<exists>js. full_pop small_conf js (small_pop 3)
    \<and> (ga_loop small_conf 1 (small_pop 3) \<lparr>n_report_intervals = 1, rep_lines = []\<rparr> = fail (Fatal 3)
       \<or> (\<exists>s' js' rep'. ga_loop small_conf 1 (small_pop 3) \<lparr>n_report_intervals = 1, rep_lines = []\<rparr> = ret (s', rep')
            \<and> full_pop small_conf js' s' \<and> at_least_as_good (best js' s') (best js (small_pop 3))))"
proof -
  obtain js where js: "full_pop small_conf js (small_pop 3)" using small_full_pop by blast
  have "max_gen small_conf \<noteq> - 1" by simp
  from ga_loop_improves [OF small_ready this js] js show ?thesis by (intro exI [of _ js] conjI)
qed

text \<open>C11. The population never degrades. If no score but that of the last gene is NaN at the start,
  then at every rank but the last the score after any number of generations is not above the one
  before them (and none of them is NaN).\<close>

theorem population_never_degrades:
  assumes "ready c" and "max_gen c \<noteq> - 1" and "full_pop c js s"
    and "\<forall>r. Suc r < unat (n_pops c) \<longrightarrow> score_at js s r \<noteq> NaN"
  shows "ga_loop c gen s rep = fail (Fatal 3)
    \<or> (\<exists>s' js' rep'. ga_loop c gen s rep = ret (s', rep') \<and> full_pop c js' s'
         \<and> (\<forall>r. Suc r < unat (n_pops c) \<longrightarrow> score_at js' s' r \<le> score_at js s r))"
proof (rule ga_loop_invariant [OF assms(1-3)])
  show "\<forall>r. Suc r < unat (n_pops c) \<longrightarrow> score_at js s r \<le> score_at js s r"
    using assms(4) by (simp add: f64_le_refl)
  show "\<forall>r. Suc r < unat (n_pops c) \<longrightarrow> score_at js2 s2 r \<le> score_at js s r"
    if "full_pop c js1 s1" "\<forall>r. Suc r < unat (n_pops c) \<longrightarrow> score_at js1 s1 r \<le> score_at js s r"
      "replaced c js1 s1 js2 s2" for js1 s1 js2 s2
    using replaced_ranks [OF that(1,3)] that(2) f64_le_nan(1) f64_le_trans by blast
qed

theorem population_never_degrades_witness:
  "\<exists>js. full_pop small_conf js (small_pop 3)
    \<and> (ga_loop small_conf 1 (small_pop 3) \<lparr>n_report_intervals = 1, rep_lines = []\<rparr> = fail (Fatal 3)
       \<or> (\<exists>s' js' rep'. ga_loop small_conf 1 (small_pop 3) \<lparr>n_report_intervals = 1, rep_lines = []\<rparr> = ret (s', rep')
            \<and> full_pop small_conf js' s' \<and> score_at js' s' 1 \<le> score_at js (small_pop 3) 1))"
proof -
  obtain js where js: "full_pop small_conf js (small_pop 3)" using small_full_pop by blast
  have "js By_score ! r < 3" if "Suc r < unat (n_pops small_conf)" for r
    using that js nth_mem [of r "js By_score"] full_pop_length [OF js, of By_score]
    by (auto simp: full_pop_def pop_def)
  then have n: "\<forall>r. Suc r < unat (n_pops small_conf) \<longrightarrow> score_at js (small_pop 3) r \<noteq> NaN"
    using small_pop_scores by (simp add: score_at_def)
  have "max_gen small_conf \<noteq> - 1" by simp
  from population_never_degrades [OF small_ready this js n, of 1 "\<lparr>n_report_intervals = 1, rep_lines = []\<rparr>"] js
  show ?thesis by (intro exI [of _ js] conjI) force+
qed

end
