(* ===== verification/Gastask.thy ===== *)
theory Gastask
  imports Conf Report
begin

text \<open>
  gastask.c: the program around \<open>run_GA\<close>. The command line is what \<open>getopt\<close> makes of it: the
  options with their arguments, and the remaining words. \<open>srand\<close> is a parameter: the sequence
  that \<open>rand()\<close> returns for a seed.
\<close>

fun parse_options :: "(char \<times> string) list \<Rightarrow> int \<Rightarrow> int res" where
  "parse_options [] seed = Inr seed"
| "parse_options ((c, optarg) # opts) seed =
     (if c = CHR ''s'' then
        res_bind (sscanf [CD] optarg) (\<lambda>vs.
        case vs of [AD s] \<Rightarrow> parse_options opts s | _ \<Rightarrow> Inl (Exit 1))
      else if c = CHR ''h'' then Inl (Exit 0)
      else Inl (Exit 1))"

definition parse_args ::
  "(string \<Rightarrow> string option) \<Rightarrow> (char \<times> string) list \<Rightarrow> string list \<Rightarrow> (int \<times> conf) res" where
  "parse_args disk opts words =
     res_bind (parse_options opts 0) (\<lambda>seed.
     case words of [] \<Rightarrow> Inl (Exit 1)
     | fpath # _ \<Rightarrow> res_bind (load_conf disk fpath) (\<lambda>c. Inr (seed, c)))"

definition gastask_main ::
  "(string \<Rightarrow> string option) \<Rightarrow> (string \<Rightarrow> bool) \<Rightarrow> (int \<Rightarrow> rng) \<Rightarrow> (char \<times> string) list \<Rightarrow> string list
     \<Rightarrow> (ga \<times> report \<times> task_infos) run" where
  "gastask_main disk can_open srand opts words =
     run_bind (Some (parse_args disk opts words)) (\<lambda>(seed, c).
     run_GA can_open c (srand seed))"

section \<open>The whole program\<close>

text \<open>What a configuration needs beyond what the parsers check.\<close>

definition enough :: "conf \<Rightarrow> bool" where
  "enough c =
     (2 \<le> n_tasks c \<and> 2 \<le> n_mems c \<and> clouds c \<noteq> []
      \<and> 3 \<le> unat (n_pops c) \<and> unat (n_pops c) \<le> 16383 \<and> max_gen c \<noteq> - 1)"

lemma valid_enough_ready: "conf_valid c \<Longrightarrow> enough c \<Longrightarrow> ready c"
  by (auto simp: conf_valid_def enough_def ready_def usable_def)

lemma gastask_main_runs:
  assumes "parse_options opts 0 = Inr seed" and "load_conf disk fpath = Inr c"
  shows "gastask_main disk can_open srand opts (fpath # words) = run_GA can_open c (srand seed)"
  using assms by (simp add: gastask_main_def parse_args_def)

text \<open>C1. From the text of the configuration file to the result: if the file loads, and has at least
  two tasks, two memories, a cloud, 3 to 16383 genes and a \<open>max_gen\<close> below the largest unsigned
  number, then \<open>gastask\<close> ends, whatever else the file says: with exit code 3 or 2, or with a
  population of admitted genes whose best one is reported. The frequencies need not be asked
  for: the parser demands them before the tasks.\<close>

theorem gastask_ends:
  assumes "parse_options opts 0 = Inr seed" and "load_conf disk fpath = Inr c" and "enough c"
    and "fair (srand seed)"
  shows "gastask_main disk can_open srand opts (fpath # words) \<in> {fail (Fatal 3), fail (Fatal 2)}
    \<or> (\<exists>s rep t js. gastask_main disk can_open srand opts (fpath # words) = ret (s, rep, t)
         \<and> full_pop c js s \<and> infos_of (n_tasks c) (best js s) t)"
proof -
  have "conf_valid c"
    using assms(2) parse_conf_valid [OF _ init_conf_valid] by (auto simp: load_conf_def split: option.splits)
  then have "ready c" "max_gen c \<noteq> - 1"
    using valid_enough_ready assms(3) by (auto simp: enough_def)
  from run_GA_cases [OF this assms(4)] show ?thesis
    unfolding gastask_main_runs [OF assms(1,2)] by auto
qed

definition run_text :: string where
  "run_text = text_of [''*genetic'', ''5 4 1.5 1.5'', ''*cpufreq'', ''1 100 1'', ''*mem'',
     ''dram 1000 1 0 0'', ''nvram 1000 1 0 0'', ''*cloud'', ''mec 2 400 100 10 1'', ''*task'',
     ''10 30 200 0.5 1 1 1 0'', ''10 20 20 0.5 1 1 1 0'']"

lemma run_text_loads:
  "(case load_conf (\<lambda>_. Some run_text) ''conf'' of Inl _ \<Rightarrow> False | Inr c \<Rightarrow>
      n_tasks c = 2 \<and> n_mems c = 2 \<and> clouds c \<noteq> [] \<and> n_pops c = 4 \<and> max_gen c = 5)"
  by code_simp

lemma run_text_conf: "\<exists>c. load_conf (\<lambda>_. Some run_text) ''conf'' = Inr c \<and> enough c"
  using run_text_loads by (auto simp: enough_def split: sum.splits)

theorem gastask_ends_witness:
  "\<exists>c. load_conf (\<lambda>_. Some run_text) ''conf'' = Inr c
    \<and> (gastask_main (\<lambda>_. Some run_text) (\<lambda>_. True) (\<lambda>_. counter) [] [''conf''] \<in> {fail (Fatal 3), fail (Fatal 2)}
       \<or> (\<exists>s rep t js. gastask_main (\<lambda>_. Some run_text) (\<lambda>_. True) (\<lambda>_. counter) [] [''conf''] = ret (s, rep, t)
            \<and> full_pop c js s \<and> infos_of (n_tasks c) (best js s) t))"
proof -
  obtain c where c: "load_conf (\<lambda>_. Some run_text) ''conf'' = Inr c" "enough c"
    using run_text_conf by blast
  have "parse_options [] 0 = Inr 0" by simp
  from gastask_ends [OF this c fair_counter, of "\<lambda>_. True" "[]"] c(1) show ?thesis by blast
qed

end
