(* ===== verification/Gasgen.thy ===== *)
theory Gasgen
  imports Conf Rand
begin

text \<open>
  The generator \<open>gasgen\<close>: conf_gasgen.c, gen_task.c, gen_network.c, gen_netcommander.c and
  gasgen.c. The generated files are strings, as \<open>fprintf\<close> writes them. Where one C expression
  calls \<open>get_rand\<close> twice, the calls are made from left to right (C leaves the order open).
\<close>

section \<open>Parameters\<close>

record gen_conf =
  wcet_min :: u32
  wcet_max :: u32
  mem_total :: u32
  util_cpu :: f64
  util_target :: f64
  n_tasks_target :: u32
  task_size_min :: u32
  task_size_max :: u32
  input_size_min :: u32
  input_size_max :: u32
  output_size_min :: u32
  output_size_max :: u32
  uplink_min :: u32
  uplink_max :: u32
  downlink_min :: u32
  downlink_max :: u32
  n_networks_target :: u32
  intercept_out_min :: u32
  intercept_out_max :: u32
  intercept_in_min :: u32
  intercept_in_max :: u32
  n_net_commander_target :: u32

definition zero_gen_conf :: gen_conf where
  "zero_gen_conf = \<lparr>wcet_min = 0, wcet_max = 0, mem_total = 0, util_cpu = 0, util_target = 0,
     n_tasks_target = 0, task_size_min = 0, task_size_max = 0, input_size_min = 0,
     input_size_max = 0, output_size_min = 0, output_size_max = 0, uplink_min = 0,
     uplink_max = 0, downlink_min = 0, downlink_max = 0, n_networks_target = 0,
     intercept_out_min = 0, intercept_out_max = 0, intercept_in_min = 0,
     intercept_in_max = 0, n_net_commander_target = 0\<rparr>"

definition gentask_row :: "string \<Rightarrow> gen_conf \<Rightarrow> gen_conf res" where
  "gentask_row buf p =
     res_bind (sscanf [CU, CU, CU, CF, CF, CU, CU, CU, CU, CU, CU, CU] buf) (\<lambda>vs.
     case vs of
       [AU wmin, AU wmax, AU mem, AF ucpu, AF utarget, AU n, AU tmin, AU tmax, AU imin, AU imax,
        AU omin, AU omax] \<Rightarrow>
         let p = p\<lparr>wcet_min := wmin, wcet_max := wmax, mem_total := mem, util_cpu := ucpu,
                   util_target := utarget, n_tasks_target := n, task_size_min := tmin,
                   task_size_max := tmax, input_size_min := imin, input_size_max := imax,
                   output_size_min := omin, output_size_max := omax\<rparr>
         in if utarget < ucpu then Inl (Fatal 2) else Inr p
     | _ \<Rightarrow> Inl (Fatal 2))"

definition parse_gentask :: "FILE \<Rightarrow> gen_conf \<Rightarrow> (FILE \<times> gen_conf) res" where
  "parse_gentask = section_loop gentask_row"

definition gennetwork_row :: "string \<Rightarrow> gen_conf \<Rightarrow> gen_conf res" where
  "gennetwork_row buf p =
     res_bind (sscanf [CU, CU, CU, CU, CU] buf) (\<lambda>vs.
     case vs of
       [AU umin, AU umax, AU dmin, AU dmax, AU n] \<Rightarrow>
         Inr (p\<lparr>uplink_min := umin, uplink_max := umax, downlink_min := dmin,
                downlink_max := dmax, n_networks_target := n\<rparr>)
     | _ \<Rightarrow> Inl (Fatal 2))"

definition parse_gennetwork :: "FILE \<Rightarrow> gen_conf \<Rightarrow> (FILE \<times> gen_conf) res" where
  "parse_gennetwork = section_loop gennetwork_row"

definition gennetcommander_row :: "string \<Rightarrow> gen_conf \<Rightarrow> gen_conf res" where
  "gennetcommander_row buf p =
     res_bind (sscanf [CU, CU, CU, CU, CU] buf) (\<lambda>vs.
     case vs of
       [AU omin, AU omax, AU imin, AU imax, AU n] \<Rightarrow>
         Inr (p\<lparr>intercept_out_min := omin, intercept_out_max := omax, intercept_in_min := imin,
                intercept_in_max := imax, n_net_commander_target := n\<rparr>)
     | _ \<Rightarrow> Inl (Fatal 2))"

definition parse_gennetcommander :: "FILE \<Rightarrow> gen_conf \<Rightarrow> (FILE \<times> gen_conf) res" where
  "parse_gennetcommander = section_loop gennetcommander_row"

text \<open>\<open>parse_conf\<close> of conf_gasgen.c. Only the memories of the tables of gastask are read.\<close>

definition on_gen :: "(FILE \<times> gen_conf) res \<Rightarrow> conf \<Rightarrow> (FILE \<times> gen_conf \<times> conf) res" where
  "on_gen r c = res_bind r (\<lambda>(f, p). Inr (f, p, c))"

fun gen_parse_section :: "section_t \<Rightarrow> FILE \<Rightarrow> gen_conf \<times> conf \<Rightarrow> (FILE \<times> gen_conf \<times> conf) res" where
  "gen_parse_section SECT_MEM f (p, c) = res_bind (parse_mem f c) (\<lambda>(f, c). Inr (f, p, c))"
| "gen_parse_section SECT_GENTASK f (p, c) = on_gen (parse_gentask f p) c"
| "gen_parse_section SECT_GENNETWORK f (p, c) = on_gen (parse_gennetwork f p) c"
| "gen_parse_section SECT_GENNETCOMMANDER f (p, c) = on_gen (parse_gennetcommander f p) c"
| "gen_parse_section SECT_GENETIC f pc = skip_section f pc"
| "gen_parse_section SECT_CPUFREQ f pc = skip_section f pc"
| "gen_parse_section SECT_TASK f pc = skip_section f pc"
| "gen_parse_section SECT_OFFLOADINGRATIO f pc = skip_section f pc"
| "gen_parse_section SECT_CLOUD f pc = skip_section f pc"
| "gen_parse_section SECT_NETWORK f pc = skip_section f pc"
| "gen_parse_section SECT_NET_COMMANDER f pc = skip_section f pc"
| "gen_parse_section SECT_UNKNOWN f pc = Inl (Fatal 2)"

lemmas gen_parsers = parse_gentask_def parse_gennetwork_def parse_gennetcommander_def on_gen_def
  parse_mem_def skip_section_def

lemma gen_parse_section_pos:
  "gen_parse_section k f pc = Inr (f', pc') \<Longrightarrow> fpos f \<le> fpos f' \<and> fdata f' = fdata f"
  by (cases k; cases pc) (auto simp: gen_parsers dest: section_loop_pos)

function gen_parse_conf :: "FILE \<Rightarrow> gen_conf \<times> conf \<Rightarrow> (gen_conf \<times> conf) res" where
  "gen_parse_conf f pc =
     (case fgets 1024 f of None \<Rightarrow> Inr pc
      | Some (buf, f') \<Rightarrow>
          if starts newline buf \<or> starts (CHR ''#'') buf then gen_parse_conf f' pc
          else res_bind (gen_parse_section (check_section buf) f' pc)
                 (\<lambda>fc. gen_parse_conf (fst fc) (snd fc)))"
  by pat_completeness auto
termination
proof (relation "measure (\<lambda>(f, pc). length (fdata f) - fpos f)", goal_cases)
  case (2 f c r buf f')
  then show ?case using fgets_shrinks [of 1024 f buf f'] by simp
next
  case (3 f c r buf f' fc)
  then have g: "fgets 1024 f = Some (buf, f')"
    and p: "gen_parse_section (check_section buf) f' c = Inr (fst fc, snd fc)" by simp_all
  show ?case using fgets_shrinks [OF g] gen_parse_section_pos [OF p] by (simp add: case_prod_beta) linarith
qed simp

declare gen_parse_conf.simps [simp del]

definition gen_load_conf :: "(string \<Rightarrow> string option) \<Rightarrow> string \<Rightarrow> (gen_conf \<times> conf) res" where
  "gen_load_conf disk fpath =
     (case disk fpath of None \<Rightarrow> Inl (Fatal 1)
      | Some text \<Rightarrow> gen_parse_conf \<lparr>fdata = text, fpos = 0\<rparr> (zero_gen_conf, init_conf))"

section \<open>Tasks\<close>

definition gen_offloading_bool :: "u32 \<Rightarrow> u32 list \<Rightarrow> u32 list res" where
  "gen_offloading_bool n offloading_bool =
     for_upto (\<lambda>i bs. arr_set bs i 0) 0 (unat n) offloading_bool"

record task_gen =
  util_sum_cpu :: f64
  memreq_total :: u32
  tg_out :: string

text \<open>The line \<open>"%u %u %u %lf %u %u %u %u\n"\<close>\<close>

definition task_line :: "u32 \<Rightarrow> u32 \<Rightarrow> u32 \<Rightarrow> f64 \<Rightarrow> u32 \<Rightarrow> u32 \<Rightarrow> u32 \<Rightarrow> u32 \<Rightarrow> string" where
  "task_line wcet duration memreq ratio task_size input_size output_size offloading =
     print_u32 wcet @ CHR '' '' # print_u32 duration @ CHR '' '' # print_u32 memreq @ CHR '' ''
     # print_f64 ratio @ CHR '' '' # print_u32 task_size @ CHR '' '' # print_u32 input_size
     @ CHR '' '' # print_u32 output_size @ CHR '' '' # print_u32 offloading"

definition draw_between :: "u32 \<Rightarrow> u32 \<Rightarrow> rng \<Rightarrow> (u32 \<times> rng) res" where
  "draw_between lo hi g = res_bind (get_rand (hi - lo + 1) g) (\<lambda>(v, g). Inr (lo + v, g))"

definition draw_around :: "u32 \<Rightarrow> rng \<Rightarrow> (u32 \<times> rng) res" where
  "draw_around x g =
     res_bind (get_rand (x div 2) g) (\<lambda>(v, g).
     res_bind (get_rand (x div 2) g) (\<lambda>(w, g). Inr (x + v - w, g)))"

definition draw_ratio :: "rng \<Rightarrow> (f64 \<times> rng) res" where
  "draw_ratio g =
     res_bind (get_rand 1000 g) (\<lambda>(v, g).
     res_bind (get_rand 1000 g) (\<lambda>(w, g).
     Inr (lit (1 / 10) + of_u32 v / lit 10000 - of_u32 w / lit 10000, g)))"

definition do_gen_task ::
  "gen_conf \<Rightarrow> f64 \<Rightarrow> u32 \<Rightarrow> u32 list \<Rightarrow> nat \<Rightarrow> task_gen \<times> rng \<Rightarrow> (task_gen \<times> rng) res" where
  "do_gen_task p util_cpu_1task memreq_1task offloading_bool i = (\<lambda>(t, g).
     res_bind (draw_between (wcet_min p) (wcet_max p) g) (\<lambda>(wcet, g).
     res_bind (to_u32 (of_u32 wcet / util_cpu_1task)) (\<lambda>duration.
     res_bind (draw_around duration g) (\<lambda>(duration, g).
     res_bind (draw_around memreq_1task g) (\<lambda>(memreq, g).
     res_bind (draw_ratio g) (\<lambda>(mem_active_ratio, g).
     res_bind (draw_between (task_size_min p) (task_size_max p) g) (\<lambda>(task_size, g).
     res_bind (draw_between (input_size_min p) (input_size_max p) g) (\<lambda>(input_data_size, g).
     res_bind (draw_between (output_size_min p) (output_size_max p) g) (\<lambda>(output_data_size, g).
     res_bind (arr_get offloading_bool i) (\<lambda>offloading.
     Inr (t\<lparr>util_sum_cpu := util_sum_cpu t + of_u32 wcet / of_u32 duration,
            memreq_total := memreq_total t + memreq,
            tg_out := tg_out t @ task_line wcet duration memreq mem_active_ratio task_size
                        input_data_size output_data_size offloading @ [newline]\<rparr>, g)))))))))))"

function mem_util_loop :: "conf \<Rightarrow> nat \<Rightarrow> f64 \<Rightarrow> f64 \<Rightarrow> f64 res" where
  "mem_util_loop c i util_bymem util_mem =
     (if i < n_mems c \<and> 0 < util_bymem then
        res_bind (get_mem c i) (\<lambda>mem.
        let share = 1 / of_u32 (of_nat (n_mems c));
            util_overhead = 1 / m_wcet_scale mem - 1
        in if util_overhead < util_bymem
           then mem_util_loop c (Suc i) (util_bymem - util_overhead) (util_mem + share)
           else Inr (util_mem + share * util_bymem / util_overhead))
      else Inr util_mem)"
  by pat_completeness auto
termination
  by (relation "measure (\<lambda>(c, i, u, m). n_mems c - i)") auto

declare mem_util_loop.simps [simp del]

definition get_mem_util :: "gen_conf \<Rightarrow> conf \<Rightarrow> f64 res" where
  "get_mem_util p c =
     mem_util_loop c 1 (util_target p - util_cpu p) (1 / of_u32 (of_nat (n_mems c)))"

function overhead_loop :: "conf \<Rightarrow> u32 \<Rightarrow> nat \<Rightarrow> u32 \<Rightarrow> f64 \<Rightarrow> f64 res" where
  "overhead_loop c per_type i mem_used util_overhead =
     (if i < n_mems c then
        res_bind (get_mem c i) (\<lambda>mem.
        let overhead = 1 / m_wcet_scale mem - 1
        in if mem_used < per_type
           then Inr (util_overhead + overhead * of_u32 mem_used / of_u32 per_type)
           else overhead_loop c per_type (Suc i) (mem_used - per_type) (util_overhead + overhead))
      else Inr util_overhead)"
  by pat_completeness auto
termination
  by (relation "measure (\<lambda>(c, k, i, u, m). n_mems c - i)") auto

declare overhead_loop.simps [simp del]

definition get_util_overhead_bymem :: "gen_conf \<Rightarrow> conf \<Rightarrow> u32 \<Rightarrow> f64 res" where
  "get_util_overhead_bymem p c mem_used =
     (if n_mems c = 0 then Inl Div_By_Zero
      else overhead_loop c (mem_total p div of_nat (n_mems c)) 0 mem_used 0)"

text \<open>\<open>gen_task\<close> yields the file and the utilization that is printed.\<close>

definition gen_task ::
  "(string \<Rightarrow> bool) \<Rightarrow> gen_conf \<Rightarrow> conf \<Rightarrow> rng \<Rightarrow> (string \<times> f64 \<times> rng) res" where
  "gen_task can_open p c g =
     (let util_cpu_1task = util_cpu p / of_u32 (n_tasks_target p) in
      res_bind (get_mem_util p c) (\<lambda>util_mem.
      let util_mem_1task = util_mem / of_u32 (n_tasks_target p) in
      res_bind (to_u32 (of_u32 (mem_total p) * util_mem_1task)) (\<lambda>memreq_1task.
      if \<not> can_open ''task_generated.txt'' then Inl (Fatal 2)
      else
        res_bind (gen_offloading_bool (n_tasks_target p) (replicate 100 0)) (\<lambda>offloading_bool.
        res_bind (for_upto (do_gen_task p util_cpu_1task memreq_1task offloading_bool) 0
                    (unat (n_tasks_target p))
                    (\<lparr>util_sum_cpu = 0, memreq_total = 0, tg_out = []\<rparr>, g)) (\<lambda>(t, g).
        res_bind (get_util_overhead_bymem p c (memreq_total t)) (\<lambda>overhead.
        Inr (tg_out t, util_sum_cpu t + overhead, g)))))))"

section \<open>Networks and commanders\<close>

definition do_gen_network :: "gen_conf \<Rightarrow> string \<times> rng \<Rightarrow> (string \<times> rng) res" where
  "do_gen_network p = (\<lambda>(out, g).
     res_bind (draw_between (uplink_min p) (uplink_max p) g) (\<lambda>(uplink, g).
     res_bind (draw_between (downlink_min p) (downlink_max p) g) (\<lambda>(downlink, g).
     Inr (out @ print_u32 uplink @ CHR '' '' # print_u32 downlink @ [newline], g))))"

definition gen_network :: "(string \<Rightarrow> bool) \<Rightarrow> gen_conf \<Rightarrow> rng \<Rightarrow> (string \<times> rng) res" where
  "gen_network can_open p g =
     (if \<not> can_open ''network_generated.txt'' then Inl (Fatal 2)
      else for_upto (\<lambda>i. do_gen_network p) 0 (unat (n_networks_target p)) ([], g))"

definition do_gen_net_commander :: "gen_conf \<Rightarrow> string \<times> rng \<Rightarrow> (string \<times> rng) res" where
  "do_gen_net_commander p = (\<lambda>(out, g).
     res_bind (draw_between (intercept_out_min p) (intercept_out_max p) g) (\<lambda>(intercept_out, g).
     res_bind (draw_between (intercept_in_min p) (intercept_in_max p) g) (\<lambda>(intercept_in, g).
     Inr (out @ print_u32 intercept_out @ CHR '' '' # print_u32 intercept_in @ [newline], g))))"

definition gen_net_commander :: "(string \<Rightarrow> bool) \<Rightarrow> gen_conf \<Rightarrow> rng \<Rightarrow> (string \<times> rng) res" where
  "gen_net_commander can_open p g =
     (if \<not> can_open ''network_commander_generated.txt'' then Inl (Fatal 2)
      else for_upto (\<lambda>i. do_gen_net_commander p) 0 (unat (n_net_commander_target p)) ([], g))"

text \<open>
  \<open>main\<close>: the command line as \<open>getopt\<close> delivers it, then the three files. No option lets the
  program go on: \<open>-h\<close> ends it with 0, and every other one with 1, \<open>-s\<close> and \<open>-v\<close> as well.
\<close>

definition gen_parse_args ::
  "(string \<Rightarrow> string option) \<Rightarrow> (char \<times> string) list \<Rightarrow> string list \<Rightarrow> (gen_conf \<times> conf) res" where
  "gen_parse_args disk opts words =
     (case opts of
        (c, optarg) # _ \<Rightarrow> if c = CHR ''h'' then Inl (Exit 0) else Inl (Exit 1)
      | [] \<Rightarrow> (case words of [] \<Rightarrow> Inl (Exit 1) | fpath # _ \<Rightarrow> gen_load_conf disk fpath))"

definition gasgen_main ::
  "(string \<Rightarrow> string option) \<Rightarrow> (string \<Rightarrow> bool) \<Rightarrow> (char \<times> string) list \<Rightarrow> string list \<Rightarrow> rng
     \<Rightarrow> (string \<times> string \<times> string) res" where
  "gasgen_main disk can_open opts words g =
     res_bind (gen_parse_args disk opts words) (\<lambda>(p, c).
     res_bind (gen_task can_open p c g) (\<lambda>(task_txt, _, g).
     res_bind (gen_network can_open p g) (\<lambda>(network_txt, g).
     res_bind (gen_net_commander can_open p g) (\<lambda>(commander_txt, g).
     Inr (task_txt, network_txt, commander_txt)))))"

section \<open>Draws\<close>

lemma draw_between_range:
  assumes "draw_between lo hi g = Inr (x, g')" and "lo \<le> hi"
  shows "lo \<le> x \<and> x \<le> hi"
proof -
  obtain v where v: "get_rand (hi - lo + 1) g = Inr (v, g')" "x = lo + v"
    using assms(1) by (auto simp: draw_between_def)
  have "v < hi - lo + 1" by (rule get_rand_less [OF v(1)])
  then have "v \<le> hi - lo" by (metis inc_le linorder_not_le order.asym)
  moreover have "unat (hi - lo) = unat hi - unat lo" by (rule unat_sub [OF assms(2)])
  moreover have "unat lo \<le> unat hi" using assms(2) by (simp add: word_le_nat_alt)
  ultimately have le: "unat v + unat lo \<le> unat hi" by (simp add: word_le_nat_alt)
  then have "unat (lo + v) = unat lo + unat v"
    using unsigned_less [of hi, where ?'a = nat] by (simp add: unat_word_ariths)
  with le v(2) show ?thesis by (simp add: word_le_nat_alt)
qed


section \<open>Networks that are generated can be loaded\<close>

definition in_range :: "u32 \<Rightarrow> u32 \<Rightarrow> u32 \<Rightarrow> bool" where
  "in_range lo hi x = (lo \<le> hi \<longrightarrow> lo \<le> x \<and> x \<le> hi)"

lemma draw_between_in: "draw_between lo hi g = Inr (x, g') \<Longrightarrow> in_range lo hi x"
  using draw_between_range unfolding in_range_def by blast

definition pairs_in :: "u32 \<times> u32 \<Rightarrow> u32 \<times> u32 \<Rightarrow> (u32 \<times> u32) list \<Rightarrow> bool" where
  "pairs_in a b ps =
     list_all (\<lambda>p. in_range (fst a) (snd a) (fst p) \<and> in_range (fst b) (snd b) (snd p)) ps"

lemma text_of_append [simp]: "text_of (xs @ ys) = text_of xs @ text_of ys"
  by (simp add: text_of_def)

lemma gen_pairs:
  fixes f :: "nat \<Rightarrow> string \<times> rng \<Rightarrow> (string \<times> rng) res"
  assumes "for_upto f 0 n ([], g) = Inr (content, g')"
    and "\<And>j out g r. f j (out, g) = Inr r \<Longrightarrow>
           \<exists>p. fst r = out @ pair_line p @ [newline]
             \<and> in_range (fst a) (snd a) (fst p) \<and> in_range (fst b) (snd b) (snd p)"
  shows "\<exists>ps. length ps = n \<and> pairs_in a b ps \<and> content = text_of (map pair_line ps)"
proof -
  define P where "P = (\<lambda>j (r :: string \<times> rng). \<exists>ps. length ps = j \<and> pairs_in a b ps
    \<and> fst r = text_of (map pair_line ps))"
  have "P n (content, g')"
  proof (rule for_upto_partial [OF assms(1)])
    show "P 0 ([], g)" by (simp add: P_def pairs_in_def)
    fix j s s' assume "P j s" and s': "f j s = Inr s'"
    then obtain ps where ps: "length ps = j" "pairs_in a b ps" "fst s = text_of (map pair_line ps)"
      by (auto simp: P_def)
    obtain p where "fst s' = fst s @ pair_line p @ [newline]"
      "in_range (fst a) (snd a) (fst p)" "in_range (fst b) (snd b) (snd p)"
      using assms(2) [of j "fst s" "snd s" s'] s' by auto
    with ps show "P (Suc j) s'"
      unfolding P_def by (intro exI [of _ "ps @ [p]"]) (simp add: pairs_in_def)
  qed simp
  then show ?thesis by (simp add: P_def)
qed


lemma do_gen_net_commander_line:
  assumes "do_gen_net_commander p (out, g) = Inr r"
  shows "\<exists>q. fst r = out @ pair_line q @ [newline]
    \<and> in_range (intercept_out_min p) (intercept_out_max p) (fst q)
    \<and> in_range (intercept_in_min p) (intercept_in_max p) (snd q)"
proof -
  from assms obtain a b ga gb where
    "draw_between (intercept_out_min p) (intercept_out_max p) g = Inr (a, ga)"
    "draw_between (intercept_in_min p) (intercept_in_max p) ga = Inr (b, gb)"
    "fst r = out @ pair_line (a, b) @ [newline]"
    by (auto simp: do_gen_net_commander_def pair_line_def)
  then show ?thesis by (intro exI [of _ "(a, b)"]) (auto dest: draw_between_in)
qed


lemma gen_net_commander_text:
  assumes "gen_net_commander can_open p g = Inr (content, g')"
  shows "\<exists>ps. length ps = unat (n_net_commander_target p)
    \<and> pairs_in (intercept_out_min p, intercept_out_max p) (intercept_in_min p, intercept_in_max p) ps
    \<and> content = text_of (map pair_line ps)"
  using assms gen_pairs [of "\<lambda>i. do_gen_net_commander p" _ g content g' "(intercept_out_min p, intercept_out_max p)"
      "(intercept_in_min p, intercept_in_max p)"] do_gen_net_commander_line
  by (simp add: gen_net_commander_def split: if_splits)

section \<open>Tasks that are generated can be loaded\<close>

















text \<open>The array of flags has 100 elements whatever the number of tasks is.\<close>

lemma gen_offloading_bool_overflow:
  assumes "length bs < unat n"
  shows "gen_offloading_bool n bs = Inl Out_Of_Bounds"
proof -
  have "if \<forall>j. 0 \<le> j \<longrightarrow> j < unat n \<longrightarrow> j < length bs
    then \<exists>s'. gen_offloading_bool n bs = Inr s' \<and> length s' = length bs
    else gen_offloading_bool n bs = Inl Out_Of_Bounds"
    unfolding gen_offloading_bool_def
    by (rule for_upto_either [where P = "\<lambda>_ s. length s = length bs"]) (auto simp: arr_set_def)
  then show ?thesis using assms by (auto split: if_splits)
qed

section \<open>Properties\<close>





definition demo_gen :: gen_conf where
  "demo_gen = zero_gen_conf\<lparr>wcet_min := 10, wcet_max := 10, mem_total := 100, util_cpu := lit (1 / 2),
     util_target := lit (1 / 2), n_tasks_target := 1, uplink_max := 5, n_networks_target := 3\<rparr>"





text \<open>More than 100 tasks cannot be generated: the flags are written past the end of their
  array of 100.\<close>

theorem gen_task_overflow:
  assumes "100 < n_tasks_target p" and "can_open ''task_generated.txt''"
    and "get_mem_util p c = Inr um"
    and "to_u32 (of_u32 (mem_total p) * (um / of_u32 (n_tasks_target p))) = Inr k"
  shows "gen_task can_open p c g = Inl Out_Of_Bounds"
proof -
  have "length (replicate 100 (0 :: u32)) < unat (n_tasks_target p)"
    using assms(1) by (simp add: word_less_nat_alt)
  then have "gen_offloading_bool (n_tasks_target p) (replicate 100 0) = Inl Out_Of_Bounds"
    by (rule gen_offloading_bool_overflow)
  then show ?thesis using assms(2-4) by (simp add: gen_task_def Let_def)
qed

lemma overflow_conversions:
  "(case get_mem_util (demo_gen\<lparr>n_tasks_target := 101\<rparr>) (init_conf\<lparr>mems := [zero_mem]\<rparr>) of
      Inl _ \<Rightarrow> False
    | Inr um \<Rightarrow> (case to_u32 (of_u32 100 * (um / of_u32 101)) of Inl _ \<Rightarrow> False | Inr _ \<Rightarrow> True))"
  by code_simp

theorem gen_task_overflow_witness:
  "gen_task (\<lambda>_. True) (demo_gen\<lparr>n_tasks_target := 101\<rparr>) (init_conf\<lparr>mems := [zero_mem]\<rparr>) (\<lambda>_. 0)
    = Inl Out_Of_Bounds"
proof -
  obtain um k where "get_mem_util (demo_gen\<lparr>n_tasks_target := 101\<rparr>) (init_conf\<lparr>mems := [zero_mem]\<rparr>) = Inr um"
    "to_u32 (of_u32 100 * (um / of_u32 101)) = Inr k"
    using overflow_conversions by (auto split: sum.splits)
  then show ?thesis by (intro gen_task_overflow [of _ _ _ um k]) (simp_all add: demo_gen_def)
qed

end
