(* ===== verification/Output.thy ===== *)
theory Output
  imports Report Conf
begin

text \<open>
  What gastask writes, as text: the lines of report.txt, the file task.txt that is the input of a
  simulator, and the summary of the best gene on the standard output. The numbers are those of
  Report; \<open>%lf\<close> and \<open>%.6lf\<close> both round to six decimals.
\<close>

section \<open>report.txt\<close>

definition report_head :: string where
  "report_head = ''# generation fit_min fit_avg fit_max pen_min pen_avg pen_max cost_score_min cost_score_avg cost_score_max util_min util_avg util_max''"

definition report_numbers :: "report_line \<Rightarrow> f64 list" where
  "report_numbers l = [rl_fit_min l, rl_fit_avg l, rl_fit_max l, rl_penalty_min l, rl_penalty_avg l, rl_penalty_max l,
     rl_cost_min l, rl_cost_avg l, rl_cost_max l, rl_util_min l, rl_util_avg l, rl_util_max l]"

definition spaced :: "f64 list \<Rightarrow> string" where
  "spaced xs = concat (map (\<lambda>x. CHR '' '' # print_f64 x) xs)"

definition report_row :: "report_line \<Rightarrow> string" where
  "report_row l = print_u32 (rl_gen l) @ spaced (report_numbers l)"

definition report_text :: "report \<Rightarrow> string" where
  "report_text rep = text_of (report_head # map report_row (rep_lines rep))"

section \<open>task.txt\<close>

definition task_head :: string where
  "task_head = ''# mem_idx cpufreq_idx cloud_idx offloadingratio_idx''"

definition task_row_text :: "u32 \<times> u32 \<times> u32 \<times> u32 \<Rightarrow> string" where
  "task_row_text = (\<lambda>(m, f, cl, r).
     print_u32 m @ CHR '' '' # print_u32 f @ CHR '' '' # print_u32 cl @ CHR '' '' # print_u32 r)"

definition task_text :: "task_infos \<Rightarrow> string" where
  "task_text t = text_of (task_head # map task_row_text (ti_rows t))"

section \<open>The summary\<close>

definition print_i32 :: "int \<Rightarrow> string" where
  "print_i32 i = (if i < 0 then CHR ''-'' # show_num (- i) else show_num i)"

definition tab :: char where "tab = CHR 0x09"

fun tabbed :: "string list \<Rightarrow> string" where
  "tabbed [] = []"
| "tabbed [x] = x"
| "tabbed (x # xs) = x @ tab # tabbed xs"

definition summary_text :: "conf \<Rightarrow> task_infos \<Rightarrow> string" where
  "summary_text c t =
     (let gene = ti_gene t in text_of
       [''power: '' @ print_f64 (g_power gene) @ '' util: '' @ print_f64 (g_util gene),
        ''cpu power: '' @ print_f64 (g_cpu_power gene) @ '' memory power: '' @ print_f64 (g_mem_power gene)
          @ '' network power: '' @ print_f64 (g_power_netcom gene),
        ''offloading ratio: '' @ print_f64 (of_i32 (ti_n_offloading t) / of_u32 (of_nat (n_tasks c))),
        ''cpu frequency: '',
        tabbed [''1'', ''0.564'', ''0.327'', ''0.25'', ''0.182''] @ '' '',
        tabbed (map print_i32 (ti_cpufreqs t)) @ '' '',
        ''period violation: '' @ print_u32 (g_period_violation gene),
        ''score (cost): '' @ print_f64 (g_total_cost gene),
        ''cpu_memory elec cost: '' @ print_f64 (g_cost_cpu_memory gene),
        ''network elec cost: '' @ print_f64 (g_cost_network gene),
        ''base elec cost: '' @ print_f64 (g_cost_base gene),
        ''hw base cost: '' @ print_f64 (g_cost_hw gene),
        ''mec rental cost: '' @ print_f64 (g_cost_rent gene)])"

section \<open>Reading back\<close>

lemma sscanf_spaced:
  assumes "\<forall>x\<in>set xs. wf64 x" and "stops (\<lambda>x. x \<notin> {CHR '' '', newline}) r" and "r \<noteq> []"
  shows "sscanf (replicate (length xs) CF) (spaced xs @ r) = Inr (map (AF \<circ> reread) xs)"
  using assms(1)
proof (induction xs)
  case Nil
  then show ?case by (simp add: sscanf_Nil)
next
  case (Cons x xs)
  obtain y s where y: "spaced xs @ r = y # s" "y \<in> {CHR '' '', newline}"
    using assms(2,3) by (cases xs; cases r) (auto simp: spaced_def stops_def)
  have "spaced (x # xs) = CHR '' '' # print_f64 x @ spaced xs" by (simp add: spaced_def)
  with Cons y sscanf_f64_before [of x y "replicate (length xs) CF" s] show ?case
    by (simp add: sscanf_space)
qed

lemma report_row_reads_back:
  assumes "\<forall>x\<in>set (report_numbers l). wf64 x"
  shows "sscanf (CU # replicate 12 CF) (report_row l @ newline # r)
    = Inr (AU (rl_gen l) # map (AF \<circ> reread) (report_numbers l))"
proof -
  have "stops isdigit (spaced (report_numbers l) @ newline # r)"
    by (simp add: report_numbers_def spaced_def)
  moreover have "length (report_numbers l) = 12" by (simp add: report_numbers_def)
  moreover have "stops (\<lambda>x. x \<notin> {CHR '' '', newline}) (newline # r)" by (simp add: stops_def)
  ultimately show ?thesis
    using sscanf_spaced [OF assms, of "newline # r"] by (simp add: report_row_def sscanf_u32)
qed

lemma task_row_reads_back:
  "sscanf [CU, CU, CU, CU] (task_row_text (m, f, cl, r) @ newline # s) = Inr [AU m, AU f, AU cl, AU r]"
  by (simp add: task_row_text_def sscanf_u32 sscanf_space sscanf_Nil)

section \<open>Properties\<close>

text \<open>C40. The file task.txt of a finished run is a comment and one line for every task, and reading
  the four numbers of the \<open>i\<close>-th line gives back the memory, the frequency, the cloud and the
  offloading ratio that the best gene chooses for task \<open>i\<close>; nothing is lost or swapped.\<close>

theorem task_text_reads_back:
  assumes "usable c" and "full_pop c js s" and "n_pops c \<noteq> 0" and "save_task_infos can_open c s = Inr t"
  shows "\<exists>rows. task_text t = text_of (task_head # rows) \<and> length rows = n_tasks c
    \<and> (\<forall>i<n_tasks c. sscanf [CU, CU, CU, CU] (rows ! i @ [newline])
         = Inr [AU (u32_of_u8 (mem_of (best js s) i)), AU (u32_of_u8 (freq_of (best js s) i)),
                AU (u32_of_u8 (cloud_of (best js s) i)), AU (u32_of_u8 (ratio_of (best js s) i))])"
proof (intro exI conjI allI impI)
  have infos: "infos_of (n_tasks c) (best js s) t"
    using save_task_infos_ok [OF assms(1-3), of can_open] assms(4) by auto
  show "task_text t = text_of (task_head # map task_row_text (ti_rows t))" by (simp add: task_text_def)
  show "length (map task_row_text (ti_rows t)) = n_tasks c" using infos by (simp add: infos_of_def)
  fix i assume "i < n_tasks c"
  with infos show "sscanf [CU, CU, CU, CU] (map task_row_text (ti_rows t) ! i @ [newline])
         = Inr [AU (u32_of_u8 (mem_of (best js s) i)), AU (u32_of_u8 (freq_of (best js s) i)),
                AU (u32_of_u8 (cloud_of (best js s) i)), AU (u32_of_u8 (ratio_of (best js s) i))]"
    by (simp add: infos_of_def task_row_reads_back)
qed

lemma small_infos:
  assumes "full_pop small_conf js (small_pop 3)"
  shows "\<exists>t. save_task_infos (\<lambda>_. True) small_conf (small_pop 3) = Inr t"
proof -
  have "n_pops small_conf \<noteq> 0" by simp
  with small_best_util [OF assms] show ?thesis using save_task_infos_ok [OF small_conf_usable assms, of "\<lambda>_. True"] by auto
qed

theorem task_text_reads_back_witness:
  "\<exists>t rows. save_task_infos (\<lambda>_. True) small_conf (small_pop 3) = Inr t
     \<and> task_text t = text_of (task_head # rows) \<and> length rows = 2"
proof -
  obtain js where js: "full_pop small_conf js (small_pop 3)" using small_full_pop by blast
  obtain t where t: "save_task_infos (\<lambda>_. True) small_conf (small_pop 3) = Inr t" using small_infos [OF js] by blast
  have "n_pops small_conf \<noteq> 0" by simp
  from task_text_reads_back [OF small_conf_usable js this t] t show ?thesis by auto
qed

end
