(* ===== verification/Transmit.thy ===== *)
theory Transmit
  imports Prelude
begin

text \<open>
  secure_sgx/transmit.c: messages with a length in front, over a stream socket. A connection is
  the bytes that are still to come, the bytes that were sent, and what the kernel will do: one
  number per call, not positive if \<open>read\<close> or \<open>write\<close> fails (or the peer has closed), and otherwise
  the number of bytes it is willing to move. So every chunking of the stream is covered. \<open>rx\<close> is
  all that the peer will ever send, and behind its end a read fails: a \<open>conn\<close> is the view of a
  stream that is closed some day, and nothing is proved from it about a peer that falls silent
  with the connection open. Such waiting is a step that is not enabled in Interleaving.
\<close>

type_synonym bytes = "u8 list"

record conn =
  rx :: bytes
  tx :: bytes
  rx_plan :: "nat \<Rightarrow> int"
  tx_plan :: "nat \<Rightarrow> int"

section \<open>System calls\<close>

text \<open>\<open>read(fd, p, n)\<close>: the bytes that were read; none stands for a result that is not positive.\<close>

definition sys_read :: "nat \<Rightarrow> conn \<Rightarrow> bytes \<times> conn" where
  "sys_read n c =
     (let k = min n (nat (rx_plan c 0))
      in (take k (rx c), c\<lparr>rx := drop k (rx c), rx_plan := \<lambda>i. rx_plan c (Suc i)\<rparr>))"

text \<open>\<open>write(fd, bs, length bs)\<close>: how many bytes were taken.\<close>

definition sys_write :: "bytes \<Rightarrow> conn \<Rightarrow> nat \<times> conn" where
  "sys_write bs c =
     (let k = min (length bs) (nat (tx_plan c 0))
      in (k, c\<lparr>tx := tx c @ take k bs, tx_plan := \<lambda>i. tx_plan c (Suc i)\<rparr>))"

section \<open>transmit.c\<close>

text \<open>An \<open>int\<close> in memory, least significant byte first.\<close>

definition le_bytes :: "u32 \<Rightarrow> bytes" where
  "le_bytes w = map (\<lambda>i. word_of_int (uint w div 256 ^ i)) [0, 1, 2, 3]"

definition of_le :: "bytes \<Rightarrow> u32" where
  "of_le bs = word_of_int (foldr (\<lambda>b a. uint b + 256 * a) bs 0)"

text \<open>The loop around \<open>write\<close>, with the bytes that are left.\<close>

function send_loop :: "bytes \<Rightarrow> conn \<Rightarrow> conn res" where
  "send_loop bs c =
     (if bs = [] then Inr c
      else case sys_write bs c of (sent, c) \<Rightarrow>
        if sent = 0 then Inl (Exit 3) else send_loop (drop sent bs) c)"
  by pat_completeness auto
termination
  by (relation "measure (\<lambda>(bs, c). length bs)") auto

declare send_loop.simps [simp del]

text \<open>
  The length goes out as the low 32 bits of \<open>len\<close>. The buffer may be longer than \<open>len\<close>; beyond
  its end there is nothing to send.
\<close>

definition send_len_data :: "bytes \<Rightarrow> int \<Rightarrow> conn \<Rightarrow> conn res" where
  "send_len_data data len c =
     res_bind (send_loop (le_bytes (word_of_int len)) c) (\<lambda>c.
     if len \<le> 0 then Inr c
     else if int (length data) < len then Inl Out_Of_Bounds
     else send_loop (take (nat len) data) c)"

text \<open>
  The loop around \<open>read\<close>, with the bytes got so far: \<open>n\<close> are wanted, \<open>cap\<close> is what the buffer
  holds. Nothing in the code compares the two.
\<close>

function recv_loop :: "nat \<Rightarrow> nat \<Rightarrow> bytes \<Rightarrow> conn \<Rightarrow> (bytes \<times> conn) res" where
  "recv_loop cap n got c =
     (if length got < n then
        case sys_read (n - length got) c of (bs, c) \<Rightarrow>
          if bs = [] then Inl (Exit 3)
          else if cap < length (got @ bs) then Inl Out_Of_Bounds
          else recv_loop cap n (got @ bs) c
      else Inr (got, c))"
  by pat_completeness auto
termination
proof (relation "measure (\<lambda>(cap, n, got, c). n - length got)")
  fix cap n :: nat and got bs :: bytes and c c1 :: conn
  assume "length got < n" and "bs \<noteq> []"
  then show "((cap, n, got @ bs, c1), cap, n, got, c) \<in> measure (\<lambda>(cap, n, got, c). n - length got)"
    by (cases bs) auto
qed auto

declare recv_loop.simps [simp del]

text \<open>The received bytes and the size that is stored in \<open>*psize\<close>, a signed number.\<close>

definition recv_len_data :: "nat \<Rightarrow> conn \<Rightarrow> (bytes \<times> int \<times> conn) res" where
  "recv_len_data cap c =
     res_bind (recv_loop 4 4 [] c) (\<lambda>(hdr, c).
     let len = sint (of_le hdr) in
     res_bind (recv_loop cap (nat len) [] c) (\<lambda>(data, c).
     Inr (data, len, c)))"

section \<open>Lengths\<close>

lemma le_bytes_length [simp]: "length (le_bytes w) = 4"
  by (simp add: le_bytes_def)

lemma base_256:
  fixes x :: int
  assumes "0 \<le> x" and "x < 4294967296"
  shows "x mod 256 + 256 * (x div 256 mod 256 + 256 * (x div 65536 mod 256
       + 256 * (x div 16777216 mod 256))) = x"
proof -
  let ?y = "x div 256" and ?z = "x div 65536" and ?u = "x div 16777216"
  have step: "y mod 256 + 256 * (y div 256) = y" for y :: int by simp
  have "?z = ?y div 256" "?u = ?z div 256" by (simp_all add: zdiv_zmult2_eq [symmetric])
  moreover have "?u mod 256 = ?u" using assms by (intro mod_pos_pos_trivial) auto
  ultimately show ?thesis using step [of x] step [of ?y] step [of ?z] by simp
qed

lemma of_le_bytes [simp]: "of_le (le_bytes w) = w"
proof -
  let ?b = "\<lambda>x. word_of_int x :: u8"
  have b: "uint (?b x) = x mod 256" for x
    by (simp add: unsigned_of_int take_bit_eq_mod)
  have "le_bytes w = [?b (uint w), ?b (uint w div 256), ?b (uint w div 65536), ?b (uint w div 16777216)]"
    by (simp add: le_bytes_def)
  then have "foldr (\<lambda>b a. uint b + 256 * a) (le_bytes w) 0
      = uint w mod 256 + 256 * (uint w div 256 mod 256 + 256 * (uint w div 65536 mod 256
       + 256 * (uint w div 16777216 mod 256)))"
    by (simp only: foldr_Cons foldr_Nil o_apply id_apply b mult_zero_right add_0_right)
  also have "\<dots> = uint w"
    using uint_lt2p [of w] by (intro base_256) simp_all
  finally show ?thesis by (simp only: of_le_def word_of_int_uint)
qed

text \<open>A message on the wire.\<close>

definition frame :: "bytes \<Rightarrow> bytes" where
  "frame data = le_bytes (of_nat (length data)) @ data"

abbreviation frames :: "bytes list \<Rightarrow> bytes" where
  "frames ms \<equiv> concat (map frame ms)"

lemma sint_small: "n < 2 ^ 31 \<Longrightarrow> sint (of_nat n :: u32) = int n"
  by (simp add: sint_uint unsigned_of_nat take_bit_nat_eq_self signed_take_bit_int_eq_self)

section \<open>The loops\<close>

definition writable :: "conn \<Rightarrow> bool" where
  "writable c \<longleftrightarrow> (\<forall>i. 0 < tx_plan c i)"

definition readable :: "conn \<Rightarrow> bool" where
  "readable c \<longleftrightarrow> (\<forall>i. 0 < rx_plan c i)"

lemma send_loop_all:
  "writable c \<Longrightarrow> \<exists>p. (\<forall>i. 0 < p i) \<and> send_loop bs c = Inr (c\<lparr>tx := tx c @ bs, tx_plan := p\<rparr>)"
proof (induction bs c rule: send_loop.induct)
  case (1 bs c)
  show ?case
  proof (cases "bs = []")
    case True
    with "1.prems" show ?thesis
      by (intro exI [of _ "tx_plan c"]) (simp add: send_loop.simps writable_def)
  next
    case False
    define k where "k = min (length bs) (nat (tx_plan c 0))"
    define c1 where "c1 = c\<lparr>tx := tx c @ take k bs, tx_plan := \<lambda>i. tx_plan c (Suc i)\<rparr>"
    have k: "0 < k" using False "1.prems" by (simp add: k_def writable_def)
    have w: "sys_write bs c = (k, c1)" by (simp add: sys_write_def k_def c1_def Let_def)
    have "writable c1" using "1.prems" by (simp add: writable_def c1_def)
    from "1.IH" [OF False w [symmetric] _ this] k obtain p where
      "\<forall>i. 0 < p i" "send_loop (drop k bs) c1 = Inr (c1\<lparr>tx := tx c1 @ drop k bs, tx_plan := p\<rparr>)"
      by auto
    then show ?thesis using False w k
      by (intro exI [of _ p]) (simp add: send_loop.simps [of bs c] c1_def)
  qed
qed

lemma recv_loop_all:
  "readable c \<Longrightarrow> rx c = xs @ rest \<Longrightarrow> length got + length xs = n \<Longrightarrow> n \<le> cap \<Longrightarrow>
   \<exists>p. (\<forall>i. 0 < p i) \<and> recv_loop cap n got c = Inr (got @ xs, c\<lparr>rx := rest, rx_plan := p\<rparr>)"
proof (induction cap n got c arbitrary: xs rule: recv_loop.induct)
  case (1 cap n got c)
  show ?case
  proof (cases "xs = []")
    case True
    with "1.prems" show ?thesis
      by (intro exI [of _ "rx_plan c"]) (simp add: recv_loop.simps readable_def)
  next
    case False
    define k where "k = min (n - length got) (nat (rx_plan c 0))"
    define c1 where "c1 = c\<lparr>rx := drop k (rx c), rx_plan := \<lambda>i. rx_plan c (Suc i)\<rparr>"
    have k: "0 < k" "k \<le> length xs" using False "1.prems" by (auto simp: k_def readable_def)
    have r: "sys_read (n - length got) c = (take k xs, c1)"
      using k "1.prems" by (simp add: sys_read_def k_def [symmetric] c1_def)
    have lt: "length got < n" using "1.prems" False by (cases xs) auto
    have ne: "take k xs \<noteq> []" using k False by simp
    have fits: "\<not> cap < length (got @ take k xs)" using "1.prems" k by simp
    have "readable c1" "rx c1 = drop k xs @ rest"
      using "1.prems" k by (simp_all add: readable_def c1_def)
    from "1.IH" [OF lt r [symmetric] ne fits this] "1.prems" k obtain p where
      "\<forall>i. 0 < p i"
      "recv_loop cap n (got @ take k xs) c1 = Inr (got @ xs, c1\<lparr>rx := rest, rx_plan := p\<rparr>)"
      by auto
    then show ?thesis using lt r ne fits
      by (intro exI [of _ p]) (simp add: recv_loop.simps [of cap n got c] c1_def)
  qed
qed

lemma sys_read_split:
  "sys_read n c = (bs, c') \<Longrightarrow> rx c = bs @ rx c' \<and> tx c' = tx c \<and> length bs \<le> n"
  by (auto simp: sys_read_def Let_def)

text \<open>Whatever is received is the front of the stream, in the buffer.\<close>

lemma recv_loop_front:
  "recv_loop cap n got c = Inr (data, c') \<Longrightarrow> length got \<le> n \<Longrightarrow> length got \<le> cap \<Longrightarrow>
   \<exists>xs. data = got @ xs \<and> rx c = xs @ rx c' \<and> tx c' = tx c \<and> length data = n \<and> n \<le> cap"
proof (induction cap n got c rule: recv_loop.induct)
  case (1 cap n got c)
  show ?case
  proof (cases "length got < n")
    case False
    with "1.prems" show ?thesis by (simp add: recv_loop.simps)
  next
    case lt: True
    obtain bs c1 where r: "sys_read (n - length got) c = (bs, c1)" by (cases "sys_read (n - length got) c")
    note sp = sys_read_split [OF r]
    have ne: "bs \<noteq> []" and fits: "\<not> cap < length (got @ bs)"
      and rec: "recv_loop cap n (got @ bs) c1 = Inr (data, c')"
      using "1.prems"(1) lt r by (auto simp: recv_loop.simps [of cap n got c] split: if_splits)
    have "length (got @ bs) \<le> n" "length (got @ bs) \<le> cap" using sp lt fits by auto
    from "1.IH" [OF lt r [symmetric] ne fits rec this] sp show ?thesis by auto
  qed
qed

lemma recv_loop_short:
  "length got + length (rx c) < n \<Longrightarrow> n \<le> cap \<Longrightarrow> recv_loop cap n got c = Inl (Exit 3)"
proof (induction cap n got c rule: recv_loop.induct)
  case (1 cap n got c)
  have lt: "length got < n" using "1.prems" by simp
  obtain bs c1 where r: "sys_read (n - length got) c = (bs, c1)" by (cases "sys_read (n - length got) c")
  note sp = sys_read_split [OF r]
  show ?case
  proof (cases "bs = []")
    case True
    with lt r show ?thesis by (simp add: recv_loop.simps)
  next
    case False
    have "\<not> cap < length (got @ bs)" using sp lt "1.prems" by simp
    from "1.IH" [OF lt r [symmetric] False this] sp "1.prems" this False lt r
    show ?thesis by (simp add: recv_loop.simps [of cap n got c])
  qed
qed

lemma recv_loop_error:
  "recv_loop cap n got c = Inl e \<Longrightarrow> length got \<le> n \<Longrightarrow> n \<le> cap \<Longrightarrow> e = Exit 3"
proof (induction cap n got c rule: recv_loop.induct)
  case (1 cap n got c)
  obtain bs c1 where r: "sys_read (n - length got) c = (bs, c1)" by (cases "sys_read (n - length got) c")
  note sp = sys_read_split [OF r]
  show ?case
  proof (cases "length got < n \<and> bs \<noteq> []")
    case False
    with "1.prems" r show ?thesis by (auto simp: recv_loop.simps [of cap n got c] split: if_splits)
  next
    case True
    then have le: "length (got @ bs) \<le> n" using sp by auto
    with True "1.prems" r have "recv_loop cap n (got @ bs) c1 = Inl e" "\<not> cap < length (got @ bs)"
      by (auto simp: recv_loop.simps [of cap n got c])
    with "1.IH" [OF _ r [symmetric]] True le "1.prems"(3) show ?thesis by blast
  qed
qed

lemma sys_read_progress:
  "readable c \<Longrightarrow> 0 < n \<Longrightarrow> rx c \<noteq> [] \<Longrightarrow> sys_read n c = (bs, c') \<Longrightarrow> bs \<noteq> [] \<and> readable c'"
  by (auto simp: sys_read_def Let_def readable_def min_def split: if_splits dest: spec [of _ 0])

lemma recv_loop_overflow:
  "readable c \<Longrightarrow> length got \<le> cap \<Longrightarrow> cap < n \<Longrightarrow> n \<le> length got + length (rx c) \<Longrightarrow>
   recv_loop cap n got c = Inl Out_Of_Bounds"
proof (induction cap n got c rule: recv_loop.induct)
  case (1 cap n got c)
  have lt: "length got < n" using "1.prems" by simp
  obtain bs c1 where r: "sys_read (n - length got) c = (bs, c1)" by (cases "sys_read (n - length got) c")
  note sp = sys_read_split [OF r]
  have ne: "bs \<noteq> []" and rd: "readable c1"
    using sys_read_progress [OF "1.prems"(1) _ _ r] "1.prems" lt by fastforce+
  show ?case
  proof (cases "cap < length (got @ bs)")
    case True
    with lt r ne show ?thesis by (simp add: recv_loop.simps)
  next
    case False
    from "1.IH" [OF lt r [symmetric] ne False rd] sp "1.prems" False ne lt r
    show ?thesis by (simp add: recv_loop.simps [of cap n got c])
  qed
qed

section \<open>Messages\<close>

lemma recv_header:
  assumes "readable c" and "rx c = le_bytes w @ rest"
  shows "\<exists>p. (\<forall>i. 0 < p i) \<and> recv_loop 4 4 [] c = Inr (le_bytes w, c\<lparr>rx := rest, rx_plan := p\<rparr>)"
  using recv_loop_all [OF assms(1,2), of "[]" 4 4] by simp

lemma send_frame:
  assumes "writable c" and "length data < 2 ^ 31"
  shows "\<exists>p. (\<forall>i. 0 < p i) \<and>
         send_len_data data (int (length data)) c = Inr (c\<lparr>tx := tx c @ frame data, tx_plan := p\<rparr>)"
proof -
  from send_loop_all [OF assms(1), of "le_bytes (of_nat (length data))"] obtain p1 where
    1: "\<forall>i. 0 < p1 i" "send_loop (le_bytes (of_nat (length data))) c
        = Inr (c\<lparr>tx := tx c @ le_bytes (of_nat (length data)), tx_plan := p1\<rparr>)" (is "_ = Inr ?c1")
    by blast
  have "writable ?c1" using 1 by (simp add: writable_def)
  from send_loop_all [OF this, of data] obtain p2 where
    "\<forall>i. 0 < p2 i" "send_loop data ?c1 = Inr (?c1\<lparr>tx := tx ?c1 @ data, tx_plan := p2\<rparr>)" by blast
  with 1 show ?thesis
    by (intro exI [of _ "if data = [] then p1 else p2"])
       (simp add: send_len_data_def frame_def)
qed

lemma recv_frame:
  assumes "readable c" and "rx c = frame data @ rest" and "length data \<le> cap" and "length data < 2 ^ 31"
  shows "\<exists>p. (\<forall>i. 0 < p i) \<and>
         recv_len_data cap c = Inr (data, int (length data), c\<lparr>rx := rest, rx_plan := p\<rparr>)"
proof -
  from recv_header [of c "of_nat (length data)" "data @ rest"] assms obtain p1 where
    1: "\<forall>i. 0 < p1 i" "recv_loop 4 4 [] c
        = Inr (le_bytes (of_nat (length data)), c\<lparr>rx := data @ rest, rx_plan := p1\<rparr>)" (is "_ = Inr (_, ?c1)")
    by (auto simp: frame_def)
  have "readable ?c1" using 1 by (simp add: readable_def)
  from recv_loop_all [OF this, of data rest "[]" "length data" cap] assms obtain p2 where
    "\<forall>i. 0 < p2 i" "recv_loop cap (length data) [] ?c1 = Inr (data, ?c1\<lparr>rx := rest, rx_plan := p2\<rparr>)"
    by auto
  with 1 assms show ?thesis
    by (intro exI [of _ p2]) (simp add: recv_len_data_def Let_def sint_small)
qed

section \<open>The interface to the users of a connection\<close>

text \<open>
  What the programs rely on: a message that is sent is appended to the outgoing stream as one
  frame, a frame at the front of the incoming stream is received as it is, and the connection
  stays up.
\<close>

locale channel =
  fixes send :: "bytes \<Rightarrow> int \<Rightarrow> 'c \<Rightarrow> 'c res"
    and recv :: "nat \<Rightarrow> 'c \<Rightarrow> (bytes \<times> int \<times> 'c) res"
    and incoming outgoing :: "'c \<Rightarrow> bytes"
    and up :: "'c \<Rightarrow> bool"
  assumes send_law: "up c \<Longrightarrow> length data < 2 ^ 31 \<Longrightarrow>
      \<exists>c'. send data (int (length data)) c = Inr c' \<and> up c'
        \<and> outgoing c' = outgoing c @ frame data \<and> incoming c' = incoming c"
    and recv_law: "up c \<Longrightarrow> incoming c = frame data @ rest \<Longrightarrow> length data \<le> cap \<Longrightarrow> length data < 2 ^ 31 \<Longrightarrow>
      \<exists>c'. recv cap c = Inr (data, int (length data), c') \<and> up c'
        \<and> incoming c' = rest \<and> outgoing c' = outgoing c"
begin

text \<open>Receive on one connection, send on another: the frame moves over, unchanged.\<close>

lemma forward:
  assumes "up c" and "up d" and "incoming c = frame data @ rest" and "length data \<le> cap"
    and "length data < 2 ^ 31"
  obtains c' d' where "recv cap c = Inr (data, int (length data), c')"
    and "send data (int (length data)) d = Inr d'"
    and "up c'" and "up d'" and "incoming c' = rest" and "outgoing c' = outgoing c"
    and "incoming d' = incoming d" and "outgoing d' = outgoing d @ frame data"
  using send_law [OF assms(2,5)] recv_law [OF assms(1,3,4,5)] by blast

text \<open>A message that is sent into an empty connection can be received at its other end.\<close>

lemma delivered:
  assumes "up c" and "up d" and "length data < 2 ^ 31" and "length data \<le> cap"
    and "incoming d = outgoing c" and "outgoing c = frame data"
  obtains d' where "recv cap d = Inr (data, int (length data), d')" and "up d'" and "incoming d' = []"
    and "outgoing d' = outgoing d"
  using recv_law [OF assms(2) _ assms(4,3), of "[]"] assms(5,6) by auto

end

definition up :: "conn \<Rightarrow> bool" where
  "up c \<longleftrightarrow> readable c \<and> writable c"

interpretation tr: channel send_len_data recv_len_data rx tx up
proof
  fix c and data :: bytes assume "up c" "length data < 2 ^ 31"
  then show "\<exists>c'. send_len_data data (int (length data)) c = Inr c' \<and> up c'
      \<and> tx c' = tx c @ frame data \<and> rx c' = rx c"
    using send_frame [of c data] by (auto simp: up_def readable_def writable_def)
next
  fix c and data rest :: bytes and cap assume "up c" "rx c = frame data @ rest" "length data \<le> cap" "length data < 2 ^ 31"
  then show "\<exists>c'. recv_len_data cap c = Inr (data, int (length data), c') \<and> up c'
      \<and> rx c' = rest \<and> tx c' = tx c"
    using recv_frame [of c data rest cap] by (auto simp: up_def readable_def writable_def)
qed

lemma recv_front:
  assumes "recv_len_data cap c = Inr (data, len, c')"
  shows "\<exists>hdr. length hdr = 4 \<and> rx c = hdr @ data @ rx c' \<and> len = sint (of_le hdr)
           \<and> length data = nat len \<and> length data \<le> cap \<and> tx c' = tx c"
proof -
  from assms obtain hdr c1 where h: "recv_loop 4 4 [] c = Inr (hdr, c1)" "len = sint (of_le hdr)"
    and d: "recv_loop cap (nat len) [] c1 = Inr (data, c')"
    by (auto simp: recv_len_data_def Let_def)
  from recv_loop_front [OF h(1)] recv_loop_front [OF d] h(2) show ?thesis by auto
qed

text \<open>What lies behind the message in the buffer does not matter.\<close>

lemma send_len_data_prefix [simp]:
  "send_len_data (data @ xs) (int (length data)) = send_len_data data (int (length data))"
  by (rule ext) (simp add: send_len_data_def cong: if_cong)

lemma send_loop_rx: "send_loop bs c = Inr c' \<Longrightarrow> rx c' = rx c"
proof (induction bs c rule: send_loop.induct)
  case (1 bs c)
  obtain k c1 where w: "sys_write bs c = (k, c1)" by (cases "sys_write bs c")
  then have "rx c1 = rx c" by (auto simp: sys_write_def Let_def)
  with w "1.prems" "1.IH" [OF _ w [symmetric]] show ?case
    by (auto simp: send_loop.simps [of bs c] split: if_splits)
qed

lemma send_len_data_rx: "send_len_data data len c = Inr c' \<Longrightarrow> rx c' = rx c"
  by (auto simp: send_len_data_def dest!: send_loop_rx split: if_splits)

text \<open>What a successful send has written.\<close>

lemma send_loop_tx: "send_loop bs c = Inr c' \<Longrightarrow> tx c' = tx c @ bs"
proof (induction bs c rule: send_loop.induct)
  case (1 bs c)
  obtain k c1 where w: "sys_write bs c = (k, c1)" by (cases "sys_write bs c")
  then have "tx c1 = tx c @ take k bs" by (auto simp: sys_write_def Let_def)
  with w "1.prems" "1.IH" [OF _ w [symmetric]] show ?case
    by (auto simp: send_loop.simps [of bs c] split: if_splits)
qed

lemma send_len_data_tx:
  "send_len_data data len c = Inr c' \<Longrightarrow> tx c' = tx c @ le_bytes (word_of_int len) @ take (nat len) data"
  by (auto simp: send_len_data_def dest!: send_loop_tx split: if_splits)

lemma le_bytes_of_le:
  assumes "length hdr = 4"
  shows "le_bytes (of_le hdr) = hdr"
proof -
  obtain a b c d :: u8 where h: "hdr = [a, b, c, d]"
    using assms by (auto simp: numeral_eq_Suc length_Suc_conv)
  let ?x = "uint a + 256 * (uint b + 256 * (uint c + 256 * uint d))"
  have u: "0 \<le> uint z \<and> uint z < 256" for z :: u8 using uint_lt2p [of z] by simp
  have x: "0 \<le> ?x" "?x < 2 ^ 32" using u [of a] u [of b] u [of c] u [of d] by auto
  have small: "uint (word_of_int y :: u32) = y" if "0 \<le> y" "y < 2 ^ 32" for y
    using that by (simp add: unsigned_of_int take_bit_int_eq_self)
  have "of_le hdr = word_of_int ?x"
    unfolding of_le_def h by (simp only: foldr_Cons foldr_Nil o_apply id_apply mult_zero_right add_0_right)
  then have "uint (of_le hdr) = ?x" by (simp only: small [OF x])
  moreover have "word_of_int ?x = a" "word_of_int (?x div 256) = b" "word_of_int (?x div 65536) = c"
    "word_of_int (?x div 16777216) = d"
  proof -
    have step: "(uint y + 256 * z) div 256 = z" for y :: u8 and z using u [of y] by simp
    have 1: "?x div 256 = uint b + 256 * (uint c + 256 * uint d)" by (rule step)
    have "?x div 65536 = ?x div 256 div 256" by (simp add: zdiv_zmult2_eq [symmetric])
    also have "\<dots> = uint c + 256 * uint d" unfolding 1 by (rule step)
    finally have 2: "?x div 65536 = uint c + 256 * uint d" .
    have "?x div 16777216 = ?x div 65536 div 256" by (simp add: zdiv_zmult2_eq [symmetric])
    also have "\<dots> = uint d" unfolding 2 by (rule step)
    finally have 3: "?x div 16777216 = uint d" .
    have low: "word_of_int (uint y + 256 * z) = y" for y :: u8 and z
    proof -
      have "word_of_int (uint y + 256 * z) = (word_of_int (uint y) :: u8)"
        by (simp only: word_of_int_eq_iff take_bit_eq_mod) simp
      then show ?thesis by (simp only: word_of_int_uint)
    qed
    show "word_of_int ?x = a" "word_of_int (?x div 256) = b" "word_of_int (?x div 65536) = c"
      "word_of_int (?x div 16777216) = d" unfolding 1 2 3 by (rule low word_of_int_uint)+
  qed
  ultimately show ?thesis by (simp add: le_bytes_def h)
qed

text \<open>
  A message that is received on one connection and sent on another one, with the buffer and the
  length as they were left: the bytes that leave are the bytes that were taken.
\<close>

lemma pass_on:
  assumes "recv_len_data cap c = Inr (data, len, c')" and "send_len_data (data @ xs) len d = Inr d'"
  shows "\<exists>bs. rx c = bs @ rx c' \<and> tx d' = tx d @ bs" and "tx c' = tx c" and "rx d' = rx d"
proof -
  from recv_front [OF assms(1)] obtain hdr where h: "length hdr = 4" "rx c = hdr @ data @ rx c'"
    "len = sint (of_le hdr)" "length data = nat len" "tx c' = tx c" by blast
  have "tx d' = tx d @ le_bytes (word_of_int len) @ take (nat len) (data @ xs)"
    by (rule send_len_data_tx [OF assms(2)])
  then have "tx d' = tx d @ hdr @ data" using h le_bytes_of_le [OF h(1)] by simp
  with h show "\<exists>bs. rx c = bs @ rx c' \<and> tx d' = tx d @ bs" by (intro exI [of _ "hdr @ data"]) simp
qed (use recv_front [OF assms(1)] send_len_data_rx [OF assms(2)] in auto)

text \<open>How the two functions can fail.\<close>

lemma send_loop_error: "send_loop bs c = Inl e \<Longrightarrow> e = Exit 3"
proof (induction bs c rule: send_loop.induct)
  case (1 bs c)
  obtain k c1 where w: "sys_write bs c = (k, c1)" by (cases "sys_write bs c")
  with "1.prems" "1.IH" [OF _ w [symmetric]] show ?case
    by (auto simp: send_loop.simps [of bs c] split: if_splits)
qed

lemma send_len_data_error: "send_len_data data len c = Inl e \<Longrightarrow> e \<in> {Exit 3, Out_Of_Bounds}"
  using send_loop_error by (auto simp: send_len_data_def res_bind_eq_Inl split: if_splits)

lemma recv_loop_error_any: "recv_loop cap n got c = Inl e \<Longrightarrow> e \<in> {Exit 3, Out_Of_Bounds}"
proof (induction cap n got c rule: recv_loop.induct)
  case (1 cap n got c)
  obtain bs c1 where r: "sys_read (n - length got) c = (bs, c1)" by (cases "sys_read (n - length got) c")
  with "1.prems" "1.IH" [OF _ r [symmetric]] show ?case
    by (auto simp: recv_loop.simps [of cap n got c] split: if_splits)
qed

lemma recv_len_data_error: "recv_len_data cap c = Inl e \<Longrightarrow> e \<in> {Exit 3, Out_Of_Bounds}"
  using recv_loop_error_any by (fastforce simp: recv_len_data_def Let_def res_bind_eq_Inl)

section \<open>Properties\<close>

definition wire :: "bytes \<Rightarrow> conn" where
  "wire bs = \<lparr>rx = bs, tx = [], rx_plan = \<lambda>_. 3, tx_plan = \<lambda>_. 3\<rparr>"

lemma wire_ok [simp]:
  "readable (wire bs)" "writable (wire bs)" "up (wire bs)" "rx (wire bs) = bs" "tx (wire bs) = []"
  by (simp_all add: wire_def readable_def writable_def up_def)

text \<open>C9. A message of less than 2 GB arrives as it was sent, however the two kernels cut the stream
  into pieces, and what follows it in the stream is left for the next call.\<close>

theorem message_arrives:
  assumes "writable c" and "readable d" and "length data < 2 ^ 31" and "length data \<le> cap"
    and "send_len_data data (int (length data)) c = Inr c'"
    and "rx d = drop (length (tx c)) (tx c') @ rest"
  shows "\<exists>d'. recv_len_data cap d = Inr (data, int (length data), d') \<and> rx d' = rest \<and> tx d' = tx d"
proof -
  have "tx c' = tx c @ frame data" using send_frame [OF assms(1,3)] assms(5) by auto
  then show ?thesis using recv_frame [of d data rest cap] assms by fastforce
qed

theorem message_arrives_witness:
  "\<exists>d'. recv_len_data 8 (wire (frame [7, 8, 9, 10] @ [1])) = Inr ([7, 8, 9, 10], 4, d') \<and> rx d' = [1] \<and> tx d' = []"
proof -
  obtain p where "send_len_data [7, 8, 9, 10] (int (length [7, 8, 9, 10 :: u8])) (wire [])
      = Inr (wire []\<lparr>tx := tx (wire []) @ frame [7, 8, 9, 10], tx_plan := p\<rparr>)" (is "_ = Inr ?c")
    using send_frame [of "wire []" "[7, 8, 9, 10]"] by auto
  from message_arrives [OF _ _ _ _ this, of "wire (frame [7, 8, 9, 10] @ [1])" 8 "[1]"]
  show ?thesis by simp
qed

text \<open>C21. What \<open>recv_len_data\<close> returns is the front of the stream: four bytes of length, then as
  many bytes as they say (none if the length is negative), which fit into the buffer; nothing
  beyond them is taken from the connection.
\<close>

theorem recv_len_data_sound:
  assumes "recv_len_data cap c = Inr (data, len, c')"
  shows "\<exists>hdr. length hdr = 4 \<and> rx c = hdr @ data @ rx c' \<and> len = sint (of_le hdr)
           \<and> length data = nat len \<and> length data \<le> cap \<and> tx c' = tx c"
  using assms by (rule recv_front)

theorem recv_len_data_sound_witness:
  "\<exists>d'. recv_len_data 8 (wire (frame [7, 8])) = Inr ([7, 8], 2, d') \<and> length [7, 8 :: u8] = nat 2"
proof -
  obtain d' where d: "recv_len_data 8 (wire (frame [7, 8])) = Inr ([7, 8], 2, d')"
    using recv_frame [of "wire (frame [7, 8])" "[7, 8]" "[]" 8] by auto
  from recv_len_data_sound [OF d] d show ?thesis by auto
qed

text \<open>C23. The length is not compared with the size of the buffer: a peer that announces more than
  the buffer holds, and sends it, makes \<open>recv_len_data\<close> write past the end.
\<close>

theorem long_message_overflows:
  assumes "readable c" and "rx c = frame data @ rest" and "cap < length data" and "length data < 2 ^ 31"
  shows "recv_len_data cap c = Inl Out_Of_Bounds"
proof -
  from recv_header [of c "of_nat (length data)" "data @ rest"] assms obtain p where
    1: "\<forall>i. 0 < p i" "recv_loop 4 4 [] c
        = Inr (le_bytes (of_nat (length data)), c\<lparr>rx := data @ rest, rx_plan := p\<rparr>)" (is "_ = Inr (_, ?c1)")
    by (auto simp: frame_def)
  have "readable ?c1" using 1 by (simp add: readable_def)
  from recv_loop_overflow [OF this, of "[]" cap "length data"] 1 assms show ?thesis
    by (simp add: recv_len_data_def Let_def sint_small)
qed

theorem long_message_overflows_witness:
  "recv_len_data 2 (wire (frame [1, 2, 3])) = Inl Out_Of_Bounds"
  by (rule long_message_overflows [of "wire (frame [1, 2, 3])" "[1, 2, 3]" "[]" 2]) simp_all

text \<open>C22. A stream that ends inside a message ends the program with status 3, whatever \<open>read\<close> does
  before: no shorter message is ever delivered.
\<close>

theorem truncated_message_exits:
  assumes "frame data = rx c @ missing" and "missing \<noteq> []" and "length data \<le> cap"
    and "length data < 2 ^ 31"
  shows "recv_len_data cap c = Inl (Exit 3)"
proof (cases "length (rx c) < 4")
  case True
  with recv_loop_short [of "[]" c 4 4] show ?thesis by (simp add: recv_len_data_def)
next
  case False
  show ?thesis
  proof (cases "recv_loop 4 4 [] c")
    case (Inl e)
    with recv_loop_error [of 4 4 "[]" c e] show ?thesis by (simp add: recv_len_data_def)
  next
    case (Inr r)
    then obtain hdr c1 where r: "recv_loop 4 4 [] c = Inr (hdr, c1)" by (cases r) auto
    from recv_loop_front [OF r] have "rx c = hdr @ rx c1" "length hdr = 4" by auto
    with assms(1) have h: "hdr = le_bytes (of_nat (length data))" "data = rx c1 @ missing"
      by (auto simp: frame_def append_eq_append_conv)
    have "recv_loop cap (length data) [] c1 = Inl (Exit 3)"
      using h(2) assms(2,3) by (intro recv_loop_short) auto
    with r h(1) sint_small [OF assms(4)] show ?thesis
      by (simp add: recv_len_data_def Let_def)
  qed
qed

theorem truncated_message_exits_witness:
  "recv_len_data 8 (wire (le_bytes 3 @ [1, 2])) = Inl (Exit 3)"
  by (rule truncated_message_exits [of "[1, 2, 3]" _ "[3]"]) (simp_all add: frame_def)

end
