(* ===== verification/Sockets.thy ===== *)
theory Sockets
  imports Transmit
begin

text \<open>
  Sockets as gateway.c and gateway_client.c use them: addresses, and what \<open>accept\<close> gives. The
  network is a function from addresses to connections, \<open>None\<close> where \<open>connect\<close> fails, or one of
  \<open>socket\<close>, \<open>bind\<close>, \<open>listen\<close> and \<open>accept\<close>.
\<close>

type_synonym u16 = "16 word"

text \<open>An internet address is the text that \<open>inet_addr\<close> gets.\<close>

datatype in_addr = INADDR_ANY | Inet_Addr string

datatype sockaddr =
    Sockaddr_Vm (svm_cid: u32) (svm_port: u32)
  | Sockaddr_In (sin_addr: in_addr) (sin_port: u16)

definition VMADDR_CID_ANY :: u32 where "VMADDR_CID_ANY = - 1"
definition VMADDR_CID_HOST :: u32 where "VMADDR_CID_HOST = 2"

text \<open>On a machine with the least significant byte first.\<close>

definition htons :: "u16 \<Rightarrow> u16" where
  "htons w = word_of_int (uint w mod 256 * 256 + uint w div 256)"

text \<open>
  The result of \<open>accept\<close> is not looked at: a descriptor of -1 is a connection on which every call
  fails.
\<close>

definition dead :: conn where
  "dead = \<lparr>rx = [], tx = [], rx_plan = \<lambda>_. - 1, tx_plan = \<lambda>_. - 1\<rparr>"

definition accept_on :: "(sockaddr \<Rightarrow> conn option) \<Rightarrow> sockaddr \<Rightarrow> conn" where
  "accept_on net addr = (case net addr of None \<Rightarrow> dead | Some c \<Rightarrow> c)"

text \<open>A call of \<open>connect\<close> with the second address finds a socket that listens on the first one.\<close>

fun reaches :: "sockaddr \<Rightarrow> sockaddr \<Rightarrow> bool" where
  "reaches (Sockaddr_Vm cid port) (Sockaddr_Vm cid' port') = (cid \<in> {VMADDR_CID_ANY, cid'} \<and> port = port')"
| "reaches (Sockaddr_In ip port) (Sockaddr_In ip' port') = (ip \<in> {INADDR_ANY, ip'} \<and> port = port')"
| "reaches _ _ = False"

text \<open>Nothing can be received without a connection.\<close>

lemma recv_dead: "recv_len_data cap dead = Inl (Exit 3)"
  by (simp add: recv_len_data_def dead_def sys_read_def recv_loop.simps [of 4 4 "[]"])

end
