(* ===== verification/Gateway.thy ===== *)
theory Gateway
  imports Sockets Rand
begin

text \<open>
  secure_sgx/gateway.c: the relay between the enclave and the device. Its state is the two
  connections and the static buffer with the attestation document. \<open>accept_enclave\<close> and
  \<open>accept_iiot_device\<close> start with the connection that \<open>accept\<close> gives. The buffers on the stack are only
  read as far as they were written. \<open>rounds\<close> iterates the body of the relay loop; the theorems say
  what has been sent after any number of rounds, for well-formed messages and for any streams.
\<close>

record gateway =
  to_enclave :: conn
  to_iiot :: conn
  attsdoc_buf :: bytes
  attsdoc_len :: int

section \<open>Addresses\<close>

definition VSOCK_PORT :: u16 where "VSOCK_PORT = 7000"
definition IOT_PORT :: u16 where "IOT_PORT = 8000"

definition enclave_addr :: sockaddr where
  "enclave_addr = Sockaddr_Vm VMADDR_CID_ANY (ucast (htons VSOCK_PORT))"

definition iot_addr :: sockaddr where
  "iot_addr = Sockaddr_In INADDR_ANY (htons IOT_PORT)"

section \<open>The attestation document\<close>

definition send_enclave_attsdoc :: "gateway \<Rightarrow> gateway res" where
  "send_enclave_attsdoc g =
     res_bind (send_len_data (attsdoc_buf g) (attsdoc_len g) (to_iiot g)) (\<lambda>c.
     Inr (g\<lparr>to_iiot := c\<rparr>))"

definition recv_enclave_attsdoc :: "gateway \<Rightarrow> gateway res" where
  "recv_enclave_attsdoc g =
     res_bind (recv_len_data 8192 (to_enclave g)) (\<lambda>(data, len, c).
     Inr (g\<lparr>to_enclave := c, attsdoc_buf := data @ drop (length data) (attsdoc_buf g), attsdoc_len := len\<rparr>))"

definition accept_enclave :: "conn \<Rightarrow> gateway \<Rightarrow> gateway res" where
  "accept_enclave c g = recv_enclave_attsdoc (g\<lparr>to_enclave := c\<rparr>)"

definition accept_iiot_device :: "conn \<Rightarrow> gateway \<Rightarrow> gateway res" where
  "accept_iiot_device c g = send_enclave_attsdoc (g\<lparr>to_iiot := c\<rparr>)"

section \<open>Relaying\<close>

definition relay_iiot_pubkey :: "gateway \<Rightarrow> gateway res" where
  "relay_iiot_pubkey g =
     res_bind (recv_len_data 1024 (to_iiot g)) (\<lambda>(buf, len, ci).
     res_bind (send_len_data buf len (to_enclave g)) (\<lambda>ce.
     Inr (g\<lparr>to_enclave := ce, to_iiot := ci\<rparr>)))"

text \<open>The body of the loop, in its two halves: a request to the enclave, and the response back.\<close>

definition relay_request :: "gateway \<Rightarrow> gateway res" where
  "relay_request g =
     res_bind (recv_len_data 1024 (to_iiot g)) (\<lambda>(buf, len, ci).
     res_bind (send_len_data buf len (to_enclave g)) (\<lambda>ce.
     Inr (g\<lparr>to_enclave := ce, to_iiot := ci\<rparr>)))"

definition relay_response :: "gateway \<Rightarrow> gateway res" where
  "relay_response g =
     res_bind (recv_len_data 1024 (to_enclave g)) (\<lambda>(buf, len, ce).
     res_bind (send_len_data buf len (to_iiot g)) (\<lambda>ci.
     Inr (g\<lparr>to_enclave := ce, to_iiot := ci\<rparr>)))"

definition relay_round :: "gateway \<Rightarrow> gateway res" where
  "relay_round g = res_bind (relay_request g) relay_response"

partial_function (option) do_relay_offload :: "gateway \<Rightarrow> unit run" where
  "do_relay_offload g = run_bind (Some (relay_round g)) (\<lambda>g. do_relay_offload g)"

definition no_gateway :: "gateway" where
  "no_gateway = \<lparr>to_enclave = dead, to_iiot = dead, attsdoc_buf = replicate 8192 0, attsdoc_len = 0\<rparr>"

text \<open>\<open>main\<close>, up to the loop for two connections, and as a whole for a network.\<close>

definition gateway_start :: "conn \<Rightarrow> conn \<Rightarrow> gateway res" where
  "gateway_start enclave iiot =
     res_bind (accept_enclave enclave no_gateway) (\<lambda>g.
     res_bind (accept_iiot_device iiot g) (\<lambda>g.
     relay_iiot_pubkey g))"

definition gateway_main :: "(sockaddr \<Rightarrow> conn option) \<Rightarrow> unit run" where
  "gateway_main net =
     run_bind (Some (gateway_start (accept_on net enclave_addr) (accept_on net iot_addr))) do_relay_offload"

section \<open>Rounds\<close>

text \<open>The state after the loop body has been executed \<open>n\<close> times.\<close>

fun rounds :: "nat \<Rightarrow> gateway \<Rightarrow> gateway res" where
  "rounds 0 g = Inr g"
| "rounds (Suc n) g = res_bind (relay_round g) (rounds n)"

definition both_up :: "gateway \<Rightarrow> bool" where
  "both_up g \<longleftrightarrow> up (to_enclave g) \<and> up (to_iiot g)"

lemma relay_request_ok:
  assumes "both_up g" and "rx (to_iiot g) = frame m @ rest" and "length m \<le> 1024"
  obtains g' where "relay_request g = Inr g'" "both_up g'"
    "rx (to_iiot g') = rest" "tx (to_enclave g') = tx (to_enclave g) @ frame m"
    "rx (to_enclave g') = rx (to_enclave g)" "tx (to_iiot g') = tx (to_iiot g)"
proof -
  have "up (to_iiot g)" "up (to_enclave g)" "length m < 2 ^ 31" using assms by (simp_all add: both_up_def)
  from tr.forward [OF this(1,2) assms(2,3) this(3)] obtain c d where
    "recv_len_data 1024 (to_iiot g) = Inr (m, int (length m), c)"
    "send_len_data m (int (length m)) (to_enclave g) = Inr d"
    "up c" "up d" "rx c = rest" "tx c = tx (to_iiot g)" "rx d = rx (to_enclave g)"
    "tx d = tx (to_enclave g) @ frame m" by metis
  then show thesis by (intro that [of "g\<lparr>to_enclave := d, to_iiot := c\<rparr>"]) (auto simp: relay_request_def both_up_def)
qed

lemma relay_response_ok:
  assumes "both_up g" and "rx (to_enclave g) = frame m @ rest" and "length m \<le> 1024"
  obtains g' where "relay_response g = Inr g'" "both_up g'"
    "rx (to_enclave g') = rest" "tx (to_iiot g') = tx (to_iiot g) @ frame m"
    "rx (to_iiot g') = rx (to_iiot g)" "tx (to_enclave g') = tx (to_enclave g)"
proof -
  have "up (to_iiot g)" "up (to_enclave g)" "length m < 2 ^ 31" using assms by (simp_all add: both_up_def)
  from tr.forward [OF this(2,1) assms(2,3) this(3)] obtain c d where
    "recv_len_data 1024 (to_enclave g) = Inr (m, int (length m), c)"
    "send_len_data m (int (length m)) (to_iiot g) = Inr d"
    "up c" "up d" "rx c = rest" "tx c = tx (to_enclave g)" "rx d = rx (to_iiot g)"
    "tx d = tx (to_iiot g) @ frame m" by metis
  then show thesis by (intro that [of "g\<lparr>to_enclave := c, to_iiot := d\<rparr>"]) (auto simp: relay_response_def both_up_def)
qed

lemma rounds_relay:
  assumes "both_up g" and "length reqs = length resps"
    and "rx (to_iiot g) = frames reqs @ ri" and "rx (to_enclave g) = frames resps @ re"
    and "\<forall>m\<in>set (reqs @ resps). length m \<le> 1024"
  shows "\<exists>g'. rounds (length reqs) g = Inr g' \<and> both_up g'
      \<and> rx (to_iiot g') = ri \<and> rx (to_enclave g') = re
      \<and> tx (to_enclave g') = tx (to_enclave g) @ frames reqs
      \<and> tx (to_iiot g') = tx (to_iiot g) @ frames resps"
  using assms
proof (induction reqs resps arbitrary: g rule: list_induct2')
  case (4 q qs p ps)
  from relay_request_ok [of g q "frames qs @ ri"] "4.prems" obtain g1 where
    1: "relay_request g = Inr g1" "both_up g1" "rx (to_iiot g1) = frames qs @ ri"
    "tx (to_enclave g1) = tx (to_enclave g) @ frame q"
    "rx (to_enclave g1) = rx (to_enclave g)" "tx (to_iiot g1) = tx (to_iiot g)" by auto
  from relay_response_ok [of g1 p "frames ps @ re"] 1 "4.prems" obtain g2 where
    2: "relay_response g1 = Inr g2" "both_up g2" "rx (to_enclave g2) = frames ps @ re"
    "tx (to_iiot g2) = tx (to_iiot g1) @ frame p"
    "rx (to_iiot g2) = rx (to_iiot g1)" "tx (to_enclave g2) = tx (to_enclave g1)" by auto
  from "4.IH" [of g2] 1 2 "4.prems" show ?case by (auto simp: relay_round_def)
qed auto

lemma do_relay_rounds: "rounds n g = Inr g' \<Longrightarrow> do_relay_offload g = do_relay_offload g'"
proof (induction n arbitrary: g)
  case (Suc n)
  then obtain g1 where "relay_round g = Inr g1" "rounds n g1 = Inr g'" by auto
  with Suc.IH [of g1] show ?case by (simp add: do_relay_offload.simps [of g])
qed simp

section \<open>Properties\<close>

lemma gateway_start_ok:
  assumes "up enclave" and "up iiot" and "length doc \<le> 8192" and "length key \<le> 1024"
    and "rx enclave = frame doc @ re" and "rx iiot = frame key @ ri"
  shows "\<exists>g. gateway_start enclave iiot = Inr g \<and> both_up g \<and> rx (to_enclave g) = re \<and> rx (to_iiot g) = ri
      \<and> tx (to_iiot g) = tx iiot @ frame doc \<and> tx (to_enclave g) = tx enclave @ frame key"
proof -
  have lens: "length doc < 2 ^ 31" "length key < 2 ^ 31" using assms(3,4) by simp_all
  from tr.recv_law [OF assms(1,5,3) lens(1)] obtain ce where
    ce: "recv_len_data 8192 enclave = Inr (doc, int (length doc), ce)" "up ce" "rx ce = re" "tx ce = tx enclave"
    by blast
  define g1 where "g1 = no_gateway\<lparr>to_enclave := ce, to_iiot := iiot,
      attsdoc_buf := doc @ drop (length doc) (replicate 8192 0), attsdoc_len := int (length doc)\<rparr>"
  from tr.send_law [OF assms(2) lens(1)] obtain ci where
    ci: "send_len_data doc (int (length doc)) iiot = Inr ci" "up ci" "tx ci = tx iiot @ frame doc" "rx ci = rx iiot"
    by blast
  from tr.forward [OF ci(2) ce(2) _ assms(4) lens(2), of ri] ci(4) assms(6) obtain c d where
    kd: "recv_len_data 1024 ci = Inr (key, int (length key), c)"
    "send_len_data key (int (length key)) ce = Inr d"
    "up c" "up d" "rx c = ri" "tx c = tx ci" "rx d = rx ce" "tx d = tx ce @ frame key" by metis
  show ?thesis
    using ce ci kd by (simp add: gateway_start_def accept_enclave_def recv_enclave_attsdoc_def
        accept_iiot_device_def send_enclave_attsdoc_def no_gateway_def relay_iiot_pubkey_def both_up_def)
qed

text \<open>C10. The gateway passes everything on, unchanged and in order: the attestation document and
  then the responses of the enclave to the device, the public key and then the requests of the
  device to the enclave. The streams hold one message per round; the start of the program and one
  execution of the loop body for every round then lead to the state \<open>g\<close>, in which exactly these
  bytes have been sent, and the program goes on from there.\<close>

theorem gateway_relays:
  assumes "net enclave_addr = Some enclave" and "net iot_addr = Some iiot"
    and "up enclave" and "up iiot" and "length doc \<le> 8192" and "length key \<le> 1024"
    and "length reqs = length resps" and "\<forall>m\<in>set (reqs @ resps). length m \<le> 1024"
    and "rx enclave = frame doc @ frames resps @ re" and "rx iiot = frame key @ frames reqs @ ri"
  shows "\<exists>g0 g. gateway_start (accept_on net enclave_addr) (accept_on net iot_addr) = Inr g0
      \<and> rounds (length reqs) g0 = Inr g \<and> gateway_main net = do_relay_offload g
      \<and> tx (to_iiot g) = tx iiot @ frame doc @ frames resps \<and> rx (to_enclave g) = re
      \<and> tx (to_enclave g) = tx enclave @ frame key @ frames reqs \<and> rx (to_iiot g) = ri"
proof -
  from gateway_start_ok [OF assms(3-6,9,10)] obtain g where
    g: "gateway_start enclave iiot = Inr g" "both_up g" "rx (to_enclave g) = frames resps @ re"
    "rx (to_iiot g) = frames reqs @ ri" "tx (to_iiot g) = tx iiot @ frame doc"
    "tx (to_enclave g) = tx enclave @ frame key" by blast
  from rounds_relay [OF g(2) assms(7) g(4,3) assms(8)] obtain g' where
    g': "rounds (length reqs) g = Inr g'" "rx (to_iiot g') = ri" "rx (to_enclave g') = re"
      "tx (to_enclave g') = tx (to_enclave g) @ frames reqs" "tx (to_iiot g') = tx (to_iiot g) @ frames resps"
    by blast
  from do_relay_rounds [OF g'(1)] g g' assms(1,2) show ?thesis
    by (intro exI [of _ g] exI [of _ g']) (simp add: gateway_main_def accept_on_def)
qed

definition example_net :: "sockaddr \<Rightarrow> conn option" where
  "example_net addr =
     (if addr = enclave_addr then Some (wire (frame [1, 2] @ frame [9]))
      else if addr = iot_addr then Some (wire (frame [3] @ frame [4, 5])) else None)"

lemma example_net [simp]:
  "example_net enclave_addr = Some (wire (frame [1, 2] @ frame [9]))"
  "example_net iot_addr = Some (wire (frame [3] @ frame [4, 5]))"
  by (simp_all add: example_net_def enclave_addr_def iot_addr_def)

theorem gateway_relays_witness:
  "\<exists>g0 g. gateway_start (accept_on example_net enclave_addr) (accept_on example_net iot_addr) = Inr g0
     \<and> rounds 1 g0 = Inr g
     \<and> tx (to_iiot g) = frame [1, 2] @ frame [9] \<and> tx (to_enclave g) = frame [3] @ frame [4, 5]"
  using gateway_relays [of example_net "wire (frame [1, 2] @ frame [9])" "wire (frame [3] @ frame [4, 5])"
      "[1, 2]" "[3]" "[[4, 5]]" "[[9]]" "[]" "[]"]
  by auto

text \<open>A gateway that nobody connects to ends at the first message it wants to receive.\<close>

lemma gateway_alone: "net enclave_addr = None \<Longrightarrow> gateway_main net = fail (Exit 3)"
  by (simp add: gateway_main_def gateway_start_def accept_enclave_def recv_enclave_attsdoc_def accept_on_def recv_dead)

section \<open>Any streams\<close>

text \<open>Between two states, the bytes that were taken from one side are the bytes sent to the other.\<close>

definition transparent :: "gateway \<Rightarrow> gateway \<Rightarrow> bool" where
  "transparent g g' \<longleftrightarrow>
     (\<exists>a. rx (to_enclave g) = a @ rx (to_enclave g') \<and> tx (to_iiot g') = tx (to_iiot g) @ a)
   \<and> (\<exists>b. rx (to_iiot g) = b @ rx (to_iiot g') \<and> tx (to_enclave g') = tx (to_enclave g) @ b)"

lemma transparent_refl: "transparent g g"
  by (simp add: transparent_def)

lemma transparent_trans: "transparent g g' \<Longrightarrow> transparent g' g'' \<Longrightarrow> transparent g g''"
  by (fastforce simp: transparent_def)

lemma from_iiot_transparent:
  assumes "recv_len_data cap (to_iiot g) = Inr (buf, len, ci)" and "send_len_data buf len (to_enclave g) = Inr ce"
  shows "transparent g (g\<lparr>to_enclave := ce, to_iiot := ci\<rparr>)"
  using pass_on [OF assms(1), of "[]"] assms(2) by (simp add: transparent_def)

lemma from_enclave_transparent:
  assumes "recv_len_data cap (to_enclave g) = Inr (buf, len, ce)" and "send_len_data buf len (to_iiot g) = Inr ci"
  shows "transparent g (g\<lparr>to_enclave := ce, to_iiot := ci\<rparr>)"
  using pass_on [OF assms(1), of "[]"] assms(2) by (simp add: transparent_def)

lemma relay_transparent:
  "relay_iiot_pubkey g = Inr g' \<Longrightarrow> transparent g g'"
  "relay_request g = Inr g' \<Longrightarrow> transparent g g'"
  "relay_response g = Inr g' \<Longrightarrow> transparent g g'"
  by (auto simp: relay_iiot_pubkey_def relay_request_def relay_response_def
      intro: from_iiot_transparent from_enclave_transparent)

lemma rounds_transparent: "rounds n g = Inr g' \<Longrightarrow> transparent g g'"
proof (induction n arbitrary: g)
  case (Suc n)
  then obtain g1 g2 where "relay_request g = Inr g1" "relay_response g1 = Inr g2" "rounds n g2 = Inr g'"
    by (auto simp: relay_round_def)
  with relay_transparent(2,3) Suc.IH show ?case by (blast intro: transparent_trans)
qed (simp add: transparent_refl)

lemma start_transparent:
  assumes "gateway_start enclave iiot = Inr g"
  shows "transparent (no_gateway\<lparr>to_enclave := enclave, to_iiot := iiot\<rparr>) g"
proof -
  from assms obtain doc len ce ci where r: "recv_len_data 8192 enclave = Inr (doc, len, ce)"
    and w: "send_len_data (doc @ drop (length doc) (replicate 8192 0)) len iiot = Inr ci"
    and k: "relay_iiot_pubkey (no_gateway\<lparr>to_enclave := ce, to_iiot := ci,
        attsdoc_buf := doc @ drop (length doc) (replicate 8192 0), attsdoc_len := len\<rparr>) = Inr g"
    by (auto simp: gateway_start_def accept_enclave_def recv_enclave_attsdoc_def accept_iiot_device_def
        send_enclave_attsdoc_def no_gateway_def)
  have "transparent (no_gateway\<lparr>to_enclave := enclave, to_iiot := iiot\<rparr>)
      (no_gateway\<lparr>to_enclave := ce, to_iiot := ci,
        attsdoc_buf := doc @ drop (length doc) (replicate 8192 0), attsdoc_len := len\<rparr>)"
    using pass_on [OF r w] by (simp add: transparent_def)
  then show ?thesis by (rule transparent_trans [OF _ relay_transparent(1) [OF k]])
qed

text \<open>C32. Whatever the enclave and the device send (messages of any length, also negative ones, or
  no messages at all), and whatever the kernel does: as far as the gateway gets, it has sent to the
  device exactly the bytes it has taken from the enclave, in order, and to the enclave exactly the
  bytes it has taken from the device. It adds, drops, swaps and changes nothing.\<close>

theorem gateway_is_transparent:
  assumes "gateway_start enclave iiot = Inr g0" and "rounds n g0 = Inr g"
  shows "(\<exists>a. rx enclave = a @ rx (to_enclave g) \<and> tx (to_iiot g) = tx iiot @ a)
    \<and> (\<exists>b. rx iiot = b @ rx (to_iiot g) \<and> tx (to_enclave g) = tx enclave @ b)"
  using transparent_trans [OF start_transparent [OF assms(1)] rounds_transparent [OF assms(2)]]
  by (simp add: transparent_def)

text \<open>A document, a key, and a request and a response of negative length.\<close>

definition odd_enclave :: conn where "odd_enclave = wire (frame [1, 2] @ le_bytes (- 7))"
definition odd_device :: conn where "odd_device = wire (frame [3] @ le_bytes (- 5) @ [8])"

lemma odd_run: "case gateway_start odd_enclave odd_device of Inl e \<Rightarrow> False
    | Inr g0 \<Rightarrow> (case rounds 1 g0 of Inl e \<Rightarrow> False | Inr g \<Rightarrow> rx (to_iiot g) = [8] \<and> rx (to_enclave g) = [])"
  by code_simp

theorem gateway_is_transparent_witness:
  "\<exists>g0 g. gateway_start odd_enclave odd_device = Inr g0 \<and> rounds 1 g0 = Inr g
     \<and> tx (to_iiot g) = frame [1, 2] @ le_bytes (- 7) \<and> tx (to_enclave g) = frame [3] @ le_bytes (- 5)"
proof -
  obtain g0 g where g: "gateway_start odd_enclave odd_device = Inr g0" "rounds 1 g0 = Inr g"
    "rx (to_iiot g) = [8]" "rx (to_enclave g) = []"
    using odd_run by (auto split: sum.splits)
  from gateway_is_transparent [OF g(1,2)] g show ?thesis
    by (auto simp: odd_enclave_def odd_device_def)
qed

end
