(* ===== verification/Gateway_Client.thy ===== *)
theory Gateway_Client
  imports Stdio Sockets
begin

text \<open>
  secure_sgx/gateway_client.c: what the enclave and the device do on their connection to the
  gateway. OpenSSL is a record of functions. A key is a pointer, \<open>None\<close> for NULL; the results of
  the library calls are not looked at by the code, so only their effects count: the length they
  leave and the bytes they write to the front of the output buffer.
\<close>

record 'k evp =
  enc_size :: "'k option \<Rightarrow> bytes \<Rightarrow> nat \<Rightarrow> nat"
  enc :: "'k option \<Rightarrow> bytes \<Rightarrow> nat \<Rightarrow> bytes \<times> nat"
  dec_size :: "'k option \<Rightarrow> bytes \<Rightarrow> nat \<Rightarrow> nat \<Rightarrow> nat"
  dec :: "'k option \<Rightarrow> bytes \<Rightarrow> nat \<Rightarrow> nat \<Rightarrow> bytes \<times> nat"

section \<open>Connecting, documents and keys\<close>

text \<open>\<open>net\<close> is the network. Without an IP address the gateway is on the host of the enclave.\<close>

definition GATEWAY_PORT_FOR_ENCLAVE :: u16 where "GATEWAY_PORT_FOR_ENCLAVE = 7000"
definition GATEWAY_PORT_FOR_IIOT_DEVICE :: u16 where "GATEWAY_PORT_FOR_IIOT_DEVICE = 8000"

definition gateway_addr :: "string option \<Rightarrow> sockaddr" where
  "gateway_addr gateway_ip =
     (case gateway_ip of
        None \<Rightarrow> Sockaddr_Vm VMADDR_CID_HOST (ucast (htons GATEWAY_PORT_FOR_ENCLAVE))
      | Some ip \<Rightarrow> Sockaddr_In (Inet_Addr ip) (htons GATEWAY_PORT_FOR_IIOT_DEVICE))"

definition connect_gateway :: "(sockaddr \<Rightarrow> conn option) \<Rightarrow> string option \<Rightarrow> conn res" where
  "connect_gateway net gateway_ip =
     (case net (gateway_addr gateway_ip) of None \<Rightarrow> Inl (Exit 1) | Some c \<Rightarrow> Inr c)"

definition send_attsdoc :: "bytes \<Rightarrow> conn \<Rightarrow> conn res" where
  "send_attsdoc attsdoc c = send_len_data attsdoc (int (length attsdoc)) c"

text \<open>\<open>byte_buf\<close> is what \<open>aws_byte_buf_init\<close> and \<open>aws_byte_buf_write\<close> make of the data and its length.\<close>

definition recv_attsdoc :: "(bytes \<Rightarrow> int \<Rightarrow> bytes) \<Rightarrow> conn \<Rightarrow> (bytes \<times> conn) res" where
  "recv_attsdoc byte_buf c =
     res_bind (recv_len_data 8192 c) (\<lambda>(buffer, len, c). Inr (byte_buf buffer len, c))"

definition send_iiot_pubkey :: "('k option \<Rightarrow> bytes) \<Rightarrow> 'k option \<Rightarrow> conn \<Rightarrow> conn res" where
  "send_iiot_pubkey pem_write pkey c =
     (let data = pem_write pkey in send_len_data data (int (length data)) c)"

definition recv_iiot_pubkey :: "(bytes \<Rightarrow> int \<Rightarrow> 'k option) \<Rightarrow> conn \<Rightarrow> ('k option \<times> conn) res" where
  "recv_iiot_pubkey pem_read c =
     res_bind (recv_len_data 4096 c) (\<lambda>(buf, len, c). Inr (pem_read buf len, c))"

section \<open>Encryption\<close>

text \<open>A library call writes \<open>w\<close> to the front of a buffer.\<close>

definition put_buf :: "bytes \<Rightarrow> bytes \<Rightarrow> bytes res" where
  "put_buf w buf = (if length buf < length w then Inl Out_Of_Bounds else Inr (w @ drop (length w) buf))"

text \<open>\<open>EVP_PKEY_encrypt\<close> twice: for the length alone, and into the buffer.\<close>

definition evp_encrypt :: "'k evp \<Rightarrow> 'k option \<Rightarrow> bytes \<Rightarrow> bytes \<times> nat \<Rightarrow> (bytes \<times> nat) res" where
  "evp_encrypt E key msg = (\<lambda>(buf, n).
     case enc E key msg (enc_size E key msg n) of (w, n) \<Rightarrow>
       res_bind (put_buf w buf) (\<lambda>buf. Inr (buf, n)))"

text \<open>
  The input of the decryption is a pointer and a length: with a length beyond the buffer the call
  reads outside of it, and nothing is said about what it does.
\<close>

definition evp_decrypt :: "'k evp \<Rightarrow> 'k option \<Rightarrow> bytes \<Rightarrow> nat \<Rightarrow> bytes \<times> nat \<Rightarrow> (bytes \<times> nat) res" where
  "evp_decrypt E key src len = (\<lambda>(buf, n).
     if length src < len then Inl Out_Of_Bounds
     else case dec E key src len (dec_size E key src len n) of (w, n) \<Rightarrow>
       res_bind (put_buf w buf) (\<lambda>buf. Inr (buf, n)))"

text \<open>Lengths are passed as \<open>size_t\<close> and as \<open>ssize_t\<close>.\<close>

definition to_ssize :: "nat \<Rightarrow> int" where
  "to_ssize n = sint (of_nat n :: 64 word)"

definition to_size :: "int \<Rightarrow> nat" where
  "to_size z = unat (word_of_int z :: 64 word)"

text \<open>The C string in a buffer, which needs a NUL inside it.\<close>

definition c_str :: "bytes \<Rightarrow> bytes res" where
  "c_str buf = (if 0 \<in> set buf then Inr (takeWhile (\<lambda>b. b \<noteq> 0) buf) else Inl Out_Of_Bounds)"

definition zeros :: bytes where "zeros = replicate 512 0"

section \<open>Offloading\<close>

text \<open>The two halves of \<open>request_offload\<close>; \<open>encrypted\<close> is the buffer they share.\<close>

definition request_send :: "'k evp \<Rightarrow> 'k option \<Rightarrow> bytes \<Rightarrow> conn \<Rightarrow> (bytes \<times> conn) res" where
  "request_send E pubkey_enclave data_in c =
     res_bind (evp_encrypt E pubkey_enclave data_in (zeros, 0)) (\<lambda>(encrypted, n).
     res_bind (send_len_data encrypted (to_ssize n) c) (\<lambda>c.
     Inr (encrypted, c)))"

definition request_recv :: "'k evp \<Rightarrow> 'k option \<Rightarrow> bytes \<Rightarrow> conn \<Rightarrow> (bytes \<times> conn) res" where
  "request_recv E pkey encrypted c =
     res_bind (recv_len_data 512 c) (\<lambda>(data, len, c).
     let encrypted = data @ drop (length data) encrypted in
     res_bind (evp_decrypt E pkey encrypted (to_size len) (zeros, 0)) (\<lambda>(decrypted, _).
     res_bind (c_str decrypted) (\<lambda>data_out. Inr (data_out, c))))"

definition request_offload ::
  "'k evp \<Rightarrow> 'k option \<Rightarrow> 'k option \<Rightarrow> bytes \<Rightarrow> conn \<Rightarrow> (bytes \<times> conn) res" where
  "request_offload E pkey pubkey_enclave data_in c =
     res_bind (request_send E pubkey_enclave data_in c) (\<lambda>(encrypted, c).
     request_recv E pkey encrypted c)"

text \<open>The result is what is printed as the offloaded data.\<close>

definition response_offload ::
  "'k evp \<Rightarrow> 'k option \<Rightarrow> 'k option \<Rightarrow> bytes \<Rightarrow> conn \<Rightarrow> (bytes \<times> conn) res" where
  "response_offload E pkey pubkey_iiot response_msg c =
     res_bind (recv_len_data 512 c) (\<lambda>(data, len, c).
     let encrypted = data @ drop (length data) zeros; n = to_size len in
     if n = 0 then Inl (Exit 2)
     else res_bind (evp_decrypt E pkey encrypted n (zeros, 0)) (\<lambda>(decrypted, _).
     res_bind (c_str decrypted) (\<lambda>shown.
     res_bind (evp_encrypt E pubkey_iiot response_msg (encrypted, n)) (\<lambda>(encrypted, n).
     res_bind (send_len_data encrypted (to_ssize n) c) (\<lambda>c.
     Inr (shown, c))))))"

section \<open>What is asked of the cipher\<close>

text \<open>
  What OpenSSL documents for a message that is short enough: the two calls agree on the length,
  which is that of the cipher text, and the other key gives the message back. \<open>E\<close> and \<open>D\<close> are
  the library as it is called on the two sides.
\<close>

definition opens :: "'k evp \<Rightarrow> 'k option \<Rightarrow> 'k evp \<Rightarrow> 'k option \<Rightarrow> bytes \<Rightarrow> bool" where
  "opens E pub D sk m \<longleftrightarrow>
     (\<forall>n. case enc E pub m (enc_size E pub m n) of (w, k) \<Rightarrow>
        length w = k \<and> 0 < k \<and> k \<le> 512 \<and>
        (\<forall>rest. length rest = 512 - k \<longrightarrow>
           fst (dec D sk (w @ rest) k (dec_size D sk (w @ rest) k 0)) = m))"

text \<open>A cipher text in front of a buffer of 512 bytes is opened to \<open>m\<close>.\<close>

definition decodes :: "'k evp \<Rightarrow> 'k option \<Rightarrow> bytes \<Rightarrow> bytes \<Rightarrow> bool" where
  "decodes E sk w m \<longleftrightarrow> 0 < length w \<and> length w \<le> 512 \<and>
     (\<forall>rest. length rest = 512 - length w \<longrightarrow>
        fst (dec E sk (w @ rest) (length w) (dec_size E sk (w @ rest) (length w) 0)) = m)"

lemma decodes_opens:
  "0 < length w \<Longrightarrow> length w \<le> 512 \<Longrightarrow> (\<And>rest. length rest = 512 - length w \<Longrightarrow>
     fst (dec E sk (w @ rest) (length w) (dec_size E sk (w @ rest) (length w) 0)) = m) \<Longrightarrow> decodes E sk w m"
  by (simp add: decodes_def)

lemma sizes_small:
  assumes "n \<le> 512"
  shows "to_ssize n = int n" "to_size (int n) = n"
  using assms by (simp_all add: to_ssize_def to_size_def sint_uint unsigned_of_nat take_bit_nat_eq_self
      signed_take_bit_int_eq_self unat_of_nat)

lemma to_size_eq: "to_size z = nat (z mod 2 ^ 64)"
  by (simp only: to_size_def unat_eq_nat_uint uint_word_of_int_eq take_bit_eq_mod) simp

lemma mod_pos_neg_trivial_shift: "z < 0 \<Longrightarrow> - m \<le> z \<Longrightarrow> (z :: int) mod m = z + m"
  by (metis add.commute add_uminus_conv_diff diff_ge_0_iff_ge add_less_same_cancel1 minus_add_cancel
      mod_add_self1 mod_pos_pos_trivial uminus_add_conv_diff diff_minus_eq_add)

definition message :: "bytes \<Rightarrow> bool" where
  "message m \<longleftrightarrow> length m < 512 \<and> 0 \<notin> set m"

lemma c_str_message: "message m \<Longrightarrow> c_str (m @ drop (length m) zeros) = Inr m"
  by (auto simp: message_def c_str_def zeros_def takeWhile_append takeWhile_eq_Nil_iff)

lemma evp_encrypt_opens:
  assumes "opens E pub D sk m" and "length buf = 512"
  obtains w where "evp_encrypt E pub m (buf, n) = Inr (w @ drop (length w) buf, length w)"
    and "0 < length w" and "length w \<le> 512"
    and "\<And>rest. length rest = 512 - length w \<Longrightarrow>
      fst (dec D sk (w @ rest) (length w) (dec_size D sk (w @ rest) (length w) 0)) = m"
proof -
  obtain w k where w: "enc E pub m (enc_size E pub m n) = (w, k)" by (cases "enc E pub m (enc_size E pub m n)")
  with assms(1) have "length w = k" "0 < k" "k \<le> 512"
    "\<And>rest. length rest = 512 - k \<Longrightarrow> fst (dec D sk (w @ rest) k (dec_size D sk (w @ rest) k 0)) = m"
    by (auto simp: opens_def dest: spec [of _ n])
  with w assms(2) show thesis by (intro that [of w]) (simp_all add: evp_encrypt_def put_buf_def)
qed

lemma evp_decrypt_message:
  assumes "fst (dec D sk src len (dec_size D sk src len 0)) = m" and "message m" and "len \<le> length src"
  shows "\<exists>k. evp_decrypt D sk src len (zeros, 0) = Inr (m @ drop (length m) zeros, k)"
  using assms by (cases "dec D sk src len (dec_size D sk src len 0)")
    (simp add: evp_decrypt_def put_buf_def zeros_def message_def)

lemma zeros_length [simp]: "length zeros = 512"
  by (simp add: zeros_def)

text \<open>The request: a frame with the cipher text, in a buffer that is filled up with zeros.\<close>

lemma request_send_ok:
  assumes "up c" and "opens E pub D sk m"
  obtains w c' where "request_send E pub m c = Inr (w @ drop (length w) zeros, c')"
    and "up c'" and "tx c' = tx c @ frame w" and "rx c' = rx c" and "0 < length w" and "length w \<le> 512"
    and "\<And>rest. length rest = 512 - length w \<Longrightarrow>
      fst (dec D sk (w @ rest) (length w) (dec_size D sk (w @ rest) (length w) 0)) = m"
proof -
  from evp_encrypt_opens [OF assms(2) zeros_length, of 0] obtain w where
    w: "evp_encrypt E pub m (zeros, 0) = Inr (w @ drop (length w) zeros, length w)" "0 < length w" "length w \<le> 512"
    "\<And>rest. length rest = 512 - length w \<Longrightarrow>
      fst (dec D sk (w @ rest) (length w) (dec_size D sk (w @ rest) (length w) 0)) = m" by blast
  from w(3) have "length w < 2 ^ 31" by simp
  from tr.send_law [OF assms(1) this] obtain c' where
    "send_len_data w (int (length w)) c = Inr c'" "up c'" "tx c' = tx c @ frame w" "rx c' = rx c" by blast
  with w show thesis
    by (intro that [of w c']) (simp_all add: request_send_def sizes_small send_len_data_prefix)
qed

lemma request_recv_ok:
  assumes "up c" and "rx c = frame w @ rest" and "length w \<le> 512" and "length encrypted = 512" and "message m"
    and "\<And>rest. length rest = 512 - length w \<Longrightarrow>
      fst (dec E sk (w @ rest) (length w) (dec_size E sk (w @ rest) (length w) 0)) = m"
  obtains c' where "request_recv E sk encrypted c = Inr (m, c')"
    and "up c'" and "rx c' = rest" and "tx c' = tx c"
proof -
  from assms(3) have "length w < 2 ^ 31" by simp
  from tr.recv_law [OF assms(1,2,3) this] obtain c' where
    c': "recv_len_data 512 c = Inr (w, int (length w), c')" "up c'" "rx c' = rest" "tx c' = tx c" by blast
  from evp_decrypt_message [OF assms(6,5), of "drop (length w) encrypted"] assms(3,4) obtain k where
    "evp_decrypt E sk (w @ drop (length w) encrypted) (length w) (zeros, 0) = Inr (m @ drop (length m) zeros, k)"
    by auto
  with c' assms(3) show thesis
    by (intro that [of c']) (simp_all add: request_recv_def Let_def sizes_small c_str_message [OF assms(5)])
qed

text \<open>The response: the request is read, and the answer goes out under the key of the device.\<close>

lemma response_offload_ok:
  assumes "up c" and "rx c = frame w @ rest" and "0 < length w" and "length w \<le> 512" and "message m"
    and "\<And>rest. length rest = 512 - length w \<Longrightarrow>
      fst (dec E sk (w @ rest) (length w) (dec_size E sk (w @ rest) (length w) 0)) = m"
    and "opens E pub D sk' m'"
  obtains w' c' where "response_offload E sk pub m' c = Inr (m, c')"
    and "up c'" and "rx c' = rest" and "tx c' = tx c @ frame w'" and "0 < length w'" and "length w' \<le> 512"
    and "\<And>rest. length rest = 512 - length w' \<Longrightarrow>
      fst (dec D sk' (w' @ rest) (length w') (dec_size D sk' (w' @ rest) (length w') 0)) = m'"
proof -
  let ?buf = "w @ drop (length w) zeros"
  from assms(4) have "length w < 2 ^ 31" by simp
  from tr.recv_law [OF assms(1,2,4) this] obtain c1 where
    c1: "recv_len_data 512 c = Inr (w, int (length w), c1)" "up c1" "rx c1 = rest" "tx c1 = tx c" by blast
  from evp_decrypt_message [OF assms(6,5), of "drop (length w) zeros"] assms(4) obtain k where
    d: "evp_decrypt E sk ?buf (length w) (zeros, 0) = Inr (m @ drop (length m) zeros, k)" by auto
  have "length ?buf = 512" using assms(4) by simp
  from evp_encrypt_opens [OF assms(7) this, of "length w"] obtain w' where
    w': "evp_encrypt E pub m' (?buf, length w) = Inr (w' @ drop (length w') ?buf, length w')"
    "0 < length w'" "length w' \<le> 512"
    "\<And>rest. length rest = 512 - length w' \<Longrightarrow>
      fst (dec D sk' (w' @ rest) (length w') (dec_size D sk' (w' @ rest) (length w') 0)) = m'" by blast
  from w'(3) have "length w' < 2 ^ 31" by simp
  from tr.send_law [OF c1(2) this] obtain c' where
    "send_len_data w' (int (length w')) c1 = Inr c'" "up c'" "tx c' = tx c1 @ frame w'" "rx c' = rx c1" by blast
  with c1 d w' assms(3,4) show thesis
    by (intro that [of c' w'])
       (simp_all add: response_offload_def Let_def sizes_small send_len_data_prefix c_str_message [OF assms(5)])
qed

section \<open>Properties\<close>

text \<open>The identity as a cipher, for the examples.\<close>

definition plain_evp :: "nat evp" where
  "plain_evp = \<lparr>enc_size = (\<lambda>_ m _. length m), enc = (\<lambda>_ m _. (m, length m)),
     dec_size = (\<lambda>_ _ n _. n),
     dec = (\<lambda>_ src n _. if n \<le> length src then (take n src, n) else ([], n))\<rparr>"

lemma plain_opens: "m \<noteq> [] \<Longrightarrow> length m \<le> 512 \<Longrightarrow> opens plain_evp pub plain_evp sk m"
  by (simp add: opens_def plain_evp_def)

text \<open>C36. The check of the request's length does not refuse the negative lengths it is written for: an
  empty request ends the program with status 2, but one that announces a negative length passes
  the comparison of an unsigned number with 0, and the decryption is told to read more than the
  buffer holds. This is so for every library and every key.\<close>

theorem negative_length_is_not_refused:
  assumes "up c" and "rx c = le_bytes w @ rest" and "sint w \<le> 0"
  shows "response_offload E pkey pub answer c = Inl (if w = 0 then Exit 2 else Out_Of_Bounds)"
proof -
  from recv_header [of c w rest] assms(1,2) obtain p where
    "\<forall>i. 0 < p i" "recv_loop 4 4 [] c = Inr (le_bytes w, c\<lparr>rx := rest, rx_plan := p\<rparr>)" (is "_ = Inr (_, ?c1)")
    by (auto simp: up_def)
  then have 1: "recv_len_data 512 c = Inr ([], sint w, ?c1)"
    using assms(3) by (simp add: recv_len_data_def recv_loop.simps [of _ 0])
  show ?thesis
  proof (cases "w = 0")
    case True
    with 1 show ?thesis by (simp add: response_offload_def to_size_def)
  next
    case False
    then have "sint w \<noteq> 0" by (metis signed_0 signed_word_eqI)
    with assms(3) have neg: "sint w < 0" by simp
    then have "sint w mod 2 ^ 64 = sint w + 2 ^ 64"
      using sint_greater_eq [of w] by (intro mod_pos_neg_trivial_shift) simp_all
    then have "512 < to_size (sint w)"
      using sint_greater_eq [of w] by (simp add: to_size_eq)
    with 1 False show ?thesis by (auto simp: response_offload_def evp_decrypt_def)
  qed
qed

theorem negative_length_is_not_refused_witness:
  "response_offload plain_evp (Some 1) (Some 2) [65] (wire (le_bytes (- 1) @ [7])) = Inl Out_Of_Bounds
   \<and> response_offload plain_evp (Some 1) (Some 2) [65] (wire (le_bytes 0 @ [7])) = Inl (Exit 2)"
  using negative_length_is_not_refused [of "wire (le_bytes (- 1) @ [7])" "- 1" "[7]" plain_evp "Some 1" "Some 2" "[65]"]
    negative_length_is_not_refused [of "wire (le_bytes 0 @ [7])" 0 "[7]" plain_evp "Some 1" "Some 2" "[65]"] by simp

end
