(* ===== verification/Enclave.thy ===== *)
theory Enclave
  imports Gateway_Client Rand
begin

text \<open>
  secure_sgx/enclave.c: the enclave attests its key and then answers offload requests for ever.
  The Nitro library is a parameter: the key pair it makes, and the document it returns for it.
  \<open>E n\<close> is OpenSSL as it behaves in round \<open>n\<close>, since encryption is randomised. \<open>service_rounds\<close>
  iterates the body of the loop, and \<open>enclave_serves\<close> says what it has sent after any number of rounds.
\<close>

definition bytes_of :: "string \<Rightarrow> bytes" where
  "bytes_of s = map (\<lambda>x. of_nat (of_char x)) s"

text \<open>\<open>get_attsdoc\<close>: \<open>None\<close> where \<open>aws_attestation_request\<close> reports an error.\<close>

definition get_attsdoc :: "('k \<Rightarrow> bytes option) \<Rightarrow> 'k \<Rightarrow> bytes res" where
  "get_attsdoc attest keypair =
     (case attest keypair of None \<Rightarrow> Inl (Exit 1) | Some doc \<Rightarrow> Inr doc)"

definition response_msg :: "int \<Rightarrow> bytes" where
  "response_msg n = bytes_of (''offload response: '' @ show_num n @ [newline])"

text \<open>A round: the counter \<open>n_response\<close> is an \<open>int\<close> that is stepped before it is used again.\<close>

definition service_round ::
  "(nat \<Rightarrow> 'k evp) \<Rightarrow> 'k option \<Rightarrow> 'k option \<Rightarrow> nat \<times> bytes list \<times> conn \<Rightarrow> (nat \<times> bytes list \<times> conn) res" where
  "service_round E pkey pubkey_iiot = (\<lambda>(n, shown, c).
     if n = 2 ^ 31 - 1 then Inl Signed_Overflow
     else res_bind (response_offload (E n) pkey pubkey_iiot (response_msg (int n)) c) (\<lambda>(m, c).
       Inr (Suc n, shown @ [m], c)))"

partial_function (option) service_loop ::
  "(nat \<Rightarrow> 'k evp) \<Rightarrow> 'k option \<Rightarrow> 'k option \<Rightarrow> nat \<times> bytes list \<times> conn \<Rightarrow> unit run" where
  "service_loop E pkey pubkey_iiot s =
     run_bind (Some (service_round E pkey pubkey_iiot s)) (\<lambda>s. service_loop E pkey pubkey_iiot s)"

definition run_service_offload ::
  "(bytes \<Rightarrow> int \<Rightarrow> 'k option) \<Rightarrow> (nat \<Rightarrow> 'k evp) \<Rightarrow> 'k option \<Rightarrow> conn \<Rightarrow> unit run" where
  "run_service_offload pem_read E pkey c =
     run_bind (Some (recv_iiot_pubkey pem_read c)) (\<lambda>(pubkey_iiot, c).
     service_loop E pkey pubkey_iiot (0, [], c))"

text \<open>\<open>main\<close> up to the service: the pair of keys, and the connection on which the document was sent.\<close>

definition enclave_start ::
  "'k option \<Rightarrow> (sockaddr \<Rightarrow> conn option) \<Rightarrow> ('k \<Rightarrow> bytes option) \<Rightarrow> ('k \<times> conn) res" where
  "enclave_start keypair net attest =
     (case keypair of None \<Rightarrow> Inl (Exit 1)
      | Some k \<Rightarrow>
         res_bind (connect_gateway net None) (\<lambda>c.
         res_bind (get_attsdoc attest k) (\<lambda>doc.
         res_bind (send_attsdoc doc c) (\<lambda>c. Inr (k, c)))))"

definition enclave_main ::
  "'k option \<Rightarrow> (sockaddr \<Rightarrow> conn option) \<Rightarrow> ('k \<Rightarrow> bytes option) \<Rightarrow> (bytes \<Rightarrow> int \<Rightarrow> 'k option)
     \<Rightarrow> (nat \<Rightarrow> 'k evp) \<Rightarrow> unit run" where
  "enclave_main keypair net attest pem_read E =
     run_bind (Some (enclave_start keypair net attest)) (\<lambda>(k, c).
     run_service_offload pem_read E (Some k) c)"

section \<open>Messages\<close>

lemma byte_of_char: "of_nat (of_char x) = (0 :: u8) \<longleftrightarrow> x = CHR 0x00"
proof -
  have "of_char x mod 256 < (256 :: nat)" by (rule mod_less_divisor) simp
  then have lt: "of_char x < (256 :: nat)" by simp
  have "of_nat (of_char x) = (0 :: u8) \<longleftrightarrow> 256 dvd (of_char x :: nat)" by (simp add: word_of_nat_eq_0_iff)
  also have "\<dots> \<longleftrightarrow> of_char x = (of_char (CHR 0x00) :: nat)" using lt nat_dvd_not_less [of "of_char x" 256] by (cases "of_char x = (0 :: nat)") auto
  finally show ?thesis by (simp only: of_char_eq_iff)
qed

lemma bytes_of_message: "CHR 0x00 \<notin> set s \<Longrightarrow> length s < 512 \<Longrightarrow> message (bytes_of s)"
  by (auto simp: bytes_of_def message_def byte_of_char)

lemma show_num_nonzero: "0 \<le> n \<Longrightarrow> CHR 0x00 \<notin> set (show_num n)"
  using show_num_digits [of n] by (auto simp: isdigit_def)

lemma counted_message:
  assumes "n < 2 ^ 31 - 1" and "CHR 0x00 \<notin> set s" and "length s < 100"
  shows "message (bytes_of (s @ show_num (int n) @ [newline]))"
proof (rule bytes_of_message)
  have "int n < 10 ^ 10" using assms(1) by simp
  from show_num_length [OF this] assms(3) show "length (s @ show_num (int n) @ [newline]) < 512" by simp
qed (use assms(2) show_num_nonzero [of "int n"] in \<open>auto simp: newline_def\<close>)

lemma response_message: "n < 2 ^ 31 - 1 \<Longrightarrow> message (response_msg (int n))"
  unfolding response_msg_def by (rule counted_message) simp_all

section \<open>Rounds\<close>

text \<open>The state after the loop body has been executed \<open>k\<close> times.\<close>

fun service_rounds ::
  "(nat \<Rightarrow> 'k evp) \<Rightarrow> 'k option \<Rightarrow> 'k option \<Rightarrow> nat \<Rightarrow> nat \<times> bytes list \<times> conn \<Rightarrow> (nat \<times> bytes list \<times> conn) res"
where
  "service_rounds E pkey pub 0 s = Inr s"
| "service_rounds E pkey pub (Suc k) s = res_bind (service_round E pkey pub s) (service_rounds E pkey pub k)"

lemma service_loop_rounds:
  "service_rounds E pkey pub k s = Inr s' \<Longrightarrow> service_loop E pkey pub s = service_loop E pkey pub s'"
proof (induction k arbitrary: s)
  case (Suc k)
  then obtain s1 where "service_round E pkey pub s = Inr s1" "service_rounds E pkey pub k s1 = Inr s'" by auto
  with Suc.IH [of s1] show ?case by (simp add: service_loop.simps [of E pkey pub s])
qed simp

text \<open>Request \<open>w\<close> of round \<open>n\<close> can be read as \<open>m\<close>, and the device can read the answer.\<close>

definition served_ok :: "'k evp \<Rightarrow> 'k option \<Rightarrow> 'k option \<Rightarrow> 'k evp \<Rightarrow> 'k option \<Rightarrow> bytes \<Rightarrow> bytes \<Rightarrow> nat \<Rightarrow> bool" where
  "served_ok E pkey pub D sk w m n \<longleftrightarrow>
     decodes E pkey w m \<and> message m \<and> opens E pub D sk (response_msg (int n))"

lemma service_round_ok:
  assumes "up c" and "rx c = frame w @ rest" and "served_ok (E n) pkey pub D sk w m n" and "n < 2 ^ 31 - 1"
  obtains r c' where "service_round E pkey pub (n, shown, c) = Inr (Suc n, shown @ [m], c')"
    and "up c'" and "rx c' = rest" and "tx c' = tx c @ frame r" and "decodes D sk r (response_msg (int n))"
proof -
  from assms(3) have w: "0 < length w" "length w \<le> 512" "message m" "opens (E n) pub D sk (response_msg (int n))"
    "\<And>rest. length rest = 512 - length w \<Longrightarrow>
      fst (dec (E n) pkey (w @ rest) (length w) (dec_size (E n) pkey (w @ rest) (length w) 0)) = m"
    by (auto simp: served_ok_def decodes_def)
  from response_offload_ok [OF assms(1,2) w(1-3) w(5) w(4)] obtain r c' where
    "response_offload (E n) pkey pub (response_msg (int n)) c = Inr (m, c')" "up c'" "rx c' = rest"
    "tx c' = tx c @ frame r" "decodes D sk r (response_msg (int n))"
    by (metis decodes_opens)
  with assms(4) show thesis by (intro that [of c' r]) (simp_all add: service_round_def)
qed

lemma service_rounds_ok:
  assumes "length msgs = length reqs" and "up c" and "rx c = frames reqs @ rest" and "n + length reqs < 2 ^ 31"
    and "\<forall>i<length reqs. served_ok (E (n + i)) pkey pub (D (n + i)) sk (reqs ! i) (msgs ! i) (n + i)"
  shows "\<exists>c' replies. service_rounds E pkey pub (length reqs) (n, shown, c) = Inr (n + length reqs, shown @ msgs, c')
    \<and> rx c' = rest \<and> tx c' = tx c @ frames replies \<and> length replies = length reqs
    \<and> (\<forall>i<length reqs. decodes (D (n + i)) sk (replies ! i) (response_msg (int (n + i))))"
  using assms
proof (induction msgs reqs arbitrary: n shown c rule: list_induct2)
  case Nil
  then show ?case by simp
next
  case (Cons m ms w ws)
  have ok: "served_ok (E n) pkey pub (D n) sk w m n" using Cons.prems(4) by (auto dest: spec [of _ 0])
  have "rx c = frame w @ frames ws @ rest" "n < 2 ^ 31 - 1" using Cons.prems by simp_all
  from service_round_ok [where E = E and D = "D n" and sk = sk and pub = pub and pkey = pkey and n = n and m = m
      and w = w and shown = shown, OF Cons.prems(1) this(1) ok this(2)] obtain r c1 where
    1: "service_round E pkey pub (n, shown, c) = Inr (Suc n, shown @ [m], c1)" "up c1" "rx c1 = frames ws @ rest"
      "tx c1 = tx c @ frame r" "decodes (D n) sk r (response_msg (int n))" by blast
  have "\<forall>i<length ws. served_ok (E (Suc n + i)) pkey pub (D (Suc n + i)) sk (ws ! i) (ms ! i) (Suc n + i)"
    using Cons.prems(4) by (auto dest: spec [of _ "Suc _"])
  from Cons.IH [OF 1(2,3) _ this, of "shown @ [m]"] Cons.prems(3) obtain c2 rs where
    2: "service_rounds E pkey pub (length ws) (Suc n, shown @ [m], c1)
          = Inr (Suc n + length ws, shown @ m # ms, c2)" "rx c2 = rest" "tx c2 = tx c1 @ frames rs"
      "length rs = length ws" "\<forall>i<length ws. decodes (D (Suc n + i)) sk (rs ! i) (response_msg (int (Suc n + i)))"
    by auto
  have "decodes (D (n + i)) sk ((r # rs) ! i) (response_msg (int (n + i)))" if "i < Suc (length ws)" for i
    using 1(5) 2(5) that by (cases i) auto
  with 1(1,4) 2(1-4) show ?case by (intro exI [of _ c2] exI [of _ "r # rs"]) simp
qed

section \<open>Properties\<close>

text \<open>C33. The enclave's program, for any client: it sends its attestation document, takes the public
  key it is sent, reads the \<open>i\<close>-th request with its own key, shows it, and answers with
  "offload response: i" encrypted for the device. After any number of requests it has sent exactly
  the document and one answer for each, in order, and goes on with its loop.\<close>

theorem enclave_serves:
  assumes "net (gateway_addr None) = Some c" and "up c" and "attest k = Some doc" and "length doc < 2 ^ 31"
    and "rx c = frame pem @ frames reqs @ rest" and "length pem \<le> 4096"
    and "pem_read pem (int (length pem)) = pub"
    and "length msgs = length reqs" and "length reqs < 2 ^ 31"
    and "\<forall>i<length reqs. served_ok (E i) (Some k) pub (D i) sk (reqs ! i) (msgs ! i) i"
  shows "\<exists>c1 c2 c3 replies. enclave_start (Some k) net attest = Inr (k, c1)
    \<and> recv_iiot_pubkey pem_read c1 = Inr (pub, c2)
    \<and> service_rounds E (Some k) pub (length reqs) (0, [], c2) = Inr (length reqs, msgs, c3)
    \<and> enclave_main (Some k) net attest pem_read E = service_loop E (Some k) pub (length reqs, msgs, c3)
    \<and> rx c3 = rest \<and> tx c3 = tx c @ frame doc @ frames replies \<and> length replies = length reqs
    \<and> (\<forall>i<length reqs. decodes (D i) sk (replies ! i) (response_msg (int i)))"
proof -
  from tr.send_law [OF assms(2,4)] obtain c1 where
    1: "send_len_data doc (int (length doc)) c = Inr c1" "up c1" "tx c1 = tx c @ frame doc" "rx c1 = rx c" by blast
  have "length pem < 2 ^ 31" using assms(6) by simp
  from tr.recv_law [OF 1(2) _ assms(6) this, of "frames reqs @ rest"] 1(4) assms(5) obtain c2 where
    2: "recv_len_data 4096 c1 = Inr (pem, int (length pem), c2)" "up c2" "rx c2 = frames reqs @ rest" "tx c2 = tx c1"
    by auto
  from service_rounds_ok [OF assms(8) 2(2,3), of 0 E "Some k" pub D sk "[]"] assms(9,10) obtain c3 replies where
    3: "service_rounds E (Some k) pub (length reqs) (0, [], c2) = Inr (length reqs, msgs, c3)"
      "rx c3 = rest" "tx c3 = tx c2 @ frames replies" "length replies = length reqs"
      "\<forall>i<length reqs. decodes (D i) sk (replies ! i) (response_msg (int i))"
    by auto
  have start: "enclave_start (Some k) net attest = Inr (k, c1)"
    using assms(1,3) 1(1) by (simp add: enclave_start_def connect_gateway_def get_attsdoc_def send_attsdoc_def)
  have key: "recv_iiot_pubkey pem_read c1 = Inr (pub, c2)"
    using 2(1) assms(7) by (simp add: recv_iiot_pubkey_def)
  have "enclave_main (Some k) net attest pem_read E = service_loop E (Some k) pub (length reqs, msgs, c3)"
    using start key service_loop_rounds [OF 3(1)] by (simp add: enclave_main_def run_service_offload_def)
  with start key 1 2 3 show ?thesis
    by (intro exI [of _ c1] exI [of _ c2] exI [of _ c3] exI [of _ replies]) simp
qed

theorem enclave_serves_witness:
  "\<exists>c1 c2 c3 r. enclave_start (Some (3 :: nat)) (\<lambda>_. Some (wire (frame [9] @ frame [65, 66]))) (\<lambda>_. Some [1, 2]) = Inr (3, c1)
     \<and> recv_iiot_pubkey (\<lambda>_ _. Some (4 :: nat)) c1 = Inr (Some 4, c2)
     \<and> service_rounds (\<lambda>_. plain_evp) (Some 3) (Some 4) 1 (0, [], c2) = Inr (1, [[65, 66]], c3)
     \<and> tx c3 = frame [1, 2] @ frame r \<and> decodes plain_evp (Some 5) r (response_msg 0)"
proof -
  have answer: "message (response_msg (int 0))" by (rule response_message) simp
  then have "opens plain_evp (Some 4) plain_evp (Some 5) (response_msg (int 0))"
    by (auto intro!: plain_opens simp: message_def response_msg_def bytes_of_def)
  moreover have "decodes plain_evp (Some 3) [65, 66] [65, 66]" by (simp add: decodes_def plain_evp_def)
  ultimately have "served_ok plain_evp (Some 3) (Some 4) plain_evp (Some 5) [65, 66] [65, 66] 0"
    by (simp add: served_ok_def message_def)
  then have ok: "\<forall>i<length [[65 :: u8, 66]]. served_ok plain_evp (Some 3) (Some 4) plain_evp (Some 5)
      ([[65, 66]] ! i) ([[65, 66]] ! i) i" by simp
  have "\<exists>c1 c2 c3 replies. enclave_start (Some 3) (\<lambda>_. Some (wire (frame [9] @ frame [65, 66]))) (\<lambda>_. Some [1, 2]) = Inr (3 :: nat, c1)
    \<and> recv_iiot_pubkey (\<lambda>_ _. Some (4 :: nat)) c1 = Inr (Some 4, c2)
    \<and> service_rounds (\<lambda>_. plain_evp) (Some 3) (Some 4) (length [[65 :: u8, 66]]) (0, [], c2) = Inr (length [[65 :: u8, 66]], [[65, 66]], c3)
    \<and> enclave_main (Some 3) (\<lambda>_. Some (wire (frame [9] @ frame [65, 66]))) (\<lambda>_. Some [1, 2]) (\<lambda>_ _. Some 4) (\<lambda>_. plain_evp)
        = service_loop (\<lambda>_. plain_evp) (Some 3) (Some 4) (length [[65 :: u8, 66]], [[65, 66]], c3)
    \<and> rx c3 = [] \<and> tx c3 = tx (wire (frame [9] @ frame [65, 66])) @ frame [1, 2] @ frames replies
    \<and> length replies = length [[65 :: u8, 66]]
    \<and> (\<forall>i<length [[65 :: u8, 66]]. decodes plain_evp (Some 5) (replies ! i) (response_msg (int i)))"
    by (rule enclave_serves [where k = "3 :: nat" and pem = "[9]" and rest = "[]"]) (use ok in simp_all)
  then obtain c1 c2 c3 replies where
    run: "enclave_start (Some 3) (\<lambda>_. Some (wire (frame [9] @ frame [65, 66]))) (\<lambda>_. Some [1, 2]) = Inr (3 :: nat, c1)"
      "recv_iiot_pubkey (\<lambda>_ _. Some (4 :: nat)) c1 = Inr (Some 4, c2)"
      "service_rounds (\<lambda>_. plain_evp) (Some 3) (Some 4) 1 (0, [], c2) = Inr (1, [[65, 66]], c3)"
      "tx c3 = frame [1, 2] @ frames replies" "length replies = 1"
      "decodes plain_evp (Some 5) (replies ! 0) (response_msg 0)" by auto
  from run(5) obtain r where "replies = [r]" by (auto simp: length_Suc_conv)
  with run show ?thesis by (intro exI [of _ c1] exI [of _ c2] exI [of _ c3] exI [of _ r]) simp
qed

end
