(* ===== verification/Attsdoc.thy ===== *)
theory Attsdoc
  imports Stdio Transmit
begin

text \<open>
  secure_sgx/attsdoc.c: the check of an attestation document. libcbor and OpenSSL are a record of
  functions: decoding and encoding of CBOR, certificates and keys from DER, and the steps of a
  signature verification. A CBOR item is what the accessor functions of libcbor show of it.
  Resources that are released and memory that runs out are not part of the model.
\<close>

section \<open>The libraries\<close>

datatype cbor =
    CUint "64 word"
  | CNegint "64 word"
  | CBytes bytes
  | CText string
  | CArray "cbor list"
  | CMap "(cbor \<times> cbor) list"
  | CTag cbor
  | CNull
  | COther

datatype md = SHA256 | SHA384 | SHA512
datatype key_type = EVP_PKEY_EC | EVP_PKEY_other

text \<open>
  \<open>cbor_serialize\<close> gets the size of the buffer, and \<open>None\<close> is a length of 0 or \<open>SIZE_MAX\<close>.
  \<open>verify_init\<close>, \<open>verify_update\<close> and \<open>verify_final\<close> are the \<open>EVP_DigestVerify\<close> calls on a fresh
  context: the digest, the key, the data, the signature. \<open>i2d_ECDSA_SIG\<close> of two numbers is empty
  where it reports a length that is not positive.
\<close>

record ('x, 'k) lib =
  cbor_load :: "bytes \<Rightarrow> cbor option"
  cbor_serialize :: "cbor \<Rightarrow> nat \<Rightarrow> bytes option"
  d2i_X509 :: "bytes \<Rightarrow> 'x option"
  X509_get_pubkey :: "'x \<Rightarrow> 'k option"
  EVP_PKEY_id :: "'k \<Rightarrow> key_type"
  verify_init :: "md \<Rightarrow> 'k \<Rightarrow> bool"
  verify_update :: "md \<Rightarrow> 'k \<Rightarrow> bytes \<Rightarrow> bool"
  verify_final :: "md \<Rightarrow> 'k \<Rightarrow> bytes \<Rightarrow> bytes \<Rightarrow> int"
  BN_bin2bn :: "bytes \<Rightarrow> nat"
  i2d_ECDSA_SIG :: "nat \<Rightarrow> nat \<Rightarrow> bytes"
  d2i_PUBKEY :: "bytes \<Rightarrow> 'k option"

definition or_exit2 :: "'a option \<Rightarrow> 'a res" where
  "or_exit2 x = (case x of None \<Rightarrow> Inl (Exit 2) | Some y \<Rightarrow> Inr y)"

definition must :: "bool \<Rightarrow> unit res" where
  "must b = (if b then Inr () else Inl (Exit 2))"

section \<open>COSE\_Sign1\<close>

text \<open>The four items, tagged or not.\<close>

definition cose_sign1 :: "cbor \<Rightarrow> cbor list res" where
  "cose_sign1 item =
     (case item of
        CTag (CArray xs) \<Rightarrow> if length xs = 4 then Inr xs else Inl (Exit 2)
      | CArray xs \<Rightarrow> if length xs = 4 then Inr xs else Inl (Exit 2)
      | _ \<Rightarrow> Inl (Exit 2))"

fun bytestring :: "cbor \<Rightarrow> bytes res" where
  "bytestring (CBytes bs) = Inr bs"
| "bytestring _ = Inl (Exit 2)"

definition cose_parts :: "cbor list \<Rightarrow> (bytes \<times> cbor \<times> bytes) res" where
  "cose_parts xs =
     res_bind (bytestring (xs ! 0)) (\<lambda>prot.
     res_bind (if xs ! 2 = CNull then Inr [] else bytestring (xs ! 2)) (\<lambda>_.
     res_bind (bytestring (xs ! 3)) (\<lambda>sig.
     if prot = [] then Inl (Exit 2) else Inr (prot, xs ! 2, sig))))"

text \<open>\<open>alg_id\<close>: the 64-bit value, converted to \<open>int\<close>.\<close>

definition to_int :: "64 word \<Rightarrow> int" where
  "to_int w = sint (ucast w :: u32)"

fun find_alg :: "(cbor \<times> cbor) list \<Rightarrow> int" where
  "find_alg [] = - 1"
| "find_alg ((k, v) # ps) =
     (if k = CUint 1 then
        (case v of CNegint n \<Rightarrow> to_int (- 1 - n) | CUint n \<Rightarrow> to_int n | _ \<Rightarrow> - 1)
      else find_alg ps)"

definition alg_id :: "cbor \<Rightarrow> int" where
  "alg_id ph = (case ph of CMap ps \<Rightarrow> find_alg ps | _ \<Rightarrow> - 1)"

definition md_of :: "int \<Rightarrow> md" where
  "md_of alg = (if alg = - 7 then SHA256 else if alg = - 35 then SHA384
                else if alg = - 36 then SHA512 else SHA384)"

section \<open>The attestation document\<close>

text \<open>
  The byte string of the first text key that satisfies \<open>P\<close>; the keys are compared as C strings,
  and a key whose value is of another type is passed over.
\<close>

fun find_bytes :: "(string \<Rightarrow> bool) \<Rightarrow> (cbor \<times> cbor) list \<Rightarrow> bytes option" where
  "find_bytes P [] = None"
| "find_bytes P ((k, v) # ps) =
     (case (k, v) of
        (CText s, CBytes bs) \<Rightarrow> if P (c_string s) then Some bs else find_bytes P ps
      | _ \<Rightarrow> find_bytes P ps)"

definition find_cert :: "(cbor \<times> cbor) list \<Rightarrow> bytes res" where
  "find_cert ps =
     (case find_bytes (\<lambda>s. s = ''certificate'' \<or> s = ''cert'') ps of
        None \<Rightarrow> Inl (Exit 2) | Some bs \<Rightarrow> if bs = [] then Inl (Exit 2) else Inr bs)"

definition find_pubkey :: "('x, 'k) lib \<Rightarrow> (cbor \<times> cbor) list \<Rightarrow> 'k option" where
  "find_pubkey L ps =
     (case find_bytes (\<lambda>s. s = ''public_key'') ps of None \<Rightarrow> None | Some bs \<Rightarrow> d2i_PUBKEY L bs)"

definition attsdoc_map :: "('x, 'k) lib \<Rightarrow> bytes \<Rightarrow> (cbor \<times> cbor) list res" where
  "attsdoc_map L payload =
     res_bind (or_exit2 (cbor_load L payload)) (\<lambda>item.
     case item of CMap ps \<Rightarrow> Inr ps | _ \<Rightarrow> Inl (Exit 2))"

definition signer_key :: "('x, 'k) lib \<Rightarrow> bytes \<Rightarrow> 'k res" where
  "signer_key L cert =
     res_bind (or_exit2 (d2i_X509 L cert)) (\<lambda>x. or_exit2 (X509_get_pubkey L x))"

section \<open>The signature\<close>

definition sig_structure :: "('x, 'k) lib \<Rightarrow> bytes \<Rightarrow> bytes \<Rightarrow> bytes res" where
  "sig_structure L prot payload =
     or_exit2 (cbor_serialize L
       (CArray [CText ''Signature1'', CBytes prot, CBytes [], CBytes payload])
       (length prot + length payload + 100))"

text \<open>A raw ECDSA signature, of one of the three lengths, is converted to DER.\<close>

definition der_signature :: "('x, 'k) lib \<Rightarrow> key_type \<Rightarrow> bytes \<Rightarrow> bytes res" where
  "der_signature L kt sig =
     (if kt = EVP_PKEY_EC \<and> length sig \<in> {64, 96, 132} then
        let h = length sig div 2;
            der = i2d_ECDSA_SIG L (BN_bin2bn L (take h sig)) (BN_bin2bn L (drop h sig))
        in if der = [] then Inl (Exit 2) else Inr der
      else Inr sig)"

text \<open>Another digest, if none has succeeded so far and it is not the one of the header.\<close>

definition try_md :: "('x, 'k) lib \<Rightarrow> md \<Rightarrow> 'k \<Rightarrow> bytes \<Rightarrow> bytes \<Rightarrow> md \<Rightarrow> int \<Rightarrow> int" where
  "try_md L h0 pk msg sig h r =
     (if r \<noteq> 1 \<and> h0 \<noteq> h \<and> verify_init L h pk \<and> verify_update L h pk msg
      then verify_final L h pk msg sig else r)"

text \<open>
  From \<open>EVP_DigestVerifyFinal\<close> on: the digest of the header, then the other ones. The last attempt,
  on the document itself, ends the program whatever it finds.
\<close>

definition check_signature :: "('x, 'k) lib \<Rightarrow> md \<Rightarrow> 'k \<Rightarrow> bytes \<Rightarrow> bytes \<Rightarrow> unit res" where
  "check_signature L h0 pk msg sig =
     (let r = verify_final L h0 pk msg sig;
          r = try_md L h0 pk msg sig SHA256 r;
          r = try_md L h0 pk msg sig SHA384 r;
          r = try_md L h0 pk msg sig SHA512 r
      in must (r = 1))"

definition verify :: "('x, 'k) lib \<Rightarrow> md \<Rightarrow> 'k \<Rightarrow> bytes \<Rightarrow> bytes \<Rightarrow> bytes \<Rightarrow> unit res" where
  "verify L h0 pk prot payload sig =
     res_bind (must (verify_init L h0 pk)) (\<lambda>_.
     res_bind (sig_structure L prot payload) (\<lambda>msg.
     res_bind (must (verify_update L h0 pk msg)) (\<lambda>_.
     res_bind (der_signature L (EVP_PKEY_id L pk) sig) (\<lambda>der.
     check_signature L h0 pk msg der))))"

text \<open>The key that is returned, or NULL.\<close>

definition validate_attsdoc :: "('x, 'k) lib \<Rightarrow> bytes \<Rightarrow> 'k option res" where
  "validate_attsdoc L doc =
     res_bind (or_exit2 (cbor_load L doc)) (\<lambda>item.
     res_bind (cose_sign1 item) (\<lambda>xs.
     res_bind (cose_parts xs) (\<lambda>(prot, payload_item, sig).
     res_bind (or_exit2 (cbor_load L prot)) (\<lambda>ph.
     res_bind (bytestring payload_item) (\<lambda>payload.
     res_bind (attsdoc_map L payload) (\<lambda>ps.
     res_bind (find_cert ps) (\<lambda>cert.
     res_bind (signer_key L cert) (\<lambda>pk.
     res_bind (verify L (md_of (alg_id ph)) pk prot payload sig) (\<lambda>_.
     Inr (find_pubkey L ps))))))))))"

section \<open>What the parts accept\<close>

lemma or_exit2_eq [simp]: "or_exit2 x = Inr y \<longleftrightarrow> x = Some y" "or_exit2 x = Inl e \<longleftrightarrow> x = None \<and> e = Exit 2"
  by (auto simp: or_exit2_def split: option.splits)

lemma must_eq [simp]: "must b = Inr u \<longleftrightarrow> b" "must b = Inl e \<longleftrightarrow> \<not> b \<and> e = Exit 2"
  by (auto simp: must_def)

lemma bytestring_eq [simp]: "bytestring c = Inr bs \<longleftrightarrow> c = CBytes bs"
  by (cases c) auto

lemma length_4: "length xs = 4 \<longleftrightarrow> (\<exists>a b c d. xs = [a, b, c, d])"
  by (auto simp: numeral_eq_Suc length_Suc_conv)

lemma cose_sign1_eq:
  "cose_sign1 item = Inr xs \<longleftrightarrow> length xs = 4 \<and> item \<in> {CArray xs, CTag (CArray xs)}"
  by (auto simp: cose_sign1_def split: cbor.splits if_splits)

lemma cose_parts_eq:
  "cose_parts [a, b, c, d] = Inr (prot, c', sig) \<longleftrightarrow>
   a = CBytes prot \<and> prot \<noteq> [] \<and> d = CBytes sig \<and> c' = c \<and> (c = CNull \<or> (\<exists>bs. c = CBytes bs))"
  by (auto simp: cose_parts_def split: if_splits)

definition any_digest :: "('x, 'k) lib \<Rightarrow> md \<Rightarrow> 'k \<Rightarrow> bytes \<Rightarrow> bytes \<Rightarrow> bool" where
  "any_digest L h0 pk msg sig \<longleftrightarrow> verify_init L h0 pk \<and> verify_update L h0 pk msg \<and>
     (\<exists>h. verify_init L h pk \<and> verify_update L h pk msg \<and> verify_final L h pk msg sig = 1)"

lemma ex_md: "(\<exists>h. P h) \<longleftrightarrow> P SHA256 \<or> P SHA384 \<or> P SHA512"
  by (metis md.exhaust)

lemma try_all:
  assumes "verify_init L h0 pk" and "verify_update L h0 pk msg"
  shows "try_md L h0 pk msg sig SHA512 (try_md L h0 pk msg sig SHA384 (try_md L h0 pk msg sig SHA256
           (verify_final L h0 pk msg sig))) = 1 \<longleftrightarrow>
         (\<exists>h. verify_init L h pk \<and> verify_update L h pk msg \<and> verify_final L h pk msg sig = 1)"
  using assms by (cases h0) (auto simp: ex_md try_md_def)

lemma verify_eq:
  "verify L h0 pk prot payload sig = Inr u \<longleftrightarrow>
   (\<exists>msg der. sig_structure L prot payload = Inr msg \<and> der_signature L (EVP_PKEY_id L pk) sig = Inr der
      \<and> any_digest L h0 pk msg der)"
  by (auto simp: verify_def check_signature_def any_digest_def Let_def try_all)

section \<open>Properties\<close>

text \<open>The decoded document: the protected header, the payload and the signature.\<close>

definition envelope ::
  "('x, 'k) lib \<Rightarrow> bytes \<Rightarrow> bytes \<Rightarrow> cbor \<Rightarrow> bytes \<Rightarrow> (cbor \<times> cbor) list \<Rightarrow> bytes \<Rightarrow> bool" where
  "envelope L doc prot ph payload ps sig \<longleftrightarrow>
     (\<exists>u. cbor_load L doc = Some (CArray [CBytes prot, u, CBytes payload, CBytes sig])
        \<or> cbor_load L doc = Some (CTag (CArray [CBytes prot, u, CBytes payload, CBytes sig])))
     \<and> prot \<noteq> [] \<and> cbor_load L prot = Some ph \<and> cbor_load L payload = Some (CMap ps)"

lemma attsdoc_map_eq: "attsdoc_map L payload = Inr ps \<longleftrightarrow> cbor_load L payload = Some (CMap ps)"
  by (cases "cbor_load L payload"; cases "the (cbor_load L payload)") (auto simp: attsdoc_map_def or_exit2_def)

lemma parts_envelope:
  "(\<exists>item xs. cbor_load L doc = Some item \<and> cose_sign1 item = Inr xs
      \<and> cose_parts xs = Inr (prot, CBytes payload, sig))
     \<and> cbor_load L prot = Some ph \<and> attsdoc_map L payload = Inr ps
   \<longleftrightarrow> envelope L doc prot ph payload ps sig"
  by (auto simp: envelope_def cose_sign1_eq length_4 cose_parts_eq attsdoc_map_eq)

lemma signer_key_eq: "signer_key L cert = Inr pk \<longleftrightarrow> (\<exists>x. d2i_X509 L cert = Some x \<and> X509_get_pubkey L x = Some pk)"
  by (auto simp: signer_key_def)

lemma find_cert_eq:
  "find_cert ps = Inr cert \<longleftrightarrow> find_bytes (\<lambda>s. s = ''certificate'' \<or> s = ''cert'') ps = Some cert \<and> cert \<noteq> []"
  by (auto simp: find_cert_def split: option.splits)

lemma validate_eq:
  "validate_attsdoc L doc = Inr k \<longleftrightarrow>
   (\<exists>prot ph payload ps sig cert pk msg der. envelope L doc prot ph payload ps sig
      \<and> find_cert ps = Inr cert \<and> signer_key L cert = Inr pk
      \<and> sig_structure L prot payload = Inr msg \<and> der_signature L (EVP_PKEY_id L pk) sig = Inr der
      \<and> any_digest L (md_of (alg_id ph)) pk msg der \<and> k = find_pubkey L ps)"
  unfolding parts_envelope [symmetric]
  by (simp add: validate_attsdoc_def verify_eq split: prod.split) blast

text \<open>C8. Exactly which documents are accepted, and the key that is returned: the document is a
  COSE\_Sign1 array, tagged or not; its payload is a map with a certificate; the Sig\_structure
  over the protected header and the payload has the signature under the key of that certificate,
  for one of the three digests (not only the one the header names); and the key is the one of
  the first \<open>public_key\<close> entry of the payload, NULL if there is none or it does not parse. Nothing
  is asked of the certificate itself.
\<close>

theorem validate_attsdoc_accepts:
  "validate_attsdoc L doc = Inr k \<longleftrightarrow>
   (\<exists>prot ph payload ps sig cert x pk msg der h.
      envelope L doc prot ph payload ps sig
      \<and> find_bytes (\<lambda>s. s = ''certificate'' \<or> s = ''cert'') ps = Some cert \<and> cert \<noteq> []
      \<and> d2i_X509 L cert = Some x \<and> X509_get_pubkey L x = Some pk
      \<and> cbor_serialize L (CArray [CText ''Signature1'', CBytes prot, CBytes [], CBytes payload])
          (length prot + length payload + 100) = Some msg
      \<and> der_signature L (EVP_PKEY_id L pk) sig = Inr der
      \<and> verify_init L (md_of (alg_id ph)) pk \<and> verify_update L (md_of (alg_id ph)) pk msg
      \<and> verify_init L h pk \<and> verify_update L h pk msg \<and> verify_final L h pk msg der = 1
      \<and> k = find_pubkey L ps)"
  unfolding validate_eq find_cert_eq signer_key_eq any_digest_def sig_structure_def or_exit2_eq
  by blast

text \<open>A small library with one document, for the examples.\<close>

definition example_lib :: "(nat, nat) lib" where
  "example_lib = \<lparr>
     cbor_load = (\<lambda>bs. if bs = [1] then Some (CTag (CArray [CBytes [2], CMap [], CBytes [3], CBytes [4]]))
        else if bs = [2] then Some (CMap [(CUint 1, CNegint 34)])
        else if bs = [3] then Some (CMap [(CText ''certificate'', CBytes [5]), (CText ''public_key'', CBytes [6])])
        else None),
     cbor_serialize = (\<lambda>c n. if c = CArray [CText ''Signature1'', CBytes [2], CBytes [], CBytes [3]]
        then Some [7] else None),
     d2i_X509 = (\<lambda>bs. if bs = [5] then Some 5 else None),
     X509_get_pubkey = (\<lambda>x. if x = 5 then Some 8 else None),
     EVP_PKEY_id = (\<lambda>_. EVP_PKEY_other),
     verify_init = (\<lambda>h k. True),
     verify_update = (\<lambda>h k m. True),
     verify_final = (\<lambda>h k m sg. if h = SHA384 \<and> k = 8 \<and> m = [7] \<and> sg = [4] then 1 else 0),
     BN_bin2bn = (\<lambda>bs. 0),
     i2d_ECDSA_SIG = (\<lambda>r s. [1]),
     d2i_PUBKEY = (\<lambda>bs. if bs = [6] then Some 6 else None)\<rparr>"

lemma example_accepted: "validate_attsdoc example_lib [1] = Inr (Some 6)"
  by (simp add: validate_attsdoc_def cose_sign1_def cose_parts_def attsdoc_map_def find_cert_def signer_key_def
      verify_def check_signature_def sig_structure_def der_signature_def find_pubkey_def or_exit2_def must_def alg_id_def md_of_def
      to_int_def try_md_def Let_def c_string_def example_lib_def)

lemma envelope_unique:
  assumes "envelope L doc prot ph payload ps sig" and "envelope L doc prot' ph' payload' ps' sig'"
  shows "prot' = prot \<and> ph' = ph \<and> payload' = payload \<and> ps' = ps \<and> sig' = sig"
  using assms by (auto simp: envelope_def)

text \<open>C15. If the key of the embedded certificate only ever signs the Sig\_structures of the pairs of
  header and document in \<open>S\<close>, and the encoding is injective, then an accepted document is one
  of those, and the key is the one its signer put there.
\<close>

theorem accepted_document_was_signed:
  assumes "validate_attsdoc L doc = Inr k"
    and "envelope L doc prot ph payload ps sig" and "find_cert ps = Inr cert" and "signer_key L cert = Inr pk"
    and "\<And>h msg sg. verify_final L h pk msg sg = 1 \<Longrightarrow> \<exists>p d. (p, d) \<in> S \<and> sig_structure L p d = Inr msg"
    and "\<And>p d p' d' msg. sig_structure L p d = Inr msg \<Longrightarrow> sig_structure L p' d' = Inr msg \<Longrightarrow> p = p' \<and> d = d'"
  shows "(prot, payload) \<in> S \<and> k = find_pubkey L ps"
proof -
  from assms(1) obtain msg der h where m: "sig_structure L prot payload = Inr msg"
      "verify_final L h pk msg der = 1" "k = find_pubkey L ps"
    unfolding validate_eq any_digest_def using envelope_unique [OF assms(2)] assms(3,4) by fastforce
  from assms(5) [OF m(2)] obtain p d where "(p, d) \<in> S" "sig_structure L p d = Inr msg" by blast
  with assms(6) [OF this(2) m(1)] m(3) show ?thesis by simp
qed

theorem accepted_document_was_signed_witness:
  "([2], [3]) \<in> {([2 :: u8], [3 :: u8])} \<and> Some (6 :: nat) = find_pubkey example_lib
     [(CText ''certificate'', CBytes [5]), (CText ''public_key'', CBytes [6])]"
proof (rule accepted_document_was_signed [of example_lib "[1]"])
  show "validate_attsdoc example_lib [1] = Inr (Some 6)" by (rule example_accepted)
  show "envelope example_lib [1] [2] (CMap [(CUint 1, CNegint 34)]) [3]
      [(CText ''certificate'', CBytes [5]), (CText ''public_key'', CBytes [6])] [4]"
    by (simp add: envelope_def example_lib_def)
  show "find_cert [(CText ''certificate'', CBytes [5]), (CText ''public_key'', CBytes [6])] = Inr [5]"
    by (simp add: find_cert_def c_string_def)
  show "signer_key example_lib [5] = Inr 8"
    by (simp add: signer_key_def example_lib_def)
qed (auto simp: example_lib_def sig_structure_def split: if_splits)

text \<open>A result that is no other failure than \<open>exit(2)\<close>.\<close>

definition only_exit2 :: "'a res \<Rightarrow> bool" where
  "only_exit2 m \<longleftrightarrow> (\<forall>e. m = Inl e \<longrightarrow> e = Exit 2)"

named_theorems exit2 \<open>functions that fail with status 2 only\<close>

lemma only_exit2_bind: "only_exit2 m \<Longrightarrow> (\<And>x. only_exit2 (f x)) \<Longrightarrow> only_exit2 (res_bind m f)"
  by (auto simp: only_exit2_def res_bind_eq_Inl)

lemma only_exit2_basic [exit2]:
  "only_exit2 (Inr x)" "only_exit2 (Inl (Exit 2))" "only_exit2 (or_exit2 y)" "only_exit2 (must b)"
  by (auto simp: only_exit2_def)

lemma only_exit2_if: "only_exit2 m \<Longrightarrow> only_exit2 n \<Longrightarrow> only_exit2 (if b then m else n)"
  by simp

lemma bytestring_exit2 [exit2]: "only_exit2 (bytestring c)"
  by (cases c) (auto simp: only_exit2_def)

lemma cose_sign1_exit2 [exit2]: "only_exit2 (cose_sign1 item)"
  by (auto simp: only_exit2_def cose_sign1_def split: cbor.splits if_splits)

lemma cose_parts_exit2 [exit2]: "only_exit2 (cose_parts xs)"
  unfolding cose_parts_def by (intro only_exit2_bind only_exit2_if exit2)

lemma attsdoc_map_exit2 [exit2]: "only_exit2 (attsdoc_map L payload)"
  unfolding attsdoc_map_def
  by (intro only_exit2_bind exit2) (auto simp: only_exit2_def split: cbor.splits)

lemma find_cert_exit2 [exit2]: "only_exit2 (find_cert ps)"
  by (auto simp: only_exit2_def find_cert_def split: option.splits)

lemma signer_key_exit2 [exit2]: "only_exit2 (signer_key L cert)"
  unfolding signer_key_def by (intro only_exit2_bind exit2)

lemma verify_exit2 [exit2]: "only_exit2 (verify L h0 pk prot payload sig)"
  unfolding verify_def check_signature_def sig_structure_def der_signature_def Let_def
  by (intro only_exit2_bind only_exit2_if exit2)

lemma validate_exit2: "only_exit2 (validate_attsdoc L doc)"
  unfolding validate_attsdoc_def split_def by (intro only_exit2_bind exit2)

text \<open>A document that is not accepted ends the program with status 2, whatever is wrong with it.\<close>

theorem rejected_document_exits:
  assumes "validate_attsdoc L doc = Inl e"
  shows "e = Exit 2"
  using validate_exit2 assms by (auto simp: only_exit2_def)

theorem rejected_document_exits_witness: "validate_attsdoc example_lib [9] = Inl (Exit 2)"
proof -
  have "validate_attsdoc example_lib [9] = Inl (projl (validate_attsdoc example_lib [9]))"
    by (simp add: validate_attsdoc_def or_exit2_def example_lib_def)
  with rejected_document_exits [OF this] show ?thesis by simp
qed

end
