(* ===== verification/Iiot_Device.thy ===== *)
theory Iiot_Device
  imports Enclave Attsdoc
begin

text \<open>
  secure_sgx/iiot_device.c: the device checks the attestation document, sends its public key, and
  then decides in every period at random whether the task is offloaded. \<open>sleep\<close> has no effect on
  the state; what is printed of a response is kept. \<open>srand\<close> is never called: \<open>rng\<close> is the
  sequence of an unseeded \<open>rand()\<close>. \<open>device_rounds\<close> iterates the periods, and \<open>device_offloads\<close> says
  what the device has sent and shown after any number of them.
\<close>

fun parse_device_args :: "(char \<times> string) list \<Rightarrow> string \<Rightarrow> string res" where
  "parse_device_args [] gateway_ip = Inr gateway_ip"
| "parse_device_args ((c, optarg) # opts) gateway_ip =
     (if c = CHR ''g'' then parse_device_args opts optarg
      else if c = CHR ''h'' then Inl (Exit 0)
      else Inl (Exit 1))"

definition need_offloading :: "rng \<Rightarrow> bool \<times> rng" where
  "need_offloading g = (case rand_next g of (v, g') \<Rightarrow> (v mod 2 \<noteq> 0, g'))"

definition request_msg :: "int \<Rightarrow> bytes" where
  "request_msg n = bytes_of (''task offloading to TEE: '' @ show_num n @ [newline])"

record device =
  n_offloads :: nat
  responses :: "bytes list"
  dice :: rng
  gate :: conn

text \<open>One period.\<close>

definition device_round ::
  "(nat \<Rightarrow> 'k evp) \<Rightarrow> 'k option \<Rightarrow> 'k option \<Rightarrow> device \<Rightarrow> device res" where
  "device_round E pkey pubkey_enclave d =
     (case need_offloading (dice d) of (offload, g) \<Rightarrow>
        if \<not> offload then Inr (d\<lparr>dice := g\<rparr>)
        else if n_offloads d = 2 ^ 31 - 1 then Inl Signed_Overflow
        else res_bind (request_offload (E (n_offloads d)) pkey pubkey_enclave
                         (request_msg (int (n_offloads d))) (gate d)) (\<lambda>(data_out, c).
          Inr (d\<lparr>n_offloads := Suc (n_offloads d), responses := responses d @ [data_out],
                  dice := g, gate := c\<rparr>)))"

partial_function (option) run_iiot_emulation ::
  "(nat \<Rightarrow> 'k evp) \<Rightarrow> 'k option \<Rightarrow> 'k option \<Rightarrow> device \<Rightarrow> unit run" where
  "run_iiot_emulation E pkey pubkey_enclave d =
     run_bind (Some (device_round E pkey pubkey_enclave d)) (\<lambda>d. run_iiot_emulation E pkey pubkey_enclave d)"

text \<open>
  \<open>main\<close> up to the loop. \<open>mykey\<close> is the result of \<open>generate_rsa_keypair\<close>, \<open>pem_write\<close> the public
  part of a key as PEM.
\<close>

definition device_start ::
  "(char \<times> string) list \<Rightarrow> (sockaddr \<Rightarrow> conn option) \<Rightarrow> (bytes \<Rightarrow> int \<Rightarrow> bytes) \<Rightarrow> ('x, 'k) lib
     \<Rightarrow> 'k option \<Rightarrow> ('k option \<Rightarrow> bytes) \<Rightarrow> ('k option \<times> conn) res" where
  "device_start opts net byte_buf L mykey pem_write =
     res_bind (parse_device_args opts ''127.0.0.1'') (\<lambda>gateway_ip.
     res_bind (connect_gateway net (Some gateway_ip)) (\<lambda>c.
     res_bind (recv_attsdoc byte_buf c) (\<lambda>(attsdoc, c).
     res_bind (validate_attsdoc L attsdoc) (\<lambda>pubkey_enclave.
     res_bind (send_iiot_pubkey pem_write mykey c) (\<lambda>c.
     Inr (pubkey_enclave, c))))))"

definition device_main ::
  "(char \<times> string) list \<Rightarrow> (sockaddr \<Rightarrow> conn option) \<Rightarrow> (bytes \<Rightarrow> int \<Rightarrow> bytes) \<Rightarrow> ('x, 'k) lib
     \<Rightarrow> 'k option \<Rightarrow> ('k option \<Rightarrow> bytes) \<Rightarrow> (nat \<Rightarrow> 'k evp) \<Rightarrow> rng \<Rightarrow> unit run" where
  "device_main opts net byte_buf L mykey pem_write E g =
     run_bind (Some (device_start opts net byte_buf L mykey pem_write)) (\<lambda>(pubkey_enclave, c).
     run_iiot_emulation E mykey pubkey_enclave
       \<lparr>n_offloads = 0, responses = [], dice = g, gate = c\<rparr>)"

lemma request_message: "n < 2 ^ 31 - 1 \<Longrightarrow> message (request_msg (int n))"
  unfolding request_msg_def by (rule counted_message) simp_all

section \<open>Periods\<close>

text \<open>The state after \<open>k\<close> periods, and how many of them offload.\<close>

fun device_rounds :: "(nat \<Rightarrow> 'k evp) \<Rightarrow> 'k option \<Rightarrow> 'k option \<Rightarrow> nat \<Rightarrow> device \<Rightarrow> device res" where
  "device_rounds E pkey pub 0 d = Inr d"
| "device_rounds E pkey pub (Suc k) d = res_bind (device_round E pkey pub d) (device_rounds E pkey pub k)"

fun offloads :: "rng \<Rightarrow> nat \<Rightarrow> nat" where
  "offloads g 0 = 0"
| "offloads g (Suc k) = (if uint (g 0) mod 2 \<noteq> 0 then 1 else 0) + offloads (\<lambda>i. g (Suc i)) k"

lemma emulation_rounds:
  "device_rounds E pkey pub k d = Inr d' \<Longrightarrow> run_iiot_emulation E pkey pub d = run_iiot_emulation E pkey pub d'"
proof (induction k arbitrary: d)
  case (Suc k)
  then obtain d1 where "device_round E pkey pub d = Inr d1" "device_rounds E pkey pub k d1 = Inr d'" by auto
  with Suc.IH [of d1] show ?case by (simp add: run_iiot_emulation.simps [of E pkey pub d])
qed simp

text \<open>The enclave can read request \<open>n\<close>, and the device reads its answer \<open>w\<close> as \<open>m\<close>.\<close>

definition offload_ok :: "'k evp \<Rightarrow> 'k option \<Rightarrow> 'k option \<Rightarrow> 'k evp \<Rightarrow> 'k option \<Rightarrow> bytes \<Rightarrow> bytes \<Rightarrow> nat \<Rightarrow> bool" where
  "offload_ok E pkey pub D sk w m n \<longleftrightarrow>
     opens E pub D sk (request_msg (int n)) \<and> decodes E pkey w m \<and> message m"

lemma request_offload_ok:
  assumes "up c" and "rx c = frame w @ rest" and "offload_ok E pkey pub D sk w m n"
  obtains r c' where "request_offload E pkey pub (request_msg (int n)) c = Inr (m, c')"
    and "up c'" and "rx c' = rest" and "tx c' = tx c @ frame r" and "decodes D sk r (request_msg (int n))"
proof -
  from assms(3) have ok: "opens E pub D sk (request_msg (int n))" "length w \<le> 512" "message m"
    "\<And>rest. length rest = 512 - length w \<Longrightarrow>
      fst (dec E pkey (w @ rest) (length w) (dec_size E pkey (w @ rest) (length w) 0)) = m"
    by (auto simp: offload_ok_def decodes_def)
  from request_send_ok [OF assms(1) ok(1)] obtain r c1 where
    1: "request_send E pub (request_msg (int n)) c = Inr (r @ drop (length r) zeros, c1)" "up c1"
      "tx c1 = tx c @ frame r" "rx c1 = rx c" "length r \<le> 512" "decodes D sk r (request_msg (int n))"
    by (metis decodes_opens)
  have "length (r @ drop (length r) zeros) = 512" using 1(5) by simp
  from request_recv_ok [OF 1(2) _ ok(2) this ok(3,4), of rest] 1(4) assms(2) obtain c2 where
    "request_recv E pkey (r @ drop (length r) zeros) c1 = Inr (m, c2)" "up c2" "rx c2 = rest" "tx c2 = tx c1"
    by auto
  with 1 show thesis by (intro that [of c2 r]) (simp_all add: request_offload_def)
qed

lemma device_skips:
  "uint (dice d 0) mod 2 = 0 \<Longrightarrow> device_round E pkey pub d = Inr (d\<lparr>dice := \<lambda>i. dice d (Suc i)\<rparr>)"
  by (simp add: device_round_def need_offloading_def rand_next_def)

lemma device_asks:
  assumes "uint (dice d 0) mod 2 \<noteq> 0" and "up (gate d)" and "rx (gate d) = frame w @ rest"
    and "offload_ok (E (n_offloads d)) pkey pub D sk w m (n_offloads d)" and "n_offloads d < 2 ^ 31 - 1"
  obtains r d' where "device_round E pkey pub d = Inr d'" and "n_offloads d' = Suc (n_offloads d)"
    and "responses d' = responses d @ [m]" and "dice d' = (\<lambda>i. dice d (Suc i))" and "up (gate d')"
    and "rx (gate d') = rest" and "tx (gate d') = tx (gate d) @ frame r"
    and "decodes D sk r (request_msg (int (n_offloads d)))"
proof -
  from request_offload_ok [OF assms(2-4)] obtain r c' where
    "request_offload (E (n_offloads d)) pkey pub (request_msg (int (n_offloads d))) (gate d) = Inr (m, c')"
    "up c'" "rx c' = rest" "tx c' = tx (gate d) @ frame r" "decodes D sk r (request_msg (int (n_offloads d)))"
    by blast
  with assms(1,5) show thesis
    by (intro that [of "d\<lparr>n_offloads := Suc (n_offloads d), responses := responses d @ [m],
          dice := \<lambda>i. dice d (Suc i), gate := c'\<rparr>" r])
       (simp_all add: device_round_def need_offloading_def rand_next_def)
qed

lemma device_rounds_ok:
  assumes "length msgs = length resps" and "up (gate d)" and "rx (gate d) = frames resps @ rest"
    and "offloads (dice d) k = length resps" and "n_offloads d + length resps < 2 ^ 31"
    and "\<forall>i<length resps. offload_ok (E (n_offloads d + i)) pkey pub (D (n_offloads d + i)) sk (resps ! i) (msgs ! i) (n_offloads d + i)"
  shows "\<exists>d' reqs. device_rounds E pkey pub k d = Inr d' \<and> n_offloads d' = n_offloads d + length resps
    \<and> responses d' = responses d @ msgs \<and> rx (gate d') = rest \<and> tx (gate d') = tx (gate d) @ frames reqs
    \<and> length reqs = length resps
    \<and> (\<forall>i<length resps. decodes (D (n_offloads d + i)) sk (reqs ! i) (request_msg (int (n_offloads d + i))))"
  using assms
proof (induction k arbitrary: d resps msgs)
  case 0
  then show ?case by simp
next
  case (Suc k)
  show ?case
  proof (cases "uint (dice d 0) mod 2 = 0")
    case True
    with Suc.prems Suc.IH [of msgs resps "d\<lparr>dice := \<lambda>i. dice d (Suc i)\<rparr>"] show ?thesis
      by (simp add: device_skips)
  next
    case False
    with Suc.prems(4) obtain w ws where ws: "resps = w # ws" by (cases resps) simp_all
    with Suc.prems(1) obtain m ms where ms: "msgs = m # ms" by (cases msgs) simp_all
    have "rx (gate d) = frame w @ frames ws @ rest" "n_offloads d < 2 ^ 31 - 1"
      "offload_ok (E (n_offloads d)) pkey pub (D (n_offloads d)) sk w m (n_offloads d)"
      using Suc.prems(3,5) Suc.prems(6) [THEN spec, of 0] ws ms by simp_all
    from device_asks [where E = E and D = "D (n_offloads d)" and pkey = pkey and pub = pub and sk = sk,
        OF False Suc.prems(2) this(1,3,2)] obtain r d1 where
      1: "device_round E pkey pub d = Inr d1" "n_offloads d1 = Suc (n_offloads d)" "responses d1 = responses d @ [m]"
        "dice d1 = (\<lambda>i. dice d (Suc i))" "up (gate d1)" "rx (gate d1) = frames ws @ rest"
        "tx (gate d1) = tx (gate d) @ frame r" "decodes (D (n_offloads d)) sk r (request_msg (int (n_offloads d)))"
      by blast
    have "\<forall>i<length ws. offload_ok (E (n_offloads d1 + i)) pkey pub (D (n_offloads d1 + i)) sk (ws ! i) (ms ! i) (n_offloads d1 + i)"
      using Suc.prems(6) ws ms 1(2) by (auto dest: spec [of _ "Suc _"])
    from Suc.IH [OF _ 1(5,6) _ _ this] Suc.prems(1,4,5) ws ms False 1(2,4) obtain d2 rs where
      2: "device_rounds E pkey pub k d1 = Inr d2" "n_offloads d2 = n_offloads d1 + length ws"
        "responses d2 = responses d1 @ ms" "rx (gate d2) = rest" "tx (gate d2) = tx (gate d1) @ frames rs"
        "length rs = length ws" "\<forall>i<length ws. decodes (D (n_offloads d1 + i)) sk (rs ! i) (request_msg (int (n_offloads d1 + i)))"
      by auto
    have "decodes (D (n_offloads d + i)) sk ((r # rs) ! i) (request_msg (int (n_offloads d + i)))"
      if "i < Suc (length ws)" for i
      using 1(2,8) 2(7) that by (cases i) auto
    with 1 2 ws ms show ?thesis by (intro exI [of _ d2] exI [of _ "r # rs"]) simp
  qed
qed

lemma emulation_endless:
  assumes "\<forall>i. uint (dice d i) mod 2 = 0"
  shows "run_iiot_emulation E pkey pub d = None"
proof (rule ccontr)
  assume "run_iiot_emulation E pkey pub d \<noteq> None"
  then obtain r where r: "run_iiot_emulation E pkey pub d = Some r" by auto
  have "\<not> (\<forall>i. uint (dice d i) mod 2 = 0)"
  proof (rule run_iiot_emulation.raw_induct [where P = "\<lambda>E pkey pub d r. \<not> (\<forall>i. uint (dice d i) mod 2 = 0)", OF _ r])
    fix f and E :: "nat \<Rightarrow> 'b evp" and pkey pub d r
    assume IH: "\<And>E pkey pub d r. f E pkey pub d = Some r \<Longrightarrow> \<not> (\<forall>i. uint (dice d i) mod 2 = 0)"
      and eq: "run_bind (Some (device_round E pkey pub d)) (f E pkey pub) = Some r"
    show "\<not> (\<forall>i. uint (dice d i) mod 2 = 0)"
    proof
      assume all: "\<forall>i. uint (dice d i) mod 2 = 0"
      then have "uint (dice d 0) mod 2 = 0" by blast
      with eq have "f E pkey pub (d\<lparr>dice := \<lambda>i. dice d (Suc i)\<rparr>) = Some r"
        by (simp add: device_round_def need_offloading_def rand_next_def)
      from IH [OF this] all show False by simp
    qed
  qed
  with assms show False by blast
qed

lemma device_start_ok:
  assumes "parse_device_args opts ''127.0.0.1'' = Inr ip" and "net (gateway_addr (Some ip)) = Some c" and "up c"
    and "rx c = frame doc @ rest" and "length doc \<le> 8192" and "byte_buf doc (int (length doc)) = doc"
    and "validate_attsdoc L doc = Inr pub" and "length (pem_write mykey) < 2 ^ 31"
  shows "\<exists>c'. device_start opts net byte_buf L mykey pem_write = Inr (pub, c') \<and> up c'
      \<and> tx c' = tx c @ frame (pem_write mykey) \<and> rx c' = rest"
proof -
  have "length doc < 2 ^ 31" using assms(5) by simp
  from tr.recv_law [OF assms(3,4,5) this] obtain c1 where
    1: "recv_len_data 8192 c = Inr (doc, int (length doc), c1)" "up c1" "rx c1 = rest" "tx c1 = tx c" by blast
  from tr.send_law [OF 1(2) assms(8)] 1 assms show ?thesis
    by (fastforce simp: device_start_def connect_gateway_def recv_attsdoc_def send_iiot_pubkey_def)
qed

lemma device_start_refused:
  assumes "parse_device_args opts ''127.0.0.1'' = Inr ip" and "net (gateway_addr (Some ip)) = Some c" and "up c"
    and "rx c = frame doc @ rest" and "length doc \<le> 8192" and "byte_buf doc (int (length doc)) = doc"
    and "validate_attsdoc L doc = Inl e"
  shows "device_start opts net byte_buf L mykey pem_write = Inl e"
proof -
  have "length doc < 2 ^ 31" using assms(5) by simp
  from tr.recv_law [OF assms(3,4,5) this] obtain c1 where
    "recv_len_data 8192 c = Inr (doc, int (length doc), c1)" by blast
  with assms show ?thesis by (simp add: device_start_def connect_gateway_def recv_attsdoc_def)
qed

text \<open>C34. The device's program, for any gateway: a document that is refused ends it with status 2
  before its loop. After an accepted one it sends its public key, and then, in just the periods whose random number is odd, the next request "task offloading to TEE: i" under the
  key of the document, which the enclave can read; it shows the answers in order. After any number
  of periods nothing else has been sent, and it goes on with its loop.\<close>

theorem device_offloads:
  assumes "parse_device_args opts ''127.0.0.1'' = Inr ip" and "net (gateway_addr (Some ip)) = Some c" and "up c"
    and "rx c = frame doc @ frames resps @ rest" and "length doc \<le> 8192" and "byte_buf doc (int (length doc)) = doc"
    and "length (pem_write mykey) < 2 ^ 31" and "length msgs = length resps" and "length resps < 2 ^ 31"
    and "offloads g k = length resps"
    and "\<forall>pub. validate_attsdoc L doc = Inr pub \<longrightarrow>
      (\<forall>i<length resps. offload_ok (E i) mykey pub (D i) sk (resps ! i) (msgs ! i) i)"
  shows "case validate_attsdoc L doc of
      Inl e \<Rightarrow> device_start opts net byte_buf L mykey pem_write = Inl (Exit 2)
        \<and> device_main opts net byte_buf L mykey pem_write E g = fail (Exit 2)
    | Inr pub \<Rightarrow> \<exists>c' d reqs. device_start opts net byte_buf L mykey pem_write = Inr (pub, c')
        \<and> device_rounds E mykey pub k \<lparr>n_offloads = 0, responses = [], dice = g, gate = c'\<rparr> = Inr d
        \<and> device_main opts net byte_buf L mykey pem_write E g = run_iiot_emulation E mykey pub d
        \<and> n_offloads d = length resps \<and> responses d = msgs \<and> rx (gate d) = rest
        \<and> tx (gate d) = tx c @ frame (pem_write mykey) @ frames reqs \<and> length reqs = length resps
        \<and> (\<forall>i<length resps. decodes (D i) sk (reqs ! i) (request_msg (int i)))"
proof (cases "validate_attsdoc L doc")
  case (Inl e)
  then have "e = Exit 2" using validate_exit2 [of L doc] by (simp add: only_exit2_def)
  with Inl device_start_refused [where opts = opts and net = net and mykey = mykey and byte_buf = byte_buf
      and pem_write = pem_write, OF assms(1-6) Inl] show ?thesis
    by (simp add: device_main_def)
next
  case (Inr pub)
  from device_start_ok [where opts = opts and net = net and mykey = mykey and byte_buf = byte_buf and pem_write = pem_write,
      OF assms(1-6) Inr assms(7)] obtain c' where
    c': "device_start opts net byte_buf L mykey pem_write = Inr (pub, c')" "up c'"
      "tx c' = tx c @ frame (pem_write mykey)" "rx c' = frames resps @ rest" by blast
  define d0 where "d0 = \<lparr>n_offloads = 0, responses = [], dice = g, gate = c'\<rparr>"
  have "\<forall>i<length resps. offload_ok (E (n_offloads d0 + i)) mykey pub (D (n_offloads d0 + i)) sk (resps ! i) (msgs ! i) (n_offloads d0 + i)"
    using assms(11) Inr by (simp add: d0_def)
  from device_rounds_ok [OF assms(8) _ _ _ _ this, of rest k] c' assms(9,10) obtain d reqs where
    d: "device_rounds E mykey pub k d0 = Inr d" "n_offloads d = length resps" "responses d = msgs" "rx (gate d) = rest"
      "tx (gate d) = tx c' @ frames reqs" "length reqs = length resps"
      "\<forall>i<length resps. decodes (D i) sk (reqs ! i) (request_msg (int i))"
    by (auto simp: d0_def)
  have "device_main opts net byte_buf L mykey pem_write E g = run_iiot_emulation E mykey pub d"
    using c'(1) emulation_rounds [OF d(1)] by (simp add: device_main_def d0_def)
  with Inr c' d show ?thesis
    by (simp add: d0_def) (rule exI [of _ reqs], simp)
qed

theorem device_offloads_witness:
  "device_main [] (\<lambda>_. Some (wire (frame [9] @ frame [65]))) (\<lambda>d _. d) example_lib (Some 1) (\<lambda>_. [5]) (\<lambda>_. plain_evp) (\<lambda>i. if i = 2 then 7 else 4)
     = fail (Exit 2)
   \<and> (\<exists>c d r. device_start [] (\<lambda>_. Some (wire (frame [1] @ frame [65]))) (\<lambda>d _. d) example_lib (Some 1) (\<lambda>_. [5]) = Inr (Some 6, c)
     \<and> device_rounds (\<lambda>_. plain_evp) (Some 1) (Some 6) 4
         \<lparr>n_offloads = 0, responses = [], dice = \<lambda>i. if i = 2 then 7 else 4, gate = c\<rparr> = Inr d
     \<and> responses d = [[65]] \<and> tx (gate d) = frame [5] @ frame r \<and> decodes plain_evp (Some 8) r (request_msg 0))"
proof -
  have m: "message (request_msg (int 0))" by (rule request_message) simp
  have ok: "offload_ok plain_evp (Some 1) pub plain_evp (Some 8) [65] [65] 0" for pub
    using m by (auto simp: offload_ok_def decodes_def plain_evp_def opens_def message_def request_msg_def bytes_of_def)
  note use = device_offloads [where opts = "[]" and byte_buf = "\<lambda>d _. d" and pem_write = "\<lambda>_. [5]" and mykey = "Some 1"
      and L = example_lib and E = "\<lambda>_. plain_evp" and D = "\<lambda>_. plain_evp" and sk = "Some 8" and k = 4
      and resps = "[[65]]" and msgs = "[[65]]" and rest = "[]" and g = "\<lambda>i. if i = 2 then 7 else 4"]
  have n4: "(4 :: nat) = Suc (Suc (Suc (Suc 0)))" by simp
  have count: "offloads (\<lambda>i. if i = 2 then 7 else 4) 4 = length [[65 :: u8]]" by (simp add: n4)
  have bad: "validate_attsdoc example_lib [9] = Inl (Exit 2)"
    by (simp add: validate_attsdoc_def or_exit2_def example_lib_def)
  have "device_main [] (\<lambda>_. Some (wire (frame [9] @ frame [65]))) (\<lambda>d _. d) example_lib (Some 1) (\<lambda>_. [5]) (\<lambda>_. plain_evp)
      (\<lambda>i. if i = 2 then 7 else 4) = fail (Exit 2)"
    using use [where net = "\<lambda>_. Some (wire (frame [9] @ frame [65]))" and doc = "[9]" and ip = "''127.0.0.1''"] count ok bad by simp
  moreover have "\<exists>c' d reqs. device_start [] (\<lambda>_. Some (wire (frame [1] @ frame [65]))) (\<lambda>d _. d) example_lib (Some 1) (\<lambda>_. [5]) = Inr (Some 6, c')
     \<and> device_rounds (\<lambda>_. plain_evp) (Some 1) (Some 6) 4
         \<lparr>n_offloads = 0, responses = [], dice = \<lambda>i. if i = 2 then 7 else 4, gate = c'\<rparr> = Inr d
     \<and> responses d = [[65]] \<and> tx (gate d) = frame [5] @ frames reqs \<and> length reqs = 1
     \<and> decodes plain_evp (Some 8) (reqs ! 0) (request_msg 0)"
    using use [where net = "\<lambda>_. Some (wire (frame [1] @ frame [65]))" and doc = "[1]" and ip = "''127.0.0.1''"] count ok
    by (simp add: example_accepted) blast
  then obtain c' d reqs where
    run: "device_start [] (\<lambda>_. Some (wire (frame [1] @ frame [65]))) (\<lambda>d _. d) example_lib (Some 1) (\<lambda>_. [5]) = Inr (Some 6, c')"
      "device_rounds (\<lambda>_. plain_evp) (Some 1) (Some 6) 4
         \<lparr>n_offloads = 0, responses = [], dice = \<lambda>i. if i = 2 then 7 else 4, gate = c'\<rparr> = Inr d"
      "responses d = [[65]]" "tx (gate d) = frame [5] @ frames reqs" "length reqs = 1"
      "decodes plain_evp (Some 8) (reqs ! 0) (request_msg 0)" by blast
  from run(5) obtain r where "reqs = [r]" by (auto simp: length_Suc_conv)
  with run have "tx (gate d) = frame [5] @ frame r" "decodes plain_evp (Some 8) r (request_msg 0)" by simp_all
  with run(1-3) calculation show ?thesis by blast
qed

text \<open>C35. The device answers an accepted document with its public key and nothing else, also where
  the document has no usable key of the enclave (\<open>pub\<close> is NULL): it goes on with the loop. A
  device that never draws an odd number then runs for ever: the loop has no other way out.
\<close>

theorem device_goes_on:
  assumes "parse_device_args opts ''127.0.0.1'' = Inr ip" and "net (gateway_addr (Some ip)) = Some c" and "up c"
    and "rx c = frame doc @ rest" and "length doc \<le> 8192" and "byte_buf doc (int (length doc)) = doc"
    and "validate_attsdoc L doc = Inr pub" and "length (pem_write mykey) < 2 ^ 31"
    and "\<forall>i. uint (g i) mod 2 = 0"
  shows "(\<exists>c'. device_start opts net byte_buf L mykey pem_write = Inr (pub, c')
      \<and> tx c' = tx c @ frame (pem_write mykey) \<and> rx c' = rest)
    \<and> device_main opts net byte_buf L mykey pem_write E g = None"
proof -
  from device_start_ok [where opts = opts and net = net and mykey = mykey and byte_buf = byte_buf and pem_write = pem_write, OF assms(1-8)] obtain c' where
    c': "device_start opts net byte_buf L mykey pem_write = Inr (pub, c')"
      "tx c' = tx c @ frame (pem_write mykey)" "rx c' = rest" by blast
  have "run_iiot_emulation E mykey pub \<lparr>n_offloads = 0, responses = [], dice = g, gate = c'\<rparr> = None"
    using assms(9) by (intro emulation_endless) simp
  with c' show ?thesis by (simp add: device_main_def)
qed

theorem device_goes_on_witness:
  "device_main [(CHR ''g'', ''10.0.0.1'')] (\<lambda>_. Some (wire (frame [1]))) (\<lambda>d _. d) example_lib (Some 1) (\<lambda>_. [5])
     (\<lambda>_. plain_evp) (\<lambda>_. 2) = None"
  using device_goes_on [where opts = "[(CHR ''g'', ''10.0.0.1'')]" and net = "\<lambda>_. Some (wire (frame [1]))"
      and byte_buf = "\<lambda>d _. d" and doc = "[1]" and rest = "[]" and pem_write = "\<lambda>_. [5]" and g = "\<lambda>_. 2" and E = "\<lambda>_. plain_evp",
      OF _ _ _ _ _ _ example_accepted, of _ _ "Some 1"]
  by simp

end
