(* ===== verification/Offload.thy ===== *)
theory Offload
  imports Gateway Iiot_Device
begin

text \<open>
  The three programs of secure_sgx together: the device, the gateway and the enclave, each
  waiting for the next message of the other. Since every call blocks, the programs take their
  turns in one order only; between two turns the bytes one has sent are delivered to the other.
  The functions that are composed are those of the programs.
\<close>

text \<open>What one end has sent is delivered to the other.\<close>

definition sent :: "conn \<Rightarrow> conn" where
  "sent c = c\<lparr>tx := []\<rparr>"

definition deliver :: "conn \<Rightarrow> conn \<Rightarrow> conn" where
  "deliver c d = d\<lparr>rx := rx d @ tx c\<rparr>"

definition idle :: "conn \<Rightarrow> bool" where
  "idle c \<longleftrightarrow> up c \<and> rx c = [] \<and> tx c = []"

record system =
  dev :: device
  gw :: gateway
  svc :: "nat \<times> bytes list \<times> conn"

definition quiet :: "system \<Rightarrow> bool" where
  "quiet s \<longleftrightarrow> idle (gate (dev s)) \<and> idle (to_iiot (gw s)) \<and> idle (to_enclave (gw s)) \<and> idle (snd (snd (svc s)))"

text \<open>
  One offloaded task: the device sends its request, the gateway passes it on, the enclave takes a
  round, the gateway passes the response back, and the device reads it.
\<close>

definition exchange ::
  "(nat \<Rightarrow> 'k evp) \<Rightarrow> (nat \<Rightarrow> 'k evp) \<Rightarrow> 'k option \<Rightarrow> 'k option \<Rightarrow> 'k option \<Rightarrow> 'k option
     \<Rightarrow> system \<Rightarrow> system res" where
  "exchange D E mykey pubkey_enclave pkey pubkey_iiot s =
     (let d = dev s; g = gw s; i = n_offloads d in
      res_bind (request_send (D i) pubkey_enclave (request_msg (int i)) (gate d)) (\<lambda>(encrypted, cd).
      res_bind (relay_request (g\<lparr>to_iiot := deliver cd (to_iiot g)\<rparr>)) (\<lambda>g.
      case svc s of (n, shown, ce) \<Rightarrow>
      res_bind (service_round E pkey pubkey_iiot (n, shown, deliver (to_enclave g) ce)) (\<lambda>(n, shown, ce).
      res_bind (relay_response (g\<lparr>to_enclave := deliver ce (sent (to_enclave g))\<rparr>)) (\<lambda>g.
      res_bind (request_recv (D i) mykey encrypted (deliver (to_iiot g) (sent cd))) (\<lambda>(data_out, cd).
      Inr \<lparr>dev = d\<lparr>n_offloads := Suc i, responses := responses d @ [data_out], gate := cd\<rparr>,
           gw = g\<lparr>to_iiot := sent (to_iiot g)\<rparr>, svc = (n, shown, sent ce)\<rparr>))))))"

fun exchanges ::
  "(nat \<Rightarrow> 'k evp) \<Rightarrow> (nat \<Rightarrow> 'k evp) \<Rightarrow> 'k option \<Rightarrow> 'k option \<Rightarrow> 'k option \<Rightarrow> 'k option
     \<Rightarrow> nat \<Rightarrow> system \<Rightarrow> system res" where
  "exchanges D E mykey pubkey_enclave pkey pubkey_iiot 0 s = Inr s"
| "exchanges D E mykey pubkey_enclave pkey pubkey_iiot (Suc k) s =
     res_bind (exchange D E mykey pubkey_enclave pkey pubkey_iiot s)
       (exchanges D E mykey pubkey_enclave pkey pubkey_iiot k)"

text \<open>
  Before that: the document goes from the enclave to the device, which checks it and sends its
  key back. The result has the keys that the device and the enclave have of each other. \<open>ce\<close>,
  \<open>ge\<close>, \<open>gi\<close> and \<open>cd\<close> are the four ends of the two connections.
\<close>

definition session_start ::
  "bytes \<Rightarrow> (bytes \<Rightarrow> int \<Rightarrow> bytes) \<Rightarrow> ('x, 'k) lib \<Rightarrow> 'k option \<Rightarrow> ('k option \<Rightarrow> bytes)
     \<Rightarrow> (bytes \<Rightarrow> int \<Rightarrow> 'k option) \<Rightarrow> rng \<Rightarrow> conn \<Rightarrow> conn \<Rightarrow> conn \<Rightarrow> conn
     \<Rightarrow> ('k option \<times> 'k option \<times> system) res" where
  "session_start doc byte_buf L mykey pem_write pem_read g ce ge gi cd =
     res_bind (send_attsdoc doc ce) (\<lambda>ce.
     res_bind (accept_enclave (deliver ce ge) no_gateway) (\<lambda>gw.
     res_bind (accept_iiot_device gi gw) (\<lambda>gw.
     res_bind (recv_attsdoc byte_buf (deliver (to_iiot gw) cd)) (\<lambda>(attsdoc, cd).
     res_bind (validate_attsdoc L attsdoc) (\<lambda>pubkey_enclave.
     res_bind (send_iiot_pubkey pem_write mykey cd) (\<lambda>cd.
     res_bind (relay_iiot_pubkey (gw\<lparr>to_iiot := deliver cd (sent (to_iiot gw))\<rparr>)) (\<lambda>gw.
     res_bind (recv_iiot_pubkey pem_read (deliver (to_enclave gw) (sent ce))) (\<lambda>(pubkey_iiot, ce).
     Inr (pubkey_enclave, pubkey_iiot,
          \<lparr>dev = \<lparr>n_offloads = 0, responses = [], dice = g, gate = sent cd\<rparr>,
           gw = gw\<lparr>to_enclave := sent (to_enclave gw)\<rparr>, svc = (0, [], ce)\<rparr>)))))))))"

lemma conn_simps [simp]:
  "rx (sent c) = rx c" "tx (sent c) = []" "up (sent c) = up c"
  "rx (deliver c d) = rx d @ tx c" "tx (deliver c d) = tx d" "up (deliver c d) = up d"
  by (simp_all add: sent_def deliver_def up_def readable_def writable_def)

lemma exchange_ok:
  assumes "quiet s" and "svc s = (n, shown, ce)" and "n_offloads (dev s) = i"
    and "i < 2 ^ 31 - 1" and "n < 2 ^ 31 - 1"
    and "opens (D i) pubkey_enclave (E n) pkey (request_msg (int i))"
    and "opens (E n) pubkey_iiot (D i) mykey (response_msg (int n))"
  shows "\<exists>s' ce'. exchange D E mykey pubkey_enclave pkey pubkey_iiot s = Inr s' \<and> quiet s'
      \<and> n_offloads (dev s') = Suc i \<and> responses (dev s') = responses (dev s) @ [response_msg (int n)]
      \<and> svc s' = (Suc n, shown @ [request_msg (int i)], ce')"
proof -
  let ?q = "request_msg (int i)" and ?a = "response_msg (int n)"
  have q: "up (gate (dev s))" "rx (gate (dev s)) = []" "tx (gate (dev s)) = []"
    "up (to_iiot (gw s))" "rx (to_iiot (gw s)) = []" "tx (to_iiot (gw s)) = []"
    "up (to_enclave (gw s))" "rx (to_enclave (gw s)) = []" "tx (to_enclave (gw s)) = []"
    "up ce" "rx ce = []" "tx ce = []"
    using assms(1,2) by (simp_all add: quiet_def idle_def)
  from request_send_ok [OF q(1) assms(6)] obtain w cd where
    1: "request_send (D i) pubkey_enclave ?q (gate (dev s)) = Inr (w @ drop (length w) zeros, cd)"
      "up cd" "tx cd = frame w" "rx cd = []" and w: "0 < length w" "length w \<le> 512"
      "\<And>rest. length rest = 512 - length w \<Longrightarrow>
        fst (dec (E n) pkey (w @ rest) (length w) (dec_size (E n) pkey (w @ rest) (length w) 0)) = ?q"
    using q(2,3) by (metis append_Nil)
  let ?g1 = "gw s\<lparr>to_iiot := deliver cd (to_iiot (gw s))\<rparr>"
  have "both_up ?g1" "rx (to_iiot ?g1) = frame w @ []" "length w \<le> 1024"
    using q 1 w by (simp_all add: both_up_def)
  from relay_request_ok [OF this] obtain g2 where
    2: "relay_request ?g1 = Inr g2" "both_up g2" "rx (to_iiot g2) = []" "tx (to_enclave g2) = frame w"
      "rx (to_enclave g2) = []" "tx (to_iiot g2) = []" using q by auto
  have "up (deliver (to_enclave g2) ce)" "rx (deliver (to_enclave g2) ce) = frame w @ []"
    using q 2 by simp_all
  from response_offload_ok [OF this w(1,2) request_message [OF assms(4)] w(3) assms(7)] obtain w' ce1 where
    3: "response_offload (E n) pkey pubkey_iiot ?a (deliver (to_enclave g2) ce) = Inr (?q, ce1)"
      "up ce1" "rx ce1 = []" "tx ce1 = frame w'" and w': "0 < length w'" "length w' \<le> 512"
      "\<And>rest. length rest = 512 - length w' \<Longrightarrow>
        fst (dec (D i) mykey (w' @ rest) (length w') (dec_size (D i) mykey (w' @ rest) (length w') 0)) = ?a"
    using q(12) by (metis append_Nil conn_simps(5))
  let ?g2 = "g2\<lparr>to_enclave := deliver ce1 (sent (to_enclave g2))\<rparr>"
  have "both_up ?g2" "rx (to_enclave ?g2) = frame w' @ []" "length w' \<le> 1024"
    using 2 3 w' by (simp_all add: both_up_def)
  from relay_response_ok [OF this] obtain g3 where
    4: "relay_response ?g2 = Inr g3" "both_up g3" "rx (to_enclave g3) = []" "tx (to_iiot g3) = frame w'"
      "rx (to_iiot g3) = []" "tx (to_enclave g3) = []" using 2 by auto
  have "up (deliver (to_iiot g3) (sent cd))" "rx (deliver (to_iiot g3) (sent cd)) = frame w' @ []"
    "length (w @ drop (length w) zeros) = 512"
    using 1 4 w by simp_all
  from request_recv_ok [OF this(1,2) w'(2) this(3) response_message [OF assms(5)] w'(3)] obtain cd1 where
    5: "request_recv (D i) mykey (w @ drop (length w) zeros) (deliver (to_iiot g3) (sent cd)) = Inr (?a, cd1)"
      "up cd1" "rx cd1 = []" "tx cd1 = []" by (metis conn_simps(2,5))
  show ?thesis
    using assms(2,3,5) 1 2 3 4 5
    by (auto simp: exchange_def service_round_def quiet_def idle_def both_up_def Let_def intro!: exI)
qed

lemma exchanges_ok:
  assumes "quiet s" and "svc s = (i, shown, ce)" and "n_offloads (dev s) = i" and "i + k < 2 ^ 31"
    and "\<And>j. i \<le> j \<Longrightarrow> j < i + k \<Longrightarrow>
      opens (D j) pubkey_enclave (E j) pkey (request_msg (int j))
      \<and> opens (E j) pubkey_iiot (D j) mykey (response_msg (int j))"
  shows "\<exists>s' ce'. exchanges D E mykey pubkey_enclave pkey pubkey_iiot k s = Inr s' \<and> quiet s'
      \<and> responses (dev s') = responses (dev s) @ map (\<lambda>j. response_msg (int j)) [i..<i + k]
      \<and> svc s' = (i + k, shown @ map (\<lambda>j. request_msg (int j)) [i..<i + k], ce')"
  using assms
proof (induction k arbitrary: s i shown ce)
  case 0
  then show ?case by simp
next
  case (Suc k)
  have i: "i < 2 ^ 31 - 1" using Suc.prems(4) by simp
  have "opens (D i) pubkey_enclave (E i) pkey (request_msg (int i))"
    "opens (E i) pubkey_iiot (D i) mykey (response_msg (int i))"
    using Suc.prems(5) [of i] by auto
  from exchange_ok [where D = D and E = E, OF Suc.prems(1,2,3) i i this] obtain s1 ce1 where
    1: "exchange D E mykey pubkey_enclave pkey pubkey_iiot s = Inr s1" "quiet s1"
      "n_offloads (dev s1) = Suc i" "responses (dev s1) = responses (dev s) @ [response_msg (int i)]"
      "svc s1 = (Suc i, shown @ [request_msg (int i)], ce1)" by blast
  have "Suc i + k < 2 ^ 31" using Suc.prems(4) by simp
  from Suc.IH [OF 1(2,5,3) this] Suc.prems(5) obtain s2 ce2 where
    "exchanges D E mykey pubkey_enclave pkey pubkey_iiot k s1 = Inr s2" "quiet s2"
    "responses (dev s2) = responses (dev s1) @ map (\<lambda>j. response_msg (int j)) [Suc i..<Suc i + k]"
    "svc s2 = (Suc i + k, (shown @ [request_msg (int i)]) @ map (\<lambda>j. request_msg (int j)) [Suc i..<Suc i + k], ce2)"
    by auto
  moreover have "[i..<i + Suc k] = i # [Suc i..<Suc i + k]" by (simp add: upt_conv_Cons del: upt_Suc)
  ultimately show ?case using 1 by simp
qed

lemma session_start_ok:
  assumes "idle ce" and "idle ge" and "idle gi" and "idle cd"
    and "length doc \<le> 8192" and "byte_buf doc (int (length doc)) = doc"
    and "validate_attsdoc L doc = Inr pubkey_enclave"
    and "length (pem_write mykey) \<le> 1024"
  shows "\<exists>s ce'. session_start doc byte_buf L mykey pem_write pem_read g ce ge gi cd
      = Inr (pubkey_enclave, pem_read (pem_write mykey) (int (length (pem_write mykey))), s)
      \<and> quiet s \<and> svc s = (0, [], ce') \<and> n_offloads (dev s) = 0 \<and> responses (dev s) = []"
proof -
  let ?pem = "pem_write mykey"
  have lens: "length doc < 2 ^ 31" "length ?pem < 2 ^ 31" "length ?pem \<le> 4096" using assms(5,8) by simp_all
  note idle = assms(1-4) [unfolded idle_def]
  from tr.send_law [of ce, OF _ lens(1)] idle obtain ce1 where
    1: "send_attsdoc doc ce = Inr ce1" "up ce1" "tx ce1 = frame doc" "rx ce1 = []" by (auto simp: send_attsdoc_def)
  from tr.recv_law [of "deliver ce1 ge" doc "[]" 8192] idle 1 assms(5) lens(1) obtain ge1 where
    2: "recv_len_data 8192 (deliver ce1 ge) = Inr (doc, int (length doc), ge1)" "up ge1" "rx ge1 = []" "tx ge1 = []"
    by auto
  from tr.send_law [of gi, OF _ lens(1)] idle obtain gi1 where
    3: "send_len_data doc (int (length doc)) gi = Inr gi1" "up gi1" "tx gi1 = frame doc" "rx gi1 = []" by auto
  from tr.recv_law [of "deliver gi1 cd" doc "[]" 8192] idle 3 assms(5) lens(1) obtain cd1 where
    4: "recv_len_data 8192 (deliver gi1 cd) = Inr (doc, int (length doc), cd1)" "up cd1" "rx cd1 = []" "tx cd1 = []"
    by auto
  from tr.send_law [of cd1, OF _ lens(2)] 4 obtain cd2 where
    5: "send_len_data ?pem (int (length ?pem)) cd1 = Inr cd2" "up cd2" "tx cd2 = frame ?pem" "rx cd2 = []" by auto
  from tr.recv_law [of "deliver cd2 (sent gi1)" ?pem "[]" 1024] 3 5 assms(8) lens(2) obtain gi2 where
    6: "recv_len_data 1024 (deliver cd2 (sent gi1)) = Inr (?pem, int (length ?pem), gi2)" "up gi2" "rx gi2 = []" "tx gi2 = []"
    by auto
  from tr.send_law [of ge1, OF _ lens(2)] 2 obtain ge2 where
    7: "send_len_data ?pem (int (length ?pem)) ge1 = Inr ge2" "up ge2" "tx ge2 = frame ?pem" "rx ge2 = []" by auto
  from tr.recv_law [of "deliver ge2 (sent ce1)" ?pem "[]" 4096] 1 7 lens(2,3) obtain ce2 where
    8: "recv_len_data 4096 (deliver ge2 (sent ce1)) = Inr (?pem, int (length ?pem), ce2)" "up ce2" "rx ce2 = []" "tx ce2 = []"
    by auto
  show ?thesis
    using 1 2 3 4 5 6 7 8 assms(6,7)
    by (simp add: session_start_def accept_enclave_def recv_enclave_attsdoc_def accept_iiot_device_def
        send_enclave_attsdoc_def no_gateway_def recv_attsdoc_def send_iiot_pubkey_def relay_iiot_pubkey_def
        recv_iiot_pubkey_def quiet_def idle_def)
qed

text \<open>
  The enclave and the device connect to the sockets the gateway listens on, each to its own. The
  port of a vsock address is in the order of the host, so the first one is 22555 and not 7000.
\<close>

lemma programs_meet:
  "reaches enclave_addr (gateway_addr ip) \<longleftrightarrow> ip = None"
  "reaches iot_addr (gateway_addr ip) \<longleftrightarrow> ip \<noteq> None"
  by (cases ip; simp add: enclave_addr_def iot_addr_def gateway_addr_def VSOCK_PORT_def IOT_PORT_def
      GATEWAY_PORT_FOR_ENCLAVE_def GATEWAY_PORT_FOR_IIOT_DEVICE_def)+

lemma vsock_port: "svm_port enclave_addr = 22555"
  by code_simp

section \<open>Properties\<close>

text \<open>C2. A whole session: the enclave attests, the gateway connects the two, the device accepts the
  document and sends its key, and then \<open>k\<close> tasks are offloaded. If the keys open what is
  encrypted for them, the enclave has shown the device's requests, in order, and the device has
  the enclave's responses, in order; no buffer overflows and no program ends before.
\<close>

theorem session_delivers:
  assumes "idle ce" and "idle ge" and "idle gi" and "idle cd"
    and "length doc \<le> 8192" and "byte_buf doc (int (length doc)) = doc"
    and "validate_attsdoc L doc = Inr pubkey_enclave"
    and "length (pem_write mykey) \<le> 1024"
    and "pem_read (pem_write mykey) (int (length (pem_write mykey))) = pubkey_iiot"
    and "k < 2 ^ 31"
    and "\<And>j. j < k \<Longrightarrow> opens (D j) pubkey_enclave (E j) pkey (request_msg (int j))"
    and "\<And>j. j < k \<Longrightarrow> opens (E j) pubkey_iiot (D j) mykey (response_msg (int j))"
  shows "\<exists>s ce'. res_bind (session_start doc byte_buf L mykey pem_write pem_read g ce ge gi cd)
        (\<lambda>(pubkey_enclave, pubkey_iiot, s). exchanges D E mykey pubkey_enclave pkey pubkey_iiot k s) = Inr s
      \<and> responses (dev s) = map (\<lambda>j. response_msg (int j)) [0..<k]
      \<and> svc s = (k, map (\<lambda>j. request_msg (int j)) [0..<k], ce')"
proof -
  from session_start_ok [where g = g and byte_buf = byte_buf and pem_write = pem_write and pem_read = pem_read, OF assms(1-8)] obtain s ce' where
    s: "session_start doc byte_buf L mykey pem_write pem_read g ce ge gi cd = Inr (pubkey_enclave, pubkey_iiot, s)"
      "quiet s" "svc s = (0, [], ce')" "n_offloads (dev s) = 0" "responses (dev s) = []"
    using assms(9) by blast
  from exchanges_ok [where D = D and E = E and k = k and pubkey_enclave = pubkey_enclave and pkey = pkey
      and pubkey_iiot = pubkey_iiot and mykey = mykey, OF s(2,3,4)] assms(10-12)
  obtain s' ce'' where "exchanges D E mykey pubkey_enclave pkey pubkey_iiot k s = Inr s'"
    "responses (dev s') = responses (dev s) @ map (\<lambda>j. response_msg (int j)) [0..<0 + k]"
    "svc s' = (0 + k, [] @ map (\<lambda>j. request_msg (int j)) [0..<0 + k], ce'')"
    by auto
  with s show ?thesis by simp
qed

theorem session_delivers_witness:
  "\<exists>s ce'. res_bind (session_start [1] (\<lambda>d _. d) example_lib (Some 1) (\<lambda>_. [1, 2]) (\<lambda>_ _. Some 9) (\<lambda>_. 0)
         (wire []) (wire []) (wire []) (wire []))
       (\<lambda>(pubkey_enclave, pubkey_iiot, s).
          exchanges (\<lambda>_. plain_evp) (\<lambda>_. plain_evp) (Some 1) pubkey_enclave (Some 2) pubkey_iiot 2 s) = Inr s
     \<and> responses (dev s) = map (\<lambda>j. response_msg (int j)) [0..<2]
     \<and> svc s = (2, map (\<lambda>j. request_msg (int j)) [0..<2], ce')"
proof (rule session_delivers [where pubkey_enclave = "Some 6" and pubkey_iiot = "Some 9"])
  fix j :: nat assume "j < 2"
  then have "message (request_msg (int j))" "message (response_msg (int j))"
    by (simp_all add: request_message response_message)
  then show "opens plain_evp (Some 6) plain_evp (Some 2) (request_msg (int j))"
    and "opens plain_evp (Some 9) plain_evp (Some 1) (response_msg (int j))"
    by (auto intro!: plain_opens simp: message_def request_msg_def response_msg_def bytes_of_def)
qed (simp_all add: idle_def example_accepted)

end
