(* ===== verification/Interleaving.thy ===== *)
theory Interleaving
  imports Offload
begin

text \<open>
  The three programs of secure_sgx and the network between them, without the order of turns that
  Offload fixes. A program can take its next step when the message it waits for has arrived in
  full; the network can at any time move any piece of what is under way on one of the four
  directed links. The steps are again the functions of the programs: one step of the device is
  the part of a period up to the blocking call, or from it on.
\<close>

text \<open>What stays fixed: OpenSSL on the two sides, and the keys.\<close>

record 'k session =
  dev_evp :: "nat \<Rightarrow> 'k evp"
  svc_evp :: "nat \<Rightarrow> 'k evp"
  dev_key :: "'k option"
  enclave_pub :: "'k option"
  enclave_key :: "'k option"
  dev_pub :: "'k option"

text \<open>
  \<open>waiting\<close> is the buffer of a request under way, if the device waits for a response; \<open>turn\<close> says
  that the gateway waits for the response, in the second half of its loop.
\<close>

record net =
  n_dev :: device
  waiting :: "bytes option"
  n_gw :: gateway
  turn :: bool
  n_svc :: "nat \<times> bytes list \<times> conn"

section \<open>Steps\<close>

text \<open>A call of \<open>recv_len_data\<close> can return: the header is there, and what it announces.\<close>

definition arrived :: "bytes \<Rightarrow> bool" where
  "arrived bs \<longleftrightarrow> 4 \<le> length bs \<and> 4 + nat (sint (of_le (take 4 bs))) \<le> length bs"

text \<open>The network moves \<open>k\<close> bytes from one end of a link to the other.\<close>

definition moved :: "nat \<Rightarrow> conn \<Rightarrow> conn" where
  "moved k c = c\<lparr>tx := drop k (tx c)\<rparr>"

definition moves :: "nat \<Rightarrow> conn \<Rightarrow> conn \<Rightarrow> conn" where
  "moves k c d = d\<lparr>rx := rx d @ take k (tx c)\<rparr>"

datatype action =
    Period            \<comment> \<open>the device: a period without offloading, or up to the request\<close>
  | Response          \<comment> \<open>the device: the rest of the period\<close>
  | Relay             \<comment> \<open>the gateway: one half of its loop\<close>
  | Serve             \<comment> \<open>the enclave: one round\<close>
  | Dev_Gw nat        \<comment> \<open>the network, by the number of bytes\<close>
  | Gw_Svc nat
  | Svc_Gw nat
  | Gw_Dev nat

text \<open>\<open>None\<close> where the action cannot be taken now; otherwise the new state, or how a program ends.\<close>

definition dev_period :: "'k session \<Rightarrow> net \<Rightarrow> net res" where
  "dev_period K s =
     (let d = n_dev s in
      case need_offloading (dice d) of (offload, g) \<Rightarrow>
        if \<not> offload then Inr (s\<lparr>n_dev := d\<lparr>dice := g\<rparr>\<rparr>)
        else if n_offloads d = 2 ^ 31 - 1 then Inl Signed_Overflow
        else res_bind (request_send (dev_evp K (n_offloads d)) (enclave_pub K)
                         (request_msg (int (n_offloads d))) (gate d)) (\<lambda>(encrypted, c).
          Inr (s\<lparr>n_dev := d\<lparr>dice := g, gate := c\<rparr>, waiting := Some encrypted\<rparr>)))"

definition dev_response :: "'k session \<Rightarrow> bytes \<Rightarrow> net \<Rightarrow> net res" where
  "dev_response K encrypted s =
     (let d = n_dev s in
      res_bind (request_recv (dev_evp K (n_offloads d)) (dev_key K) encrypted (gate d)) (\<lambda>(data_out, c).
      Inr (s\<lparr>n_dev := d\<lparr>n_offloads := Suc (n_offloads d), responses := responses d @ [data_out], gate := c\<rparr>,
             waiting := None\<rparr>)))"

text \<open>The two parts are the period of the device.\<close>

lemma device_round_parts:
  assumes "waiting s = None"
  shows "device_round (dev_evp K) (dev_key K) (enclave_pub K) (n_dev s) =
    res_bind (dev_period K s) (\<lambda>s1.
      case waiting s1 of None \<Rightarrow> Inr (n_dev s1)
      | Some encrypted \<Rightarrow> res_bind (dev_response K encrypted s1) (\<lambda>s2. Inr (n_dev s2)))"
proof -
  obtain offload g where o: "need_offloading (dice (n_dev s)) = (offload, g)"
    by (cases "need_offloading (dice (n_dev s))")
  let ?i = "n_offloads (n_dev s)"
  show ?thesis
  proof (cases "request_send (dev_evp K ?i) (enclave_pub K) (request_msg (int ?i)) (gate (n_dev s))")
    case (Inl e)
    with o assms show ?thesis by (simp add: device_round_def dev_period_def request_offload_def Let_def)
  next
    case (Inr r)
    obtain b c where r: "r = (b, c)" by (cases r)
    show ?thesis
      using o Inr assms unfolding r
      by (cases "request_recv (dev_evp K ?i) (dev_key K) b c")
         (auto simp: device_round_def dev_period_def dev_response_def request_offload_def Let_def)
  qed
qed

fun act :: "'k session \<Rightarrow> action \<Rightarrow> net \<Rightarrow> net res option" where
  "act K Period s = (if waiting s = None then Some (dev_period K s) else None)"
| "act K Response s =
     (case waiting s of None \<Rightarrow> None
      | Some encrypted \<Rightarrow> if arrived (rx (gate (n_dev s))) then Some (dev_response K encrypted s) else None)"
| "act K Relay s =
     (if \<not> turn s \<and> arrived (rx (to_iiot (n_gw s)))
      then Some (res_bind (relay_request (n_gw s)) (\<lambda>g. Inr (s\<lparr>n_gw := g, turn := True\<rparr>)))
      else if turn s \<and> arrived (rx (to_enclave (n_gw s)))
      then Some (res_bind (relay_response (n_gw s)) (\<lambda>g. Inr (s\<lparr>n_gw := g, turn := False\<rparr>)))
      else None)"
| "act K Serve s =
     (if arrived (rx (snd (snd (n_svc s))))
      then Some (res_bind (service_round (svc_evp K) (enclave_key K) (dev_pub K) (n_svc s)) (\<lambda>v.
             Inr (s\<lparr>n_svc := v\<rparr>)))
      else None)"
| "act K (Dev_Gw k) s =
     (let c = gate (n_dev s); g = n_gw s in
      if 0 < k \<and> k \<le> length (tx c)
      then Some (Inr (s\<lparr>n_dev := (n_dev s)\<lparr>gate := moved k c\<rparr>,
                        n_gw := g\<lparr>to_iiot := moves k c (to_iiot g)\<rparr>\<rparr>))
      else None)"
| "act K (Gw_Svc k) s =
     (let g = n_gw s; c = to_enclave g in
      case n_svc s of (n, shown, ce) \<Rightarrow>
      if 0 < k \<and> k \<le> length (tx c)
      then Some (Inr (s\<lparr>n_gw := g\<lparr>to_enclave := moved k c\<rparr>, n_svc := (n, shown, moves k c ce)\<rparr>))
      else None)"
| "act K (Svc_Gw k) s =
     (let g = n_gw s in
      case n_svc s of (n, shown, ce) \<Rightarrow>
      if 0 < k \<and> k \<le> length (tx ce)
      then Some (Inr (s\<lparr>n_gw := g\<lparr>to_enclave := moves k ce (to_enclave g)\<rparr>, n_svc := (n, shown, moved k ce)\<rparr>))
      else None)"
| "act K (Gw_Dev k) s =
     (let g = n_gw s; c = to_iiot g in
      if 0 < k \<and> k \<le> length (tx c)
      then Some (Inr (s\<lparr>n_gw := g\<lparr>to_iiot := moved k c\<rparr>,
                        n_dev := (n_dev s)\<lparr>gate := moves k c (gate (n_dev s))\<rparr>\<rparr>))
      else None)"

inductive reach :: "'k session \<Rightarrow> net \<Rightarrow> net res \<Rightarrow> bool" for K s0 where
  reach_init: "reach K s0 (Inr s0)"
| reach_act: "reach K s0 (Inr s) \<Longrightarrow> act K a s = Some r \<Longrightarrow> reach K s0 r"

section \<open>Frames in pieces\<close>

lemma arrived_Nil [simp]: "\<not> arrived []"
  by (simp add: arrived_def)

text \<open>A piece of a frame can be received when nothing of it is missing.\<close>

lemma arrived_frame:
  assumes "xs @ missing = frame w" and "length w < 2 ^ 31"
  shows "arrived xs \<longleftrightarrow> missing = []"
proof (cases "4 \<le> length xs")
  case False
  have "4 \<le> length (xs @ missing)" unfolding assms(1) by (simp add: frame_def)
  with False show ?thesis by (auto simp: arrived_def)
next
  case True
  then have "take 4 xs = take 4 (xs @ missing)" by simp
  also have "\<dots> = le_bytes (of_nat (length w))" unfolding assms(1) by (simp add: frame_def)
  finally have "nat (sint (of_le (take 4 xs))) = length w" using sint_small [OF assms(2)] by simp
  moreover have "length xs + length missing = 4 + length w"
    using arg_cong [OF assms(1), of length] by (simp add: frame_def)
  ultimately show ?thesis using True by (cases missing) (auto simp: arrived_def)
qed

lemma moved_simps [simp]:
  "rx (moved k c) = rx c" "tx (moved k c) = drop k (tx c)" "up (moved k c) = up c"
  "rx (moves k c d) = rx d @ take k (tx c)" "tx (moves k c d) = tx d" "up (moves k c d) = up d"
  by (simp_all add: moved_def moves_def up_def readable_def writable_def)

section \<open>The state of a round\<close>

text \<open>What is under way, and on which link.\<close>

datatype phase =
    Between
  | Request_Dev bytes
  | Request_Gw bytes
  | Response_Svc bytes
  | Response_Gw bytes

fun link_dev_gw :: "phase \<Rightarrow> bytes" where
  "link_dev_gw (Request_Dev w) = frame w" | "link_dev_gw _ = []"

fun link_gw_svc :: "phase \<Rightarrow> bytes" where
  "link_gw_svc (Request_Gw w) = frame w" | "link_gw_svc _ = []"

fun link_svc_gw :: "phase \<Rightarrow> bytes" where
  "link_svc_gw (Response_Svc w) = frame w" | "link_svc_gw _ = []"

fun link_gw_dev :: "phase \<Rightarrow> bytes" where
  "link_gw_dev (Response_Gw w) = frame w" | "link_gw_dev _ = []"

fun gw_turn :: "phase \<Rightarrow> bool" where
  "gw_turn (Request_Gw w) = True" | "gw_turn (Response_Svc w) = True" | "gw_turn _ = False"

fun served :: "phase \<Rightarrow> nat \<Rightarrow> nat" where
  "served (Response_Svc w) i = Suc i" | "served (Response_Gw w) i = Suc i" | "served _ i = i"

fun cargo :: "'k session \<Rightarrow> nat \<Rightarrow> phase \<Rightarrow> bool" where
  "cargo K i Between = True"
| "cargo K i (Request_Dev w) = decodes (svc_evp K i) (enclave_key K) w (request_msg (int i))"
| "cargo K i (Request_Gw w) = decodes (svc_evp K i) (enclave_key K) w (request_msg (int i))"
| "cargo K i (Response_Svc w) = decodes (dev_evp K i) (dev_key K) w (response_msg (int i))"
| "cargo K i (Response_Gw w) = decodes (dev_evp K i) (dev_key K) w (response_msg (int i))"

abbreviation svc_conn :: "net \<Rightarrow> conn" where
  "svc_conn s \<equiv> snd (snd (n_svc s))"

text \<open>In phase \<open>p\<close> of round \<open>i\<close>: one link carries the message of the phase, the others nothing.\<close>

definition in_phase :: "'k session \<Rightarrow> phase \<Rightarrow> nat \<Rightarrow> net \<Rightarrow> bool" where
  "in_phase K p i s \<longleftrightarrow>
     up (gate (n_dev s)) \<and> both_up (n_gw s) \<and> up (svc_conn s)
   \<and> rx (to_iiot (n_gw s)) @ tx (gate (n_dev s)) = link_dev_gw p
   \<and> rx (svc_conn s) @ tx (to_enclave (n_gw s)) = link_gw_svc p
   \<and> rx (to_enclave (n_gw s)) @ tx (svc_conn s) = link_svc_gw p
   \<and> rx (gate (n_dev s)) @ tx (to_iiot (n_gw s)) = link_gw_dev p
   \<and> turn s = gw_turn p
   \<and> n_offloads (n_dev s) = i \<and> responses (n_dev s) = map (\<lambda>j. response_msg (int j)) [0..<i]
   \<and> fst (n_svc s) = served p i \<and> fst (snd (n_svc s)) = map (\<lambda>j. request_msg (int j)) [0..<served p i]
   \<and> (waiting s = None \<longleftrightarrow> p = Between) \<and> (\<forall>b. waiting s = Some b \<longrightarrow> length b = 512)
   \<and> cargo K i p \<and> (p \<noteq> Between \<longrightarrow> i < 2 ^ 31 - 1) \<and> i \<le> 2 ^ 31 - 1"

text \<open>The keys of the session open what is encrypted for them, in every round there can be.\<close>

definition keys_ok :: "'k session \<Rightarrow> bool" where
  "keys_ok K \<longleftrightarrow> (\<forall>j<2 ^ 31 - 1. opens (dev_evp K j) (enclave_pub K) (svc_evp K j) (enclave_key K) (request_msg (int j))
      \<and> opens (svc_evp K j) (dev_pub K) (dev_evp K j) (dev_key K) (response_msg (int j)))"

text \<open>How far the round has got; a smaller number is further.\<close>

fun stage :: "phase \<Rightarrow> nat" where
  "stage Between = 5" | "stage (Request_Dev w) = 4" | "stage (Request_Gw w) = 3"
| "stage (Response_Svc w) = 2" | "stage (Response_Gw w) = 1"

definition under_way :: "net \<Rightarrow> nat" where
  "under_way s = length (tx (gate (n_dev s))) + length (tx (to_iiot (n_gw s)))
     + length (tx (to_enclave (n_gw s))) + length (tx (svc_conn s))"

definition closer :: "phase \<times> nat \<times> net \<Rightarrow> phase \<times> nat \<times> net \<Rightarrow> bool" where
  "closer = (\<lambda>(p', i', s') (p, i, s).
     i < i' \<or> i' = i \<and> (stage p' < stage p \<or> p' = p \<and> under_way s' < under_way s))"

section \<open>Every action keeps the invariant and makes progress\<close>

lemmas link_simps = in_phase_def both_up_def closer_def under_way_def

lemma moves_bytes:
  assumes "xs @ t = l" and "0 < k" and "k \<le> length t"
  shows "(xs @ take k t) @ drop k t = l" and "length (drop k t) < length t"
  using assms by auto

lemma network_step:
  assumes "in_phase K p i s" and "a \<in> {Dev_Gw k, Gw_Svc k, Svc_Gw k, Gw_Dev k}" and "act K a s = Some r"
  shows "\<exists>s'. r = Inr s' \<and> in_phase K p i s' \<and> closer (p, i, s') (p, i, s)"
  using assms by (cases "n_svc s") (auto simp: link_simps Let_def split: if_splits)

lemma arrived_link:
  assumes "xs @ t = frame w" and "arrived xs" and "decodes E sk w m"
  shows "t = []" and "xs = frame w @ []"
proof -
  have "length w < 2 ^ 31" using assms(3) by (simp add: decodes_def)
  from arrived_frame [OF assms(1) this] assms(1,2) show "t = []" "xs = frame w @ []" by auto
qed

lemma period_step:
  assumes "keys_ok K" and "in_phase K p i s" and "act K Period s = Some r"
  shows "(\<exists>p' s'. r = Inr s' \<and> in_phase K p' i s' \<and> (closer (p', i, s') (p, i, s) \<or> waiting s' = None))
    \<or> r = Inl Signed_Overflow \<and> i = 2 ^ 31 - 1 \<and> p = Between"
proof -
  from assms(2,3) have w: "waiting s = None" and p: "p = Between" and r: "r = dev_period K s"
    by (auto simp: in_phase_def split: if_splits)
  obtain offload g where o: "need_offloading (dice (n_dev s)) = (offload, g)" by (cases "need_offloading (dice (n_dev s))")
  show ?thesis
  proof (cases "offload \<and> i \<noteq> 2 ^ 31 - 1")
    case False
    let ?s = "s\<lparr>n_dev := (n_dev s)\<lparr>dice := g\<rparr>\<rparr>"
    have "n_offloads (n_dev s) = i" using assms(2) by (simp add: in_phase_def)
    with False r o have "r = Inr ?s \<or> r = Inl Signed_Overflow \<and> i = 2 ^ 31 - 1"
      by (auto simp: dev_period_def Let_def)
    moreover have "in_phase K Between i ?s" "waiting ?s = None"
      using assms(2) w p by (simp_all add: in_phase_def)
    ultimately show ?thesis using p by blast
  next
    case True
    have up: "up (gate (n_dev s))" and i: "n_offloads (n_dev s) = i" "i < 2 ^ 31 - 1"
      and q: "tx (gate (n_dev s)) = []" "rx (to_iiot (n_gw s)) = []"
      using assms(2) True p by (auto simp: in_phase_def)
    have op: "opens (dev_evp K i) (enclave_pub K) (svc_evp K i) (enclave_key K) (request_msg (int i))"
      using assms(1) i(2) by (simp add: keys_ok_def)
    from request_send_ok [OF up op] obtain w c where
      c: "request_send (dev_evp K i) (enclave_pub K) (request_msg (int i)) (gate (n_dev s))
            = Inr (w @ drop (length w) zeros, c)"
        "up c" "tx c = frame w" "rx c = rx (gate (n_dev s))" "length w \<le> 512"
      and d: "decodes (svc_evp K i) (enclave_key K) w (request_msg (int i))"
      using q by (metis append_Nil decodes_opens)
    let ?s = "s\<lparr>n_dev := (n_dev s)\<lparr>dice := g, gate := c\<rparr>, waiting := Some (w @ drop (length w) zeros)\<rparr>"
    have "r = Inr ?s" using r o True i c(1) by (simp add: dev_period_def Let_def)
    moreover have "in_phase K (Request_Dev w) i ?s"
      using assms(2) p c d i q by (simp add: in_phase_def)
    moreover have "closer (Request_Dev w, i, ?s) (p, i, s)" using p by (simp add: closer_def)
    ultimately show ?thesis by blast
  qed
qed

lemma response_step:
  assumes "in_phase K p i s" and "act K Response s = Some r"
  shows "\<exists>s'. r = Inr s' \<and> in_phase K Between (Suc i) s' \<and> closer (Between, Suc i, s') (p, i, s)"
proof -
  from assms(2) obtain b where b: "waiting s = Some b" "arrived (rx (gate (n_dev s)))" and r: "r = dev_response K b s"
    by (auto split: option.splits if_splits)
  then have len: "length b = 512" using assms(1) by (simp add: in_phase_def)
  from assms(1) b obtain w where p: "p = Response_Gw w"
    by (cases p) (auto simp: in_phase_def)
  with assms(1) have i: "i < 2 ^ 31 - 1" "n_offloads (n_dev s) = i" and up: "up (gate (n_dev s))"
    and link: "rx (gate (n_dev s)) @ tx (to_iiot (n_gw s)) = frame w"
    and d: "decodes (dev_evp K i) (dev_key K) w (response_msg (int i))"
    by (auto simp: in_phase_def)
  note a = arrived_link [OF link b(2) d]
  from d have w: "length w \<le> 512" "\<And>rest. length rest = 512 - length w \<Longrightarrow>
      fst (dec (dev_evp K i) (dev_key K) (w @ rest) (length w)
        (dec_size (dev_evp K i) (dev_key K) (w @ rest) (length w) 0)) = response_msg (int i)"
    by (auto simp: decodes_def)
  from request_recv_ok [OF up a(2) w(1) len response_message [OF i(1)] w(2)] obtain c where
    c: "request_recv (dev_evp K i) (dev_key K) b (gate (n_dev s)) = Inr (response_msg (int i), c)"
      "up c" "rx c = []" "tx c = tx (gate (n_dev s))" by blast
  let ?s = "s\<lparr>n_dev := (n_dev s)\<lparr>n_offloads := Suc i, responses := responses (n_dev s) @ [response_msg (int i)],
      gate := c\<rparr>, waiting := None\<rparr>"
  have "r = Inr ?s" using r i(2) c(1) by (simp add: dev_response_def Let_def)
  moreover have "in_phase K Between (Suc i) ?s"
    using assms(1) p c a(1) i by (simp add: in_phase_def)
  ultimately show ?thesis by (auto simp: closer_def)
qed

lemma serve_step:
  assumes "keys_ok K" and "in_phase K p i s" and "act K Serve s = Some r"
  shows "\<exists>p' s'. r = Inr s' \<and> in_phase K p' i s' \<and> closer (p', i, s') (p, i, s)"
proof -
  obtain n shown ce where v: "n_svc s = (n, shown, ce)" by (cases "n_svc s")
  from assms(3) v have arr: "arrived (rx ce)"
    and r: "r = res_bind (service_round (svc_evp K) (enclave_key K) (dev_pub K) (n, shown, ce)) (\<lambda>v. Inr (s\<lparr>n_svc := v\<rparr>))"
    by (auto split: if_splits)
  from assms(2) arr v obtain w where p: "p = Request_Gw w"
    by (cases p) (auto simp: in_phase_def)
  with assms(2) v have i: "i < 2 ^ 31 - 1" "n = i" and up: "up ce"
    and link: "rx ce @ tx (to_enclave (n_gw s)) = frame w" and q: "rx (to_enclave (n_gw s)) = []" "tx ce = []"
    and d: "decodes (svc_evp K i) (enclave_key K) w (request_msg (int i))"
    by (auto simp: in_phase_def)
  note a = arrived_link [OF link arr d]
  from d have w: "0 < length w" "length w \<le> 512" "\<And>rest. length rest = 512 - length w \<Longrightarrow>
      fst (dec (svc_evp K i) (enclave_key K) (w @ rest) (length w)
        (dec_size (svc_evp K i) (enclave_key K) (w @ rest) (length w) 0)) = request_msg (int i)"
    by (auto simp: decodes_def)
  have op: "opens (svc_evp K i) (dev_pub K) (dev_evp K i) (dev_key K) (response_msg (int i))"
    using assms(1) i(1) by (simp add: keys_ok_def)
  from response_offload_ok [OF up a(2) w(1,2) request_message [OF i(1)] w(3) op] obtain w' c where
    c: "response_offload (svc_evp K i) (enclave_key K) (dev_pub K) (response_msg (int i)) ce
          = Inr (request_msg (int i), c)" "up c" "rx c = []" "tx c = tx ce @ frame w'"
    and d': "decodes (dev_evp K i) (dev_key K) w' (response_msg (int i))"
    by (metis decodes_opens)
  let ?s = "s\<lparr>n_svc := (Suc i, shown @ [request_msg (int i)], c)\<rparr>"
  have "r = Inr ?s" using r c(1) i by (simp add: service_round_def)
  moreover have "in_phase K (Response_Svc w') i ?s"
    using assms(2) p v c d' a(1) i q by (simp add: in_phase_def)
  moreover have "closer (Response_Svc w', i, ?s) (p, i, s)" using p by (simp add: closer_def)
  ultimately show ?thesis by blast
qed

lemma relay_step:
  assumes "in_phase K p i s" and "act K Relay s = Some r"
  shows "\<exists>p' s'. r = Inr s' \<and> in_phase K p' i s' \<and> closer (p', i, s') (p, i, s)"
proof (cases "turn s")
  case False
  with assms(2) have arr: "arrived (rx (to_iiot (n_gw s)))"
    and r: "r = res_bind (relay_request (n_gw s)) (\<lambda>g. Inr (s\<lparr>n_gw := g, turn := True\<rparr>))"
    by (auto split: if_splits)
  from assms(1) arr False obtain w where p: "p = Request_Dev w"
    by (cases p) (auto simp: in_phase_def)
  with assms(1) have up: "both_up (n_gw s)" and link: "rx (to_iiot (n_gw s)) @ tx (gate (n_dev s)) = frame w"
    and q: "tx (to_enclave (n_gw s)) = []" "rx (svc_conn s) = []"
    and d: "decodes (svc_evp K i) (enclave_key K) w (request_msg (int i))"
    by (auto simp: in_phase_def)
  note a = arrived_link [OF link arr d]
  have "length w \<le> 1024" using d by (simp add: decodes_def)
  from relay_request_ok [OF up a(2) this] obtain g where
    g: "relay_request (n_gw s) = Inr g" "both_up g" "rx (to_iiot g) = []" "tx (to_enclave g) = frame w"
      "rx (to_enclave g) = rx (to_enclave (n_gw s))" "tx (to_iiot g) = tx (to_iiot (n_gw s))"
    using q by auto
  let ?s = "s\<lparr>n_gw := g, turn := True\<rparr>"
  have "r = Inr ?s" using r g(1) by simp
  moreover have "in_phase K (Request_Gw w) i ?s" using assms(1) p g a(1) q d by (simp add: in_phase_def)
  moreover have "closer (Request_Gw w, i, ?s) (p, i, s)" using p by (simp add: closer_def)
  ultimately show ?thesis by blast
next
  case True
  with assms(2) have arr: "arrived (rx (to_enclave (n_gw s)))"
    and r: "r = res_bind (relay_response (n_gw s)) (\<lambda>g. Inr (s\<lparr>n_gw := g, turn := False\<rparr>))"
    by (auto split: if_splits)
  from assms(1) arr True obtain w where p: "p = Response_Svc w"
    by (cases p) (auto simp: in_phase_def)
  with assms(1) have up: "both_up (n_gw s)" and link: "rx (to_enclave (n_gw s)) @ tx (svc_conn s) = frame w"
    and q: "tx (to_iiot (n_gw s)) = []" "rx (gate (n_dev s)) = []"
    and d: "decodes (dev_evp K i) (dev_key K) w (response_msg (int i))"
    by (auto simp: in_phase_def)
  note a = arrived_link [OF link arr d]
  have "length w \<le> 1024" using d by (simp add: decodes_def)
  from relay_response_ok [OF up a(2) this] obtain g where
    g: "relay_response (n_gw s) = Inr g" "both_up g" "rx (to_enclave g) = []" "tx (to_iiot g) = frame w"
      "rx (to_iiot g) = rx (to_iiot (n_gw s))" "tx (to_enclave g) = tx (to_enclave (n_gw s))"
    using q by auto
  let ?s = "s\<lparr>n_gw := g, turn := False\<rparr>"
  have "r = Inr ?s" using r g(1) by simp
  moreover have "in_phase K (Response_Gw w) i ?s" using assms(1) p g a(1) q d by (simp add: in_phase_def)
  moreover have "closer (Response_Gw w, i, ?s) (p, i, s)" using p by (simp add: closer_def)
  ultimately show ?thesis by blast
qed

section \<open>Runs\<close>

text \<open>After the key exchange: nothing is under way and nothing is counted yet.\<close>

definition fresh :: "net \<Rightarrow> bool" where
  "fresh s \<longleftrightarrow> idle (gate (n_dev s)) \<and> idle (to_iiot (n_gw s)) \<and> idle (to_enclave (n_gw s)) \<and> idle (svc_conn s)
     \<and> n_offloads (n_dev s) = 0 \<and> responses (n_dev s) = [] \<and> fst (n_svc s) = 0 \<and> fst (snd (n_svc s)) = []
     \<and> waiting s = None \<and> \<not> turn s"

definition net_of :: "system \<Rightarrow> net" where
  "net_of s = \<lparr>n_dev = dev s, waiting = None, n_gw = gw s, turn = False, n_svc = svc s\<rparr>"

lemma fresh_in_phase: "fresh s \<Longrightarrow> in_phase K Between 0 s"
  by (simp add: fresh_def in_phase_def idle_def both_up_def)

lemma session_fresh:
  assumes "idle ce" and "idle ge" and "idle gi" and "idle cd"
    and "length doc \<le> 8192" and "byte_buf doc (int (length doc)) = doc"
    and "validate_attsdoc L doc = Inr pubkey_enclave" and "length (pem_write mykey) \<le> 1024"
  obtains pubkey_iiot s where "session_start doc byte_buf L mykey pem_write pem_read g ce ge gi cd
      = Inr (pubkey_enclave, pubkey_iiot, s)" and "fresh (net_of s)"
  using session_start_ok [where pem_write = pem_write and pem_read = pem_read and byte_buf = byte_buf and g = g,
      OF assms]
  by (auto simp: fresh_def net_of_def quiet_def)

text \<open>What an action leads to.\<close>

lemma action_step:
  assumes "keys_ok K" and "in_phase K p i s" and "act K a s = Some r"
  shows "(\<exists>p' i' s'. r = Inr s' \<and> in_phase K p' i' s'
        \<and> (closer (p', i', s') (p, i, s) \<or> a = Period \<and> waiting s' = None))
    \<or> r = Inl Signed_Overflow \<and> i = 2 ^ 31 - 1 \<and> p = Between"
proof (cases a)
  case Period
  with period_step [OF assms(1,2)] assms(3) show ?thesis by blast
next
  case Response
  with response_step [OF assms(2)] assms(3) show ?thesis by blast
next
  case Relay
  with relay_step [OF assms(2)] assms(3) show ?thesis by blast
next
  case Serve
  with serve_step [OF assms(1,2)] assms(3) show ?thesis by blast
qed (use network_step [OF assms(2) _ assms(3)] in blast)+

lemma reach_phase:
  assumes "reach K s0 r" and "keys_ok K" and "fresh s0"
  shows "(\<exists>p i s. r = Inr s \<and> in_phase K p i s)
    \<or> r = Inl Signed_Overflow \<and> (\<exists>s. reach K s0 (Inr s) \<and> n_offloads (n_dev s) = 2 ^ 31 - 1)"
  using assms(1)
proof (induction rule: reach.induct)
  case reach_init
  show ?case using fresh_in_phase [OF assms(3)] by blast
next
  case (reach_act s a r)
  then obtain p i where p: "in_phase K p i s" by auto
  then have "n_offloads (n_dev s) = i" by (simp add: in_phase_def)
  with action_step [OF assms(2) p reach_act.hyps(2)] reach_act.hyps(1) show ?case by blast
qed

section \<open>Progress\<close>

text \<open>The phase, read off the state.\<close>

definition stage_of :: "net \<Rightarrow> nat" where
  "stage_of s =
     (if waiting s = None then 5
      else if fst (n_svc s) = n_offloads (n_dev s) then (if turn s then 3 else 4)
      else (if turn s then 2 else 1))"

definition distance :: "net \<Rightarrow> nat \<times> nat \<times> nat" where
  "distance s = (2 ^ 31 - n_offloads (n_dev s), stage_of s, under_way s)"

lemma stage_of_phase: "in_phase K p i s \<Longrightarrow> stage_of s = stage p"
  by (cases p) (auto simp: in_phase_def stage_of_def)

lemma closer_distance:
  assumes "closer (p', i', s') (p, i, s)" and "in_phase K p i s" and "in_phase K p' i' s'"
  shows "(distance s', distance s) \<in> less_than <*lex*> less_than <*lex*> less_than"
proof -
  have "n_offloads (n_dev s) = i" "n_offloads (n_dev s') = i'" "i' < 2 ^ 31"
    using assms(2,3) by (auto simp: in_phase_def)
  with assms(1) stage_of_phase [OF assms(2)] stage_of_phase [OF assms(3)] show ?thesis
    by (auto simp: distance_def closer_def)
qed

lemma link_moves:
  assumes "xs @ t = frame w" and "decodes E sk w m"
  shows "arrived xs \<or> 0 < length t"
proof -
  have "length w < 2 ^ 31" using assms(2) by (simp add: decodes_def)
  from arrived_frame [OF assms(1) this] show ?thesis by simp
qed

lemma never_stuck:
  assumes "in_phase K p i s"
  shows "\<exists>a r. act K a s = Some r"
proof (cases p)
  case Between
  with assms have "act K Period s = Some (dev_period K s)" by (simp add: in_phase_def)
  then show ?thesis by blast
next
  case (Request_Dev w)
  with assms have "arrived (rx (to_iiot (n_gw s))) \<or> 0 < length (tx (gate (n_dev s)))" "\<not> turn s"
    using link_moves [of "rx (to_iiot (n_gw s))" "tx (gate (n_dev s))" w] by (auto simp: in_phase_def)
  then have "(\<exists>r. act K Relay s = Some r) \<or> (\<exists>r. act K (Dev_Gw (length (tx (gate (n_dev s))))) s = Some r)"
    by (auto simp: Let_def)
  then show ?thesis by blast
next
  case (Request_Gw w)
  with assms have "arrived (rx (svc_conn s)) \<or> 0 < length (tx (to_enclave (n_gw s)))"
    using link_moves [of "rx (svc_conn s)" "tx (to_enclave (n_gw s))" w] by (auto simp: in_phase_def)
  then have "(\<exists>r. act K Serve s = Some r) \<or> (\<exists>r. act K (Gw_Svc (length (tx (to_enclave (n_gw s))))) s = Some r)"
    by (auto simp: Let_def split: prod.split)
  then show ?thesis by blast
next
  case (Response_Svc w)
  with assms have "arrived (rx (to_enclave (n_gw s))) \<or> 0 < length (tx (svc_conn s))" "turn s"
    using link_moves [of "rx (to_enclave (n_gw s))" "tx (svc_conn s)" w] by (auto simp: in_phase_def)
  then have "(\<exists>r. act K Relay s = Some r) \<or> (\<exists>r. act K (Svc_Gw (length (tx (svc_conn s)))) s = Some r)"
    by (auto simp: Let_def split: prod.split)
  then show ?thesis by blast
next
  case (Response_Gw w)
  with assms have "arrived (rx (gate (n_dev s))) \<or> 0 < length (tx (to_iiot (n_gw s)))" "waiting s \<noteq> None"
    using link_moves [of "rx (gate (n_dev s))" "tx (to_iiot (n_gw s))" w] by (auto simp: in_phase_def)
  then have "(\<exists>r. act K Response s = Some r) \<or> (\<exists>r. act K (Gw_Dev (length (tx (to_iiot (n_gw s))))) s = Some r)"
    by (auto simp: Let_def)
  then show ?thesis by blast
qed

section \<open>Properties\<close>

text \<open>C3. However the steps of the three programs and of the network interleave, no program ends or
  overflows a buffer (but for the counter of the device, after 2147483647 tasks), the device has the
  responses to its first tasks, in order, and the enclave has been shown the same requests, at most
  one more, in order.\<close>

theorem interleavings_deliver:
  assumes "reach K s0 r" and "keys_ok K" and "fresh s0"
  shows "(\<exists>s i j. r = Inr s \<and> responses (n_dev s) = map (\<lambda>m. response_msg (int m)) [0..<i]
        \<and> fst (snd (n_svc s)) = map (\<lambda>m. request_msg (int m)) [0..<j] \<and> i \<le> j \<and> j \<le> Suc i)
    \<or> r = Inl Signed_Overflow \<and> (\<exists>s. reach K s0 (Inr s) \<and> n_offloads (n_dev s) = 2 ^ 31 - 1)"
proof -
  have "i \<le> served p i \<and> served p i \<le> Suc i" for p i by (cases p) auto
  with reach_phase [OF assms] show ?thesis by (fastforce simp: in_phase_def)
qed

text \<open>C5. The system never stops and never runs in circles: in every reachable state something can
  happen, and every step but a period of the device without offloading brings the current task
  closer to its end (more tasks done, or a later phase of the task, or fewer bytes under way).\<close>

theorem interleavings_progress:
  assumes "reach K s0 (Inr s)" and "keys_ok K" and "fresh s0"
  shows "(\<exists>a r. act K a s = Some r)
    \<and> (\<forall>a s'. act K a s = Some (Inr s') \<longrightarrow>
         (distance s', distance s) \<in> less_than <*lex*> less_than <*lex*> less_than
         \<or> a = Period \<and> waiting s' = None)"
proof -
  from reach_phase [OF assms] obtain p i where p: "in_phase K p i s" by auto
  show ?thesis
  proof (intro conjI allI impI)
    show "\<exists>a r. act K a s = Some r" by (rule never_stuck [OF p])
    fix a s' assume "act K a s = Some (Inr s')"
    from action_step [OF assms(2) p this] show
      "(distance s', distance s) \<in> less_than <*lex*> less_than <*lex*> less_than \<or> a = Period \<and> waiting s' = None"
      using closer_distance [OF _ p] by blast
  qed
qed

text \<open>
  The specification of offloading, without keys, links and turns: the requests the enclave has been
  shown and the responses the device has got. A task is delivered when the last one is answered,
  and answered when it is delivered.
\<close>

inductive offload :: "bytes list \<times> bytes list \<Rightarrow> bytes list \<times> bytes list \<Rightarrow> bool" where
  delivered: "length shown = length got \<Longrightarrow>
    offload (shown, got) (shown @ [request_msg (int (length shown))], got)"
| answered: "length shown = Suc (length got) \<Longrightarrow>
    offload (shown, got) (shown, got @ [response_msg (int (length got))])"

definition offloaded :: "net \<Rightarrow> bytes list \<times> bytes list" where
  "offloaded s = (fst (snd (n_svc s)), responses (n_dev s))"

text \<open>Only two actions touch what the specification sees.\<close>

lemma act_offloaded:
  assumes "act K a s = Some (Inr s')"
  shows "offloaded s' = offloaded s
    \<or> (\<exists>m. offloaded s' = (fst (offloaded s) @ [m], snd (offloaded s)))
    \<or> (\<exists>m. offloaded s' = (fst (offloaded s), snd (offloaded s) @ [m]))"
  using assms
  by (cases a; cases "n_svc s")
     (auto simp: offloaded_def dev_period_def dev_response_def service_round_def res_bind_eq_Inr Let_def
       split: if_splits option.splits prod.splits)

lemma phase_offloaded:
  assumes "in_phase K p i s"
  shows "offloaded s = (map (\<lambda>j. request_msg (int j)) [0..<served p i], map (\<lambda>j. response_msg (int j)) [0..<i])"
    and "i \<le> served p i" and "served p i \<le> Suc i"
  using assms by (cases p; simp add: in_phase_def offloaded_def)+

text \<open>C4. The programs and the network refine this specification: whatever happens in a reachable
  state is a step of it, or not to be seen.\<close>

theorem interleavings_refine:
  assumes "reach K s0 (Inr s)" and "keys_ok K" and "fresh s0" and "act K a s = Some (Inr s')"
  shows "offload (offloaded s) (offloaded s') \<or> offloaded s' = offloaded s"
proof -
  from reach_phase [OF assms(1-3)] obtain p i where p: "in_phase K p i s" by auto
  from reach_phase [OF reach_act [OF assms(1,4)] assms(2,3)] obtain p' i' where p': "in_phase K p' i' s'" by auto
  note o = phase_offloaded [OF p] and o' = phase_offloaded [OF p']
  from act_offloaded [OF assms(4)] consider (same) "offloaded s' = offloaded s"
    | (shown) m where "offloaded s' = (fst (offloaded s) @ [m], snd (offloaded s))"
    | (got) m where "offloaded s' = (fst (offloaded s), snd (offloaded s) @ [m])" by blast
  then show ?thesis
  proof cases
    case shown
    then have i: "i' = i" "served p' i' = Suc (served p i)"
      using o(1) o'(1) by (auto dest!: arg_cong [where f = length])
    then have "served p i = i" using o(2) o'(3) by simp
    with i o(1) o'(1) delivered [of "fst (offloaded s)" "snd (offloaded s)"] show ?thesis by simp
  next
    case got
    then have i: "i' = Suc i" "served p' i' = served p i"
      using o(1) o'(1) by (auto dest!: arg_cong [where f = length])
    then have "served p i = Suc i" using o(3) o'(2) by simp
    with i o(1) o'(1) answered [of "fst (offloaded s)" "snd (offloaded s)"] show ?thesis by simp
  qed simp
qed

definition plain_session :: "nat session" where
  "plain_session = \<lparr>dev_evp = \<lambda>_. plain_evp, svc_evp = \<lambda>_. plain_evp, dev_key = Some 1, enclave_pub = Some 2,
     enclave_key = Some 3, dev_pub = Some 4\<rparr>"

definition plain_net :: net where
  "plain_net = \<lparr>n_dev = \<lparr>n_offloads = 0, responses = [], dice = (\<lambda>_. 1), gate = wire []\<rparr>, waiting = None,
     n_gw = \<lparr>to_enclave = wire [], to_iiot = wire [], attsdoc_buf = [], attsdoc_len = 0\<rparr>, turn = False,
     n_svc = (0, [], wire [])\<rparr>"

lemma plain_ok: "keys_ok plain_session" "fresh plain_net"
proof -
  have "opens plain_evp a plain_evp b (request_msg (int j))" "opens plain_evp a plain_evp b (response_msg (int j))"
    if "j < 2 ^ 31 - 1" for a b j
    using request_message [OF that] response_message [OF that]
    by (auto intro!: plain_opens simp: message_def request_msg_def response_msg_def bytes_of_def)
  then show "keys_ok plain_session" by (simp add: keys_ok_def plain_session_def)
  show "fresh plain_net" by (simp add: fresh_def plain_net_def idle_def)
qed

text \<open>The first request is on its way.\<close>

lemma plain_request:
  obtains s where "act plain_session Period plain_net = Some (Inr s)" and "reach plain_session plain_net (Inr s)"
    and "waiting s \<noteq> None" and "responses (n_dev s) = []"
proof -
  have "message (request_msg (int 0))" by (rule request_message) simp
  then have "opens plain_evp (Some 2) plain_evp (Some 3) (request_msg (int 0))"
    by (auto intro!: plain_opens simp: message_def request_msg_def bytes_of_def)
  from request_send_ok [OF wire_ok(3) this] obtain b c where
    "request_send plain_evp (Some 2) (request_msg (int 0)) (wire []) = Inr (b, c)" by metis
  then have "\<exists>s. act plain_session Period plain_net = Some (Inr s) \<and> waiting s \<noteq> None \<and> responses (n_dev s) = []"
    by (simp add: dev_period_def plain_net_def plain_session_def need_offloading_def rand_next_def)
  with that reach_act [OF reach_init] show thesis by blast
qed

theorem interleavings_deliver_witness:
  "\<exists>s i. reach plain_session plain_net (Inr s) \<and> waiting s \<noteq> None
     \<and> responses (n_dev s) = map (\<lambda>m. response_msg (int m)) [0..<i]"
proof -
  obtain s where s: "reach plain_session plain_net (Inr s)" "waiting s \<noteq> None" by (rule plain_request)
  from interleavings_deliver [OF s(1) plain_ok] s show ?thesis by auto
qed

theorem interleavings_progress_witness:
  "\<exists>s a r. reach plain_session plain_net (Inr s) \<and> waiting s \<noteq> None \<and> act plain_session a s = Some r"
proof -
  obtain s where s: "reach plain_session plain_net (Inr s)" "waiting s \<noteq> None" by (rule plain_request)
  from interleavings_progress [OF s(1) plain_ok] s show ?thesis by blast
qed

theorem interleavings_refine_witness:
  "\<exists>s. act plain_session Period plain_net = Some (Inr s)
     \<and> (offload (offloaded plain_net) (offloaded s) \<or> offloaded s = offloaded plain_net)"
proof -
  obtain s where s: "act plain_session Period plain_net = Some (Inr s)" by (rule plain_request)
  from interleavings_refine [OF reach_init plain_ok s] s show ?thesis by blast
qed

end
