(* ===== verification/Credentials.thy ===== *)
theory Credentials
  imports Prelude
begin

text \<open>
  secure_sgx/credentials.c: \<open>get_aws_credentials\<close> asks a provider that calls \<open>credentials_ready\<close>
  on a thread of its own, and waits for it with a mutex and a condition variable. The model is a
  step relation of the two threads over the shared \<open>get_cred_ctx_t\<close>, one step per access. What it
  takes from the AWS library is documented of it: \<open>wait\<close> releases the mutex and blocks in one
  step and holds the mutex again when it returns, \<open>notify_one\<close> wakes a thread that is blocked and
  is forgotten if there is none, and the platform may or may not wake a thread for no reason
  (\<open>spurious\<close>). The provider calls back at most once, with \<open>(c, err)\<close>. Creating and releasing the
  event loop, the resolver, the bootstrap and the provider does not touch the context: it is a list
  of calls of its own.
\<close>

section \<open>Set-up and clean-up\<close>

datatype aws_object = Elg | Resolver | Bootstrap | Provider | Mutex | Cond

text \<open>An object is made from others, and is released or cleaned up.\<close>

datatype aws_call = New aws_object "aws_object list" | Free aws_object

definition set_up :: "aws_call list" where
  "set_up = [New Elg [], New Resolver [Elg], New Bootstrap [Elg, Resolver], New Provider [Bootstrap],
     New Mutex [], New Cond []]"

definition clean_up :: "aws_call list" where
  "clean_up = [Free Provider, Free Bootstrap, Free Resolver, Free Elg, Free Mutex, Free Cond]"

text \<open>
  The objects that are alive with what they are made of. \<open>None\<close> for a call on an object that is not
  alive, or that releases one that another object still uses.
\<close>

fun run_calls :: "aws_call list \<Rightarrow> (aws_object \<times> aws_object list) list \<Rightarrow> (aws_object \<times> aws_object list) list option" where
  "run_calls [] alive = Some alive"
| "run_calls (New x ys # cs) alive =
     (if x \<notin> fst ` set alive \<and> set ys \<subseteq> fst ` set alive then run_calls cs ((x, ys) # alive) else None)"
| "run_calls (Free x # cs) alive =
     (if x \<in> fst ` set alive \<and> list_all (\<lambda>(y, zs). x \<notin> set zs) alive
      then run_calls cs (filter (\<lambda>(y, zs). y \<noteq> x) alive) else None)"

text \<open>A successful call releases every object once, each before what it is made of.\<close>

lemma calls_balanced: "run_calls (set_up @ clean_up) [] = Some []"
  by (simp add: set_up_def clean_up_def)

text \<open>The way out over an error code releases none of the six.\<close>

lemma error_leaks: "map_option (map fst) (run_calls set_up []) = Some [Cond, Mutex, Provider, Bootstrap, Resolver, Elg]"
  by (simp add: set_up_def)

section \<open>The states of the two threads\<close>

datatype main_pc =
    Ask        \<comment> \<open>context initialised, before the provider is asked\<close>
  | Check      \<comment> \<open>\<open>if (ctx.credentials == NULL)\<close>\<close>
  | Lock
  | Wait
  | Blocked    \<comment> \<open>inside \<open>aws_condition_variable_wait\<close>\<close>
  | Woken      \<comment> \<open>inside it, about to take the mutex again\<close>
  | Unlock
  | Test       \<comment> \<open>\<open>if (ctx.error_code != 0)\<close>\<close>
  | Release
  | Returned
  | Exited

datatype callback_pc = Idle | Set_Error | Set_Credentials | CLock | Notify | CUnlock | Done

datatype thread = Main | Callback

record 'c cred_state =
  main_at :: main_pc
  cb_at :: callback_pc
  error_code :: int
  credentials :: "'c option"
  mutex :: "thread option"
  result :: "'c option"

text \<open>The state after the initialisation; \<open>error_code\<close> is on the stack and is not initialised.\<close>

definition start :: "int \<Rightarrow> 'c cred_state" where
  "start garbage = \<lparr>main_at = Ask, cb_at = Idle, error_code = garbage, credentials = None,
     mutex = None, result = None\<rparr>"

section \<open>The two threads\<close>

inductive main_step :: "bool \<Rightarrow> 'c cred_state \<Rightarrow> 'c cred_state \<Rightarrow> bool" for spurious where
  ask: "main_at s = Ask \<Longrightarrow> main_step spurious s (s\<lparr>main_at := Check, cb_at := Set_Error\<rparr>)"
| check_null: "main_at s = Check \<Longrightarrow> credentials s = None \<Longrightarrow> main_step spurious s (s\<lparr>main_at := Lock\<rparr>)"
| check_set: "main_at s = Check \<Longrightarrow> credentials s \<noteq> None \<Longrightarrow> main_step spurious s (s\<lparr>main_at := Test\<rparr>)"
| lock: "main_at s = Lock \<Longrightarrow> mutex s = None \<Longrightarrow>
    main_step spurious s (s\<lparr>main_at := Wait, mutex := Some Main\<rparr>)"
| wait: "main_at s = Wait \<Longrightarrow> main_step spurious s (s\<lparr>main_at := Blocked, mutex := None\<rparr>)"
| wake: "main_at s = Blocked \<Longrightarrow> spurious \<Longrightarrow> main_step spurious s (s\<lparr>main_at := Woken\<rparr>)"
| relock: "main_at s = Woken \<Longrightarrow> mutex s = None \<Longrightarrow>
    main_step spurious s (s\<lparr>main_at := Unlock, mutex := Some Main\<rparr>)"
| unlock: "main_at s = Unlock \<Longrightarrow> main_step spurious s (s\<lparr>main_at := Test, mutex := None\<rparr>)"
| test_bad: "main_at s = Test \<Longrightarrow> error_code s \<noteq> 0 \<Longrightarrow> main_step spurious s (s\<lparr>main_at := Exited\<rparr>)"
| test_ok: "main_at s = Test \<Longrightarrow> error_code s = 0 \<Longrightarrow> main_step spurious s (s\<lparr>main_at := Release\<rparr>)"
| release: "main_at s = Release \<Longrightarrow>
    main_step spurious s (s\<lparr>main_at := Returned, result := credentials s\<rparr>)"

text \<open>\<open>credentials_ready\<close>, called with the credentials \<open>c\<close> and the code \<open>err\<close>.\<close>

inductive credentials_ready :: "'c option \<Rightarrow> int \<Rightarrow> 'c cred_state \<Rightarrow> 'c cred_state \<Rightarrow> bool" for c err where
  set_error: "cb_at s = Set_Error \<Longrightarrow>
    credentials_ready c err s (s\<lparr>cb_at := Set_Credentials, error_code := err\<rparr>)"
| set_credentials: "cb_at s = Set_Credentials \<Longrightarrow>
    credentials_ready c err s (s\<lparr>cb_at := CLock, credentials := c\<rparr>)"
| cb_lock: "cb_at s = CLock \<Longrightarrow> mutex s = None \<Longrightarrow>
    credentials_ready c err s (s\<lparr>cb_at := Notify, mutex := Some Callback\<rparr>)"
| notify: "cb_at s = Notify \<Longrightarrow>
    credentials_ready c err s (s\<lparr>cb_at := CUnlock,
      main_at := if main_at s = Blocked then Woken else main_at s\<rparr>)"
| cb_unlock: "cb_at s = CUnlock \<Longrightarrow> credentials_ready c err s (s\<lparr>cb_at := Done, mutex := None\<rparr>)"

inductive_cases main_stepE: "main_step spurious s s'"
inductive_cases credentials_readyE: "credentials_ready c err s s'"

text \<open>The threads interleave until the process has ended.\<close>

definition step :: "bool \<Rightarrow> 'c option \<Rightarrow> int \<Rightarrow> 'c cred_state \<Rightarrow> 'c cred_state \<Rightarrow> bool" where
  "step spurious c err s s' \<longleftrightarrow>
     main_at s \<noteq> Exited \<and> (main_step spurious s s' \<or> credentials_ready c err s s')"

inductive reachable :: "bool \<Rightarrow> 'c option \<Rightarrow> int \<Rightarrow> int \<Rightarrow> 'c cred_state \<Rightarrow> bool"
  for spurious c err garbage where
  reach_start: "reachable spurious c err garbage (start garbage)"
| reach_step: "reachable spurious c err garbage s \<Longrightarrow> step spurious c err s s' \<Longrightarrow>
    reachable spurious c err garbage s'"

section \<open>Invariants\<close>

text \<open>Who holds the mutex is determined by the two positions.\<close>

definition owner_ok :: "'c cred_state \<Rightarrow> bool" where
  "owner_ok s \<longleftrightarrow>
     (main_at s = Ask \<longleftrightarrow> cb_at s = Idle)
   \<and> (mutex s = Some Main \<longleftrightarrow> main_at s \<in> {Wait, Unlock})
   \<and> (mutex s = Some Callback \<longleftrightarrow> cb_at s \<in> {Notify, CUnlock})"

definition published :: "'c option \<Rightarrow> int \<Rightarrow> 'c cred_state \<Rightarrow> bool" where
  "published c err s \<longleftrightarrow>
     (main_at s = Ask \<longleftrightarrow> cb_at s = Idle)
   \<and> (cb_at s \<notin> {Idle, Set_Error} \<longrightarrow> error_code s = err)
   \<and> (cb_at s \<in> {Idle, Set_Error, Set_Credentials} \<longrightarrow> credentials s = None)
   \<and> (cb_at s \<in> {CLock, Notify, CUnlock, Done} \<longrightarrow> credentials s = c)"

lemma reachable_invariant:
  assumes "reachable spurious c err garbage s" and "P (start garbage)"
    and "\<And>s s'. reachable spurious c err garbage s \<Longrightarrow> P s \<Longrightarrow> main_step spurious s s' \<Longrightarrow> P s'"
    and "\<And>s s'. reachable spurious c err garbage s \<Longrightarrow> P s \<Longrightarrow> credentials_ready c err s s' \<Longrightarrow> P s'"
  shows "P s"
  using assms(1)
proof (induction rule: reachable.induct)
  case reach_start
  show ?case by (rule assms(2))
next
  case (reach_step s s')
  from reach_step(2) have "main_step spurious s s' \<or> credentials_ready c err s s'" by (simp add: step_def)
  with assms(3) [OF reach_step(1,3)] assms(4) [OF reach_step(1,3)] show ?case by blast
qed

lemma owner_ok_main: "main_step spurious s s' \<Longrightarrow> owner_ok s \<Longrightarrow> owner_ok s'"
  by (erule main_stepE) (auto simp: owner_ok_def)

lemma owner_ok_callback: "credentials_ready c err s s' \<Longrightarrow> owner_ok s \<Longrightarrow> owner_ok s'"
  by (erule credentials_readyE) (auto simp: owner_ok_def)

lemma owner_ok_reachable: "reachable spurious c err garbage s \<Longrightarrow> owner_ok s"
  by (erule reachable_invariant) (simp add: owner_ok_def start_def, (rule owner_ok_main owner_ok_callback; assumption)+)

lemma published_main: "main_step spurious s s' \<Longrightarrow> published c err s \<Longrightarrow> published c err s'"
  by (induction rule: main_step.induct) (simp_all add: published_def)

lemma published_callback: "credentials_ready c err s s' \<Longrightarrow> published c err s \<Longrightarrow> published c err s'"
  by (induction rule: credentials_ready.induct) (simp_all add: published_def)

lemma published_reachable: "reachable spurious c err garbage s \<Longrightarrow> published c err s"
  by (erule reachable_invariant) (simp add: published_def start_def, (rule published_main published_callback; assumption)+)

text \<open>Without spurious wake-ups the main thread gets past the wait only behind the callback.\<close>

definition past_wait :: "'c option \<Rightarrow> int \<Rightarrow> 'c cred_state \<Rightarrow> bool" where
  "past_wait c err s \<longleftrightarrow>
     (main_at s \<in> {Woken, Unlock, Test, Release, Returned, Exited} \<longrightarrow> cb_at s \<in> {CLock, Notify, CUnlock, Done})
   \<and> (main_at s \<in> {Release, Returned} \<longrightarrow> err = 0)
   \<and> (main_at s = Exited \<longrightarrow> err \<noteq> 0)
   \<and> (main_at s = Returned \<longrightarrow> result s = c)"

lemma past_wait_main:
  "main_step False s s' \<Longrightarrow> published c err s \<Longrightarrow> past_wait c err s \<Longrightarrow> past_wait c err s'"
  by (erule main_stepE; cases "cb_at s"; simp add: past_wait_def published_def)

lemma past_wait_callback:
  "credentials_ready c err s s' \<Longrightarrow> past_wait c err s \<Longrightarrow> past_wait c err s'"
  by (induction rule: credentials_ready.induct) (simp_all add: past_wait_def)

lemma past_wait_reachable: "reachable False c err garbage s \<Longrightarrow> past_wait c err s"
  by (erule reachable_invariant)
     (simp add: past_wait_def start_def, (rule past_wait_main past_wait_callback; assumption?; erule published_reachable)+)

section \<open>Schedules\<close>

text \<open>The next step of each thread as a function, and a schedule as a list of threads.\<close>

fun main_next :: "bool \<Rightarrow> 'c cred_state \<Rightarrow> 'c cred_state option" where
  "main_next spurious s =
     (case main_at s of
        Ask \<Rightarrow> Some (s\<lparr>main_at := Check, cb_at := Set_Error\<rparr>)
      | Check \<Rightarrow> Some (s\<lparr>main_at := if credentials s = None then Lock else Test\<rparr>)
      | Lock \<Rightarrow> if mutex s = None then Some (s\<lparr>main_at := Wait, mutex := Some Main\<rparr>) else None
      | Wait \<Rightarrow> Some (s\<lparr>main_at := Blocked, mutex := None\<rparr>)
      | Blocked \<Rightarrow> if spurious then Some (s\<lparr>main_at := Woken\<rparr>) else None
      | Woken \<Rightarrow> if mutex s = None then Some (s\<lparr>main_at := Unlock, mutex := Some Main\<rparr>) else None
      | Unlock \<Rightarrow> Some (s\<lparr>main_at := Test, mutex := None\<rparr>)
      | Test \<Rightarrow> Some (s\<lparr>main_at := if error_code s = 0 then Release else Exited\<rparr>)
      | Release \<Rightarrow> Some (s\<lparr>main_at := Returned, result := credentials s\<rparr>)
      | _ \<Rightarrow> None)"

fun callback_next :: "'c option \<Rightarrow> int \<Rightarrow> 'c cred_state \<Rightarrow> 'c cred_state option" where
  "callback_next c err s =
     (case cb_at s of
        Set_Error \<Rightarrow> Some (s\<lparr>cb_at := Set_Credentials, error_code := err\<rparr>)
      | Set_Credentials \<Rightarrow> Some (s\<lparr>cb_at := CLock, credentials := c\<rparr>)
      | CLock \<Rightarrow> if mutex s = None then Some (s\<lparr>cb_at := Notify, mutex := Some Callback\<rparr>) else None
      | Notify \<Rightarrow> Some (s\<lparr>cb_at := CUnlock, main_at := if main_at s = Blocked then Woken else main_at s\<rparr>)
      | CUnlock \<Rightarrow> Some (s\<lparr>cb_at := Done, mutex := None\<rparr>)
      | _ \<Rightarrow> None)"

lemma main_next_iff: "main_step spurious s s' \<longleftrightarrow> main_next spurious s = Some s'"
proof
  show "main_step spurious s s' \<Longrightarrow> main_next spurious s = Some s'"
    by (erule main_stepE) simp_all
  show "main_next spurious s = Some s' \<Longrightarrow> main_step spurious s s'"
    by (cases "main_at s") (auto split: if_splits intro: main_step.intros)
qed

lemma callback_next_iff: "credentials_ready c err s s' \<longleftrightarrow> callback_next c err s = Some s'"
proof
  show "credentials_ready c err s s' \<Longrightarrow> callback_next c err s = Some s'"
    by (erule credentials_readyE) simp_all
  show "callback_next c err s = Some s' \<Longrightarrow> credentials_ready c err s s'"
    using credentials_ready.intros [of s c err] by (cases "cb_at s") (simp_all split: if_split_asm)
qed

fun schedule :: "bool \<Rightarrow> 'c option \<Rightarrow> int \<Rightarrow> thread list \<Rightarrow> 'c cred_state \<Rightarrow> 'c cred_state option" where
  "schedule spurious c err [] s = Some s"
| "schedule spurious c err (t # ts) s =
     (if main_at s = Exited then None
      else case (case t of Main \<Rightarrow> main_next spurious s | Callback \<Rightarrow> callback_next c err s) of
        None \<Rightarrow> None | Some s' \<Rightarrow> schedule spurious c err ts s')"

lemma schedule_reachable:
  "reachable spurious c err garbage s \<Longrightarrow> schedule spurious c err ts s = Some s' \<Longrightarrow>
   reachable spurious c err garbage s'"
proof (induction ts arbitrary: s)
  case Nil
  then show ?case by simp
next
  case (Cons t ts)
  then obtain s1 where s1: "step spurious c err s s1" "schedule spurious c err ts s1 = Some s'"
    by (cases t) (auto simp: step_def main_next_iff callback_next_iff simp del: main_next.simps callback_next.simps
        split: if_splits option.splits)
  from Cons.IH [OF reach_step [OF Cons.prems(1) s1(1)] s1(2)] show ?case .
qed

lemmas run_schedule = schedule_reachable [OF reach_start]

section \<open>Properties\<close>

text \<open>C16. If the platform has no spurious wake-ups, \<open>get_aws_credentials\<close> returns only what the
  provider delivered, with the code 0; and it exits only if the provider reported an error.
\<close>

theorem returned_credentials_were_delivered:
  assumes "reachable False c err garbage s"
  shows "(main_at s = Returned \<longrightarrow> err = 0 \<and> result s = c) \<and> (main_at s = Exited \<longrightarrow> err \<noteq> 0)"
  using past_wait_reachable [OF assms] by (simp add: past_wait_def)

definition good_run :: "nat cred_state" where
  "good_run = \<lparr>main_at = Returned, cb_at = Done, error_code = 0, credentials = Some 5, mutex = None,
     result = Some 5\<rparr>"

theorem returned_credentials_were_delivered_witness:
  "reachable False (Some 5) 0 77 good_run \<and> result good_run = Some 5"
proof -
  have r: "reachable False (Some 5) 0 77 good_run"
    by (rule run_schedule [where ts = "[Main, Main, Main, Main, Callback, Callback, Callback, Callback, Callback,
          Main, Main, Main, Main]"]) (simp add: start_def good_run_def)
  with returned_credentials_were_delivered [OF r] show ?thesis by (simp add: good_run_def)
qed

text \<open>C24. The wake-up can be lost: the null test is made without the mutex and not repeated, so for
  every answer of the provider there is an interleaving in which the callback has finished and
  the caller waits for ever.\<close>

theorem wakeup_is_lost:
  "\<exists>s. reachable False c err garbage s \<and> main_at s = Blocked \<and> cb_at s = Done
     \<and> \<not> (\<exists>s'. step False c err s s')"
proof (intro exI conjI)
  let ?s = "\<lparr>main_at = Blocked, cb_at = Done, error_code = err, credentials = c, mutex = None, result = None\<rparr>"
  show "reachable False c err garbage ?s"
    by (rule run_schedule [where ts = "[Main, Main, Callback, Callback, Callback, Callback, Callback, Main, Main]"])
       (simp add: start_def)
  show "\<not> (\<exists>s'. step False c err ?s s')"
    by (simp add: step_def main_next_iff callback_next_iff)
qed simp_all

text \<open>C25. The context can be gone while the callback still uses it: the caller sees the credentials
  before the callback has taken the mutex, and returns. And where spurious wake-ups exist, the
  caller can return NULL as a success before the provider has answered, since neither the
  test nor the error code is set up for it.\<close>

theorem context_is_left_too_early:
  "(\<exists>s. reachable False (Some x) 0 garbage s \<and> main_at s = Returned \<and> cb_at s = CLock)
   \<and> (\<exists>s. reachable True c err 0 s \<and> main_at s = Returned \<and> result s = None \<and> cb_at s = Set_Error)"
proof (intro conjI exI)
  let ?s = "\<lparr>main_at = Returned, cb_at = CLock, error_code = 0, credentials = Some x, mutex = None, result = Some x\<rparr>"
  show "reachable False (Some x) 0 garbage ?s"
    by (rule run_schedule [where ts = "[Main, Callback, Callback, Main, Main, Main]"]) (simp add: start_def)
  let ?t = "\<lparr>main_at = Returned, cb_at = Set_Error, error_code = 0, credentials = None, mutex = None, result = None\<rparr>"
  show "reachable True c err 0 ?t"
    by (rule run_schedule [where ts = "[Main, Main, Main, Main, Main, Main, Main, Main, Main]"])
       (simp add: start_def)
qed simp_all

end
