(* ===== verification/Iot_Device.thy ===== *)
theory Iot_Device
  imports Prelude
begin

text \<open>
  secure_sgx/iot_device.c: a device that publishes one reading over MQTT. The program is the list of
  the calls it makes to the MQTT library; only one result is looked at, the one of
  \<open>MQTTClient_connect\<close>.
\<close>

record ssl_opts =
  enableServerCertAuth :: int
  trustStore :: string
  keyStore :: string
  privateKey :: string

record mqtt_message =
  payload :: string
  payloadlen :: nat
  qos :: int
  retained :: int

datatype mqtt_call =
    Create string string
  | Connect ssl_opts (keepAliveInterval: int) (cleansession: int)
  | Publish_Message string mqtt_message
  | Wait_For_Completion int
  | Disconnect int
  | Destroy

definition reading :: mqtt_message where
  "reading = \<lparr>payload = ''temperature=25'', payloadlen = length ''temperature=25'', qos = 1, retained = 0\<rparr>"

text \<open>The calls, what is printed and the exit status, for the result \<open>rc\<close> of the connection (0 is success).\<close>

definition iot_main :: "int \<Rightarrow> mqtt_call list \<times> string list \<times> int" where
  "iot_main rc =
     (let opening = [Create ''ssl://192.168.12.175:8883'' ''IoTDevice'',
            Connect \<lparr>enableServerCertAuth = 1, trustStore = ''ca.pem'', keyStore = ''client.pem'', privateKey = ''client.key''\<rparr>
              20 1]
      in if rc \<noteq> 0 then (opening, [''Failed to connect''], rc)
         else (opening @ [Publish_Message ''iot/data'' reading, Wait_For_Completion 10000, Disconnect 10000, Destroy],
               [''Message sent''], 0))"

text \<open>
  The message is complete, a failed connection is reported with its code and nothing is published,
  and a client that could not connect is not destroyed.
\<close>

lemma reading_complete: "payloadlen reading = length (payload reading)"
  by (simp add: reading_def)

lemma iot_main_status: "snd (snd (iot_main rc)) = rc"
  by (simp add: iot_main_def Let_def)

lemma iot_main_publishes: "Publish_Message t m \<in> set (fst (iot_main rc)) \<longleftrightarrow> rc = 0 \<and> t = ''iot/data'' \<and> m = reading"
  by (auto simp: iot_main_def Let_def)

lemma iot_main_leaks: "Destroy \<in> set (fst (iot_main rc)) \<longleftrightarrow> rc = 0"
  by (auto simp: iot_main_def Let_def)

end
