(* ===== verification/Spec2Isabelle.thy ===== *)
theory Spec2Isabelle
  imports Gastask Gasgen Output Interleaving Credentials Iot_Device
begin

text \<open>
  A model of mutual\_edge, with the theorems that make it correct.

  \<^bold>\<open>The programs.\<close> The repository holds two groups of C programs. \<open>gastask\<close> (src/\*.c) reads a
  configuration of tasks, memories, processor frequencies, networks and clouds, and searches with a
  genetic algorithm for the assignment of least cost; \<open>gasgen\<close> writes random task sets and networks
  for it. The programs under src/secure\_sgx let a device offload tasks to an enclave: \<open>enclave\<close> has
  its key attested and connects to \<open>gateway\<close>, which hands the attestation document to \<open>iiot_device\<close>,
  passes the public key of the device back and then relays requests and responses. The device checks
  the document with attsdoc.c; credentials.c fetches AWS credentials; iot\_device.c is an MQTT client
  of its own.

  \<^bold>\<open>Results.\<close> (Prelude) A C function that always returns, or leaves through \<open>exit\<close>, \<open>FATAL\<close>, a failed
  \<open>ASSERT\<close> or a behaviour that C leaves undefined, is a function into \<open>'a res = err + 'a\<close>. One whose
  loop may run for ever is a \<open>partial_function\<close> into \<open>'a run = (err + 'a) option\<close>, where \<open>None\<close> is
  "never returns"; there is no fuel. So a theorem that names a result \<open>ret x\<close> or \<open>fail e\<close> includes
  that the code gets there. Integers keep their width (\<open>32 word\<close>, \<open>8 word\<close>) where they can wrap;
  \<open>double\<close> is IEEE binary64 with signed zeros, infinities and NaN (Binary64), and its \<open><\<close> is the
  partial order of C. Access outside an array is an error of its own (\<open>Out_Of_Bounds\<close>).

  \<^bold>\<open>The genetic algorithm.\<close>
  \<^item> Rand (util.c): \<open>rand()\<close> is the sequence of numbers it is still to return; \<open>fair\<close> says that every
    value comes again and again, which is what the retry loops need to end.
  \<^item> Ecm\_List (ecm\_list.h): the intrusive lists as pointer assignments on a store. \<open>dll h head xs\<close> says
    that the store holds the list \<open>xs\<close>; every operation is shown to be the list function it should be.
    The locale \<open>entry_list\<close> is what users rely on, interpreted on these functions as \<open>ecm\<close>.
  \<^item> Tables (gastask.h, common.h, mem.c, cpu.c, cloud.c, network.c, net\_commander.c,
    offloadingratio.c): the record \<open>conf\<close> holds all global tables and parameters; the locale \<open>table\<close> is
    the contract of the seven \<open>add_\<close> functions (limit, order, nothing else changed).
  \<^item> Task\_Util (task.c and the cost functions of GA.c; \<open>utilpower_dyadic\<close> pins the verdict on a task and
    its utilization to integer arithmetic), Taskattrs (chromosomes: random assignment,
    balancing, inheritance and their histogram \<open>hist_ok\<close>), Gene (\<open>check_memusage\<close>, \<open>check_utilpower\<close>,
    \<open>lower_utilization\<close>: verdict, score and errors on every branch).
  \<^item> Ranking is the abstract specification of a sorted population, with the locale \<open>strict_less\<close>;
    Population (\<open>sort_gene\<close>, \<open>init_populations\<close>) refines it on the pointer lists and interprets the
    locale for the three keys (\<open>by_key\<close>). \<open>admitted\<close> is the invariant of a gene, \<open>pop\<close> of a population.
  \<^item> Selection (\<open>select_position\<close>: the double computation is the integer rank formula), Crossover (one
    generation: \<open>replaced\<close> says what has changed), Report (report.c and \<open>run_GA\<close>; \<open>ga_loop_invariant\<close>
    carries whatever every generation keeps to the end of the loop).
  \<^item> Stdio (\<open>fgets\<close>, \<open>fseek\<close>, \<open>sscanf\<close>, \<open>strtod\<close>, \<open>printf\<close> as far as the programs use them, on the text
    of a file), Conf (conf.c, conf\_gastask.c: every section parser is \<open>section_loop\<close> around its own row
    function; the locale \<open>section_rows\<close> is interpreted for all of them), Gastask (gastask.c: options,
    loading, the whole program), Output (the texts of report.txt, task.txt and the summary; task.txt is
    shown to be read back as the choices of the best gene), Gasgen (gasgen.c, gen\_\*.c, conf\_gasgen.c:
    the generated texts, which are shown to be read back by the parsers of Conf).

  \<^bold>\<open>Offloading.\<close>
  \<^item> Transmit (transmit.c): a connection is the bytes to come, the bytes sent and what the kernel will do
    at each call, so every way to cut a stream is covered. The locale \<open>channel\<close> is what the programs
    rely on, interpreted as \<open>tr\<close>. A stream ends some day; a peer that is silent with the connection
    open, on which \<open>read\<close> blocks, is a step that is not enabled in Interleaving. Sockets holds addresses, \<open>accept\<close> and \<open>connect\<close>.
  \<^item> Gateway (gateway.c), Gateway\_Client (gateway\_client.c), Enclave (enclave.c), Iiot\_Device
    (iiot\_device.c), Attsdoc (attsdoc.c: \<open>validate_attsdoc_accepts\<close> says exactly which documents are
    accepted): each program with its \<open>main\<close>, and what it has sent, read and shown after any number of
    rounds against any peer (\<open>gateway_relays\<close>, \<open>enclave_serves\<close>, \<open>device_offloads\<close>). \<open>rounds\<close>,
    \<open>service_rounds\<close> and \<open>device_rounds\<close> iterate the body of the endless loops, so that the state in
    the middle of one can be named. The gateway is a pure pipe for every stream
    (\<open>gateway_is_transparent\<close>).
  \<^item> Offload composes the functions of the three programs in the order that the blocking calls force,
    from the connections to the \<open>k\<close>-th response. Interleaving drops the fixed order and the delivery of
    whole messages: a step relation in which the programs take any step they can and the network
    moves any number of bytes on any link. \<open>in_phase\<close> is the invariant; from it follow safety
    (\<open>interleavings_deliver\<close>), a refinement of a two-line specification (\<open>interleavings_refine\<close>) and
    progress by a well-founded measure (\<open>interleavings_progress\<close>).
  \<^item> Credentials (credentials.c): the caller and the callback as two threads, one step per access to the
    shared context, under every interleaving and with or without spurious wake-ups. Iot\_Device
    (iot\_device.c): the list of calls to the MQTT library.

  \<^bold>\<open>Bounds.\<close> The rank formula holds up to 16383 genes (beyond, \<open>8 * alpha * n_pops\<close> wraps). \<open>gastask\<close> is shown
  to end for at least 2 tasks, 2 memories, a cloud and 3 genes and \<open>max_gen\<close> below \<open>UINT_MAX\<close>; outside of
  this the development shows endless loops or traps. \<open>MAX_TRY\<close> is the 10000 of the code. The offload
  counters are signed and overflow after 2147483647 tasks; the theorems on sessions say so.

  \<^bold>\<open>Parameters.\<close> Third-party code is an argument of the definitions that call it: OpenSSL (records \<open>evp\<close>
  and \<open>lib\<close>; a session assumes that what is encrypted for a key is opened by it, \<open>opens\<close>, per round
  because encryption is randomised), libcbor (an item is what its accessors show), the Nitro and AWS
  libraries (the key, the document, the buffers; condition variables as documented), the MQTT
  library (the result of \<open>connect\<close>), \<open>srand\<close> (the sequence for a seed), \<open>fopen\<close> (the files that can be
  opened), \<open>getopt\<close> (the options it finds) and the network. Each is instantiated in a witness.

  \<^bold>\<open>Not modelled.\<close> The text of error messages, usages and progress messages; \<open>errmsg\<close>; memory that
  runs out; signals (\<open>SIGPIPE\<close>); the clock that times \<open>run_GA\<close>; \<open>sleep\<close>; output under \<open>DEBUG\<close>, and
  \<open>show_gene\<close>, which is compiled out; \<open>generate_rsa_keypair\<close>, which only calls OpenSSL. The trust
  model (Go, Python), the shell scripts and the data are not C.
\<close>

end
